(* ===== verification/Prelude.thy ===== *)
theory Prelude
  imports Main "HOL-Library.Word"
begin

text \<open>
  Shared ground of the development: the machine integers of the agent, results that may be a
  fault of the process, byte images of integers in memory and on the wire, C strings, and
  \<^verbatim>\<open>struct timeval\<close>.  The host is the little-endian x86-64 machine the agent is
  built for (\<^verbatim>\<open>sizeof(long) = 8\<close>, \<^verbatim>\<open>struct timeval\<close> is 16 bytes).
\<close>

unbundle bit_operations_syntax

named_theorems const_defs
named_theorems wire_simps

subsection \<open>Machine integers\<close>

type_synonym byte = "8 word"
type_synonym u8 = "8 word"
type_synonym u16 = "16 word"
type_synonym u32 = "32 word"
type_synonym u64 = "64 word"

text \<open>The primitive types of \<^verbatim>\<open>global.h\<close> that are unsigned wrap; the signed ones
  (\<^verbatim>\<open>databyte_t\<close>, \<^verbatim>\<open>pktnum_t\<close>) are integers, since their overflow is
  undefined in C and the definitions say where a value is reduced.\<close>

type_synonym seqnum = u32
type_synonym bytes_t = u32
type_synonym msg_type = u32
type_synonym databyte = int
type_synonym pktnum = int
type_synonym in_addr = u32

text \<open>Conversion of a 32-bit unsigned value to a C \<^verbatim>\<open>int\<close>.\<close>

definition to_s32 :: "u32 \<Rightarrow> int" where
  "to_s32 w = sint w"

lemma unat_u32_lt [simp]: "unat (w :: u32) < 4294967296"
  using unsigned_less [of w] by simp

lemma unat_u16_lt [simp]: "unat (w :: u16) < 65536"
  using unsigned_less [of w] by simp

lemma unat_u16_le [simp]: "unat (w :: u16) \<le> 65535"
  using unat_u16_lt [of w] by linarith

lemma unat_add_small:
  "unat (a :: u32) + unat b < 4294967296 \<Longrightarrow> unat (a + b) = unat a + unat b"
  by (simp add: unat_word_ariths)

lemma unat_mult_small:
  "unat (a :: u32) * unat b < 4294967296 \<Longrightarrow> unat (a * b) = unat a * unat b"
  by (simp add: unat_word_ariths)

lemma unat_sub_small:
  "b \<le> a \<Longrightarrow> unat ((a :: u32) - b) = unat a - unat b"
  by (simp add: unat_sub)

lemma unat_Suc_u32:
  "unat (a :: u32) < 4294967295 \<Longrightarrow> unat (a + 1) = Suc (unat a)"
  by (simp add: unat_word_ariths)

lemma unat_div_u32 [simp]: "unat ((a :: u32) div b) = unat a div unat b"
  by (simp add: unat_div_distrib)

lemma unat_mod_u32 [simp]: "unat ((a :: u32) mod b) = unat a mod unat b"
  by (simp add: unat_mod_distrib)

lemma u32_eq_iff_unat: "(a :: u32) = b \<longleftrightarrow> unat a = unat b"
  by (auto dest: word_unat_eq_iff [THEN iffD2])

subsection \<open>Faults: what stops the process\<close>

text \<open>Every \<^verbatim>\<open>abort\<close>, failed \<^verbatim>\<open>assert\<close>, \<^verbatim>\<open>exit\<close>
  and memory error of the code is a value.\<close>

datatype fault = Aborted | AssertFailed | Exited | NullDeref | OutOfBounds | UseAfterFree | DivByZero

type_synonym 'a res = "fault + 'a"

definition rbind :: "'a res \<Rightarrow> ('a \<Rightarrow> 'b res) \<Rightarrow> 'b res" where
  "rbind x f = (case x of Inl e \<Rightarrow> Inl e | Inr y \<Rightarrow> f y)"

definition assert_c :: "bool \<Rightarrow> 'a res \<Rightarrow> 'a res" where
  "assert_c b k = (if b then k else Inl AssertFailed)"

definition deref :: "'a option \<Rightarrow> ('a \<Rightarrow> 'b res) \<Rightarrow> 'b res" where
  "deref p f = (case p of None \<Rightarrow> Inl NullDeref | Some x \<Rightarrow> f x)"

lemma rbind_simps [simp]: "rbind (Inl e) f = Inl e" "rbind (Inr y) f = f y"
  by (simp_all add: rbind_def)

lemma rbind_assoc: "rbind (rbind x f) g = rbind x (\<lambda>y. rbind (f y) g)"
  by (cases x) simp_all

lemma rbind_Inr_iff: "rbind x f = Inr z \<longleftrightarrow> (\<exists>y. x = Inr y \<and> f y = Inr z)"
  by (cases x) auto

lemma assert_c_simps [simp]: "assert_c True k = k" "assert_c False k = Inl AssertFailed"
  by (simp_all add: assert_c_def)

lemma assert_c_Inr_iff: "assert_c b k = Inr z \<longleftrightarrow> b \<and> k = Inr z"
  by (simp add: assert_c_def)

lemma deref_simps [simp]: "deref None f = Inl NullDeref" "deref (Some x) f = f x"
  by (simp_all add: deref_def)

lemma deref_Inr_iff: "deref p f = Inr z \<longleftrightarrow> (\<exists>x. p = Some x \<and> f x = Inr z)"
  by (cases p) auto

lemmas res_iffs = rbind_Inr_iff assert_c_Inr_iff deref_Inr_iff

subsection \<open>Integers as bytes\<close>

text \<open>The \<open>n\<close> bytes of a value as the little-endian host stores it, and the value a load of
  these bytes gives.\<close>

definition le_enc :: "nat \<Rightarrow> 'a::len word \<Rightarrow> byte list" where
  "le_enc n w = map (\<lambda>i. ucast (drop_bit (8 * i) w)) [0..<n]"

fun le_dec :: "byte list \<Rightarrow> 'a::len word" where
  "le_dec [] = 0"
| "le_dec (b # bs) = ucast b OR push_bit 8 (le_dec bs)"

lemma length_le_enc [simp]: "length (le_enc n w) = n"
  by (simp add: le_enc_def)

lemma bit_le_dec:
  "bit (le_dec bs :: 'a::len word) i \<longleftrightarrow>
     i < LENGTH('a) \<and> i < 8 * length bs \<and> bit (bs ! (i div 8)) (i mod 8)"
proof (induction bs arbitrary: i)
  case Nil
  then show ?case by simp
next
  case (Cons b bs)
  show ?case
  proof (cases "i < 8")
    case True
    then show ?thesis
      by (auto simp: bit_or_iff bit_push_bit_iff bit_ucast_iff)
  next
    case False
    then obtain j where j: "i = j + 8" by (metis add.commute le_add_diff_inverse not_less)
    have nb: "\<not> bit b (j + 8)"
      using bit_imp_le_length [of b "j + 8"] by auto
    have d: "(j + 8) div 8 = Suc (j div 8)" by simp
    show ?thesis
      by (auto simp: j nb d bit_or_iff bit_push_bit_iff bit_ucast_iff Cons.IH)
  qed
qed

lemma le_dec_le_enc [simp]:
  fixes w :: "'a::len word"
  assumes "LENGTH('a) \<le> 8 * n"
  shows "le_dec (le_enc n w) = w"
proof (rule bit_word_eqI)
  fix i assume i: "i < LENGTH('a)"
  with assms have "i div 8 < n" and "i < 8 * n" by auto
  moreover have "8 * (i div 8) + i mod 8 = i" by simp
  ultimately show "bit (le_dec (le_enc n w) :: 'a word) i = bit w i"
    using i by (simp add: bit_le_dec le_enc_def bit_ucast_iff bit_drop_bit_eq)
qed

text \<open>Network byte order.  \<^verbatim>\<open>htonl\<close> and its kin swap the bytes of the value, so that the
  little-endian store of the result is the big-endian image of the argument.\<close>

definition htonl :: "u32 \<Rightarrow> u32" where
  "htonl w = le_dec (rev (le_enc 4 w))"

definition htons :: "u16 \<Rightarrow> u16" where
  "htons w = le_dec (rev (le_enc 2 w))"

definition htobe64 :: "u64 \<Rightarrow> u64" where
  "htobe64 w = le_dec (rev (le_enc 8 w))"

abbreviation ntohl :: "u32 \<Rightarrow> u32" where "ntohl \<equiv> htonl"
abbreviation ntohs :: "u16 \<Rightarrow> u16" where "ntohs \<equiv> htons"
abbreviation be64toh :: "u64 \<Rightarrow> u64" where "be64toh \<equiv> htobe64"

lemma le_enc_le_dec:
  assumes "length bs = n" "8 * n \<le> LENGTH('a)"
  shows "le_enc n (le_dec bs :: 'a::len word) = bs"
proof (rule nth_equalityI)
  show "length (le_enc n (le_dec bs :: 'a word)) = length bs" using assms by simp
  fix k assume "k < length (le_enc n (le_dec bs :: 'a word))"
  then have k: "k < n" by simp
  show "le_enc n (le_dec bs :: 'a word) ! k = bs ! k"
  proof (rule bit_word_eqI)
    fix i :: nat assume "i < LENGTH(8)"
    then have i: "i < 8" by simp
    then have "(8 * k + i) div 8 = k" and "(8 * k + i) mod 8 = i" by auto
    then show "bit (le_enc n (le_dec bs :: 'a word) ! k) i = bit (bs ! k) i"
      using k i assms
      by (simp add: le_enc_def bit_ucast_iff bit_drop_bit_eq bit_le_dec)
  qed
qed

lemma le_enc_htonl [simp]: "le_enc 4 (htonl w) = rev (le_enc 4 w)"
  unfolding htonl_def by (rule le_enc_le_dec) auto

lemma le_enc_htobe64 [simp]: "le_enc 8 (htobe64 w) = rev (le_enc 8 w)"
  unfolding htobe64_def by (rule le_enc_le_dec) auto

lemma le_enc_htons [simp]: "le_enc 2 (htons w) = rev (le_enc 2 w)"
  unfolding htons_def by (rule le_enc_le_dec) auto

lemma htonl_htonl [simp]: "htonl (htonl w) = w"
  by (simp add: htonl_def [of "htonl w"])

lemma htobe64_htobe64 [simp]: "htobe64 (htobe64 w) = w"
  by (simp add: htobe64_def [of "htobe64 w"])

lemma htons_htons [simp]: "htons (htons w) = w"
  by (simp add: htons_def [of "htons w"])

lemma htonl_inj: "htonl a = htonl b \<longleftrightarrow> a = b"
  by (metis htonl_htonl)

subsection \<open>Memory areas\<close>

text \<open>Overwriting a part of a buffer, and reading one.\<close>

definition poke :: "nat \<Rightarrow> 'a list \<Rightarrow> 'a list \<Rightarrow> 'a list" where
  "poke off new buf = take off buf @ new @ drop (off + length new) buf"

definition peek :: "nat \<Rightarrow> nat \<Rightarrow> 'a list \<Rightarrow> 'a list" where
  "peek off n buf = take n (drop off buf)"

lemma length_poke [simp]:
  "off + length new \<le> length buf \<Longrightarrow> length (poke off new buf) = length buf"
  by (simp add: poke_def)

lemma peek_poke [simp]:
  "off + length new \<le> length buf \<Longrightarrow> n = length new \<Longrightarrow> peek off n (poke off new buf) = new"
  by (simp add: poke_def peek_def)

lemma take_poke [simp]:
  "off + length new \<le> length buf \<Longrightarrow>
     take (off + length new) (poke off new buf) = take off buf @ new"
  by (simp add: poke_def)

lemma take_poke_le [simp]: "n \<le> off \<Longrightarrow> off \<le> length buf \<Longrightarrow> take n (poke off new buf) = take n buf"
  by (simp add: poke_def min_def)

lemma length_peek [simp]: "length (peek off n buf) = min n (length buf - off)"
  by (simp add: peek_def min.commute)

lemma peek_append_left:
  "off + n \<le> length a \<Longrightarrow> peek off n (a @ b) = peek off n a"
  by (simp add: peek_def)

lemma peek_take: "off + n \<le> m \<Longrightarrow> peek off n (take m xs) = peek off n xs"
  by (simp add: peek_def drop_take min_def)

lemma peek_poke_before:
  "off + n \<le> k \<Longrightarrow> k \<le> length buf \<Longrightarrow> peek off n (poke k new buf) = peek off n buf"
  by (simp add: poke_def peek_append_left peek_take)

lemma peek_poke_after:
  "k + length new \<le> off \<Longrightarrow> k \<le> length buf \<Longrightarrow> peek off n (poke k new buf) = peek off n buf"
  by (simp add: poke_def peek_def)

subsection \<open>Time\<close>

datatype timeval = Timeval (tv_sec: int) (tv_usec: int)

lemma timeval_eq_iff: "a = b \<longleftrightarrow> tv_sec a = tv_sec b \<and> tv_usec a = tv_usec b"
  by (cases a; cases b) simp

text \<open>\<^verbatim>\<open>timercmp(a, b, <)\<close> and \<^verbatim>\<open>timersub\<close> of \<^verbatim>\<open>sys/time.h\<close>.\<close>

definition timercmp_lt :: "timeval \<Rightarrow> timeval \<Rightarrow> bool" where
  "timercmp_lt a b = (if tv_sec a = tv_sec b then tv_usec a < tv_usec b else tv_sec a < tv_sec b)"

definition timersub :: "timeval \<Rightarrow> timeval \<Rightarrow> timeval" where
  "timersub a b =
     (let s = tv_sec a - tv_sec b; u = tv_usec a - tv_usec b
      in if u < 0 then Timeval (s - 1) (u + 1000000) else Timeval s u)"

definition tv_to_us :: "timeval \<Rightarrow> int" where
  "tv_to_us t = tv_sec t * 1000 * 1000 + tv_usec t"

lemma tv_to_us_timersub: "tv_to_us (timersub a b) = tv_to_us a - tv_to_us b"
  by (simp add: tv_to_us_def timersub_def Let_def)

text \<open>The order of \<^verbatim>\<open>timercmp\<close> is a linear order.\<close>

instantiation timeval :: linorder
begin

definition less_timeval :: "timeval \<Rightarrow> timeval \<Rightarrow> bool" where
  "less_timeval a b \<longleftrightarrow> timercmp_lt a b"

definition less_eq_timeval :: "timeval \<Rightarrow> timeval \<Rightarrow> bool" where
  "less_eq_timeval a b \<longleftrightarrow> timercmp_lt a b \<or> a = b"

instance
  by standard
    (auto simp: less_timeval_def less_eq_timeval_def timercmp_lt_def timeval_eq_iff split: if_splits)

end

subsection \<open>Numbers that fit a word\<close>

lemma unat_of_nat_u32: "m < 4294967296 \<Longrightarrow> unat (of_nat m :: u32) = m"
  by (simp add: unsigned_of_nat take_bit_eq_mod)

lemma of_nat_zero_u32: "m < 4294967296 \<Longrightarrow> (of_nat m :: u32) = 0 \<longleftrightarrow> m = 0"
  by (auto simp: word_of_nat_eq_0_iff dest: nat_dvd_not_less)

lemma unat_of_nat_u16: "m < 65536 \<Longrightarrow> unat (of_nat m :: u16) = m"
  by (simp add: unsigned_of_nat take_bit_eq_mod)

lemma sint_small: "unat (w :: u32) < 2147483648 \<Longrightarrow> sint w = int (unat w)"
proof -
  assume "unat w < 2147483648"
  then have "int (unat w) < int 2147483648" by (simp only: of_nat_less_iff)
  then have "- (2 ^ 31) \<le> uint w" "uint w < 2 ^ 31"
    using order_trans [of "- (2 ^ 31)" 0 "uint w"] by simp_all
  then show ?thesis by (simp add: sint_uint signed_take_bit_int_eq_self)
qed

lemma of_nat_eq_u32: "a < 4294967296 \<Longrightarrow> b < 4294967296 \<Longrightarrow> (of_nat a :: u32) = of_nat b \<longleftrightarrow> a = b"
  by (metis unat_of_nat_u32)

subsection \<open>C strings\<close>

text \<open>A \<^verbatim>\<open>char\<close> array holds a string up to its first zero byte.\<close>

definition char_bytes :: "string \<Rightarrow> byte list" where
  "char_bytes s = map (\<lambda>c. of_nat (of_char c)) s"

definition bytes_char :: "byte list \<Rightarrow> string" where
  "bytes_char bs = map (\<lambda>b. char_of (unat b)) bs"

definition c_string :: "byte list \<Rightarrow> string" where
  "c_string bs = bytes_char (takeWhile (\<lambda>b. b \<noteq> 0) bs)"

text \<open>\<^verbatim>\<open>strncpy(dst, src, n)\<close>: at most \<open>n\<close> bytes, the rest zeros, no terminator when the
  source is \<open>n\<close> bytes or longer.\<close>

definition strncpy :: "byte list \<Rightarrow> nat \<Rightarrow> byte list" where
  "strncpy src n =
     (let s = take n (takeWhile (\<lambda>b. b \<noteq> 0) src) in s @ replicate (n - length s) 0)"

lemma length_strncpy [simp]: "length (strncpy src n) = n"
  by (simp add: strncpy_def Let_def)

lemma takeWhile_all_replicate:
  "\<forall>x \<in> set xs. P x \<Longrightarrow> \<not> P z \<Longrightarrow> takeWhile P (xs @ replicate k z) = xs"
  by (induction xs) (auto simp: takeWhile_replicate)

lemma takeWhile_strncpy:
  "takeWhile (\<lambda>b. b \<noteq> 0) (strncpy src n) = take n (takeWhile (\<lambda>b. b \<noteq> 0) src)"
  unfolding strncpy_def Let_def
  by (rule takeWhile_all_replicate) (auto dest: in_set_takeD set_takeWhileD)

lemma strncpy_strncpy [simp]: "strncpy (strncpy src n) n = strncpy src n"
  by (simp add: strncpy_def [of "strncpy src n"] takeWhile_strncpy)
    (simp add: strncpy_def Let_def)

subsection \<open>Cutting data into packets\<close>

text \<open>\<open>L\<close> bytes in packets of \<open>P\<close> bytes, the last of which may be shorter.\<close>

definition n_packets :: "nat \<Rightarrow> nat \<Rightarrow> nat" where
  "n_packets L P = (if L mod P = 0 then L div P else L div P + 1)"

definition last_bytes :: "nat \<Rightarrow> nat \<Rightarrow> nat" where
  "last_bytes L P = (if L mod P = 0 then P else L mod P)"

definition chunk :: "nat \<Rightarrow> 'a list \<Rightarrow> nat \<Rightarrow> 'a list" where
  "chunk P xs s = take P (drop (s * P) xs)"

lemma packets_cover:
  assumes "0 < L" "0 < P"
  shows "0 < n_packets L P" "(n_packets L P - 1) * P + last_bytes L P = L" "0 < last_bytes L P" "last_bytes L P \<le> P"
proof -
  have L: "L = L div P * P + L mod P" by simp
  show "0 < n_packets L P" using assms L by (cases "L div P = 0") (auto simp: n_packets_def)
  show "0 < last_bytes L P" "last_bytes L P \<le> P" using assms by (auto simp: last_bytes_def less_imp_le)
  show "(n_packets L P - 1) * P + last_bytes L P = L"
  proof (cases "L mod P = 0")
    case True
    then have d: "L = L div P * P" using L by simp
    then have "0 < L div P" using assms by (cases "L div P") auto
    then have "(L div P - 1) * P + P = L div P * P" by (cases "L div P") auto
    with True d show ?thesis by (simp add: n_packets_def last_bytes_def)
  next
    case False
    with L show ?thesis by (simp add: n_packets_def last_bytes_def)
  qed
qed

lemma chunk_before_last: "s + 1 < n_packets (length xs) P \<Longrightarrow> 0 < P \<Longrightarrow> length (chunk P xs s) = P"
proof -
  assume a: "s + 1 < n_packets (length xs) P" "0 < P"
  then have "0 < length xs" by (cases xs) (auto simp: n_packets_def)
  note c = packets_cover [OF this a(2)]
  have "(s + 1) * P \<le> (n_packets (length xs) P - 1) * P" using a(1) by (intro mult_le_mono1) simp
  then have "s * P + P \<le> length xs" using c(2) by simp
  then show ?thesis by (simp add: chunk_def)
qed

lemma chunk_last:
  assumes "xs \<noteq> []" "0 < P" "s + 1 = n_packets (length xs) P"
  shows "length (chunk P xs s) = last_bytes (length xs) P"
proof -
  have s: "s = n_packets (length xs) P - 1" using assms(3) by simp
  have "0 < length xs" using assms(1) by simp
  note c = packets_cover [OF this assms(2)]
  have "length xs - s * P = last_bytes (length xs) P" using c(2) unfolding s by linarith
  then show ?thesis using c(4) by (simp add: chunk_def)
qed

lemma length_chunk:
  assumes "xs \<noteq> []" "0 < P" "s < n_packets (length xs) P"
  shows "length (chunk P xs s) = (if s + 1 = n_packets (length xs) P then last_bytes (length xs) P else P)"
  using assms chunk_last [of xs P s] chunk_before_last [of s xs P] by simp

lemma drop_chunk: "drop (s * P) xs = chunk P xs s @ drop ((s + 1) * P) xs"
  by (simp add: chunk_def) (metis append_take_drop_id drop_drop)

lemma concat_chunks: "a \<le> b \<Longrightarrow> concat (map (chunk P xs) [a..<b]) = take (b * P - a * P) (drop (a * P) xs)"
proof (induction b)
  case 0
  then show ?case by simp
next
  case (Suc b)
  show ?case
  proof (cases "a = Suc b")
    case True
    then show ?thesis by simp
  next
    case False
    with Suc.prems have le: "a \<le> b" by simp
    then have m: "a * P \<le> b * P" by simp
    let ?ys = "drop (a * P) xs"
    have d: "drop (b * P - a * P) ?ys = drop (b * P) xs" using m by simp
    have n: "Suc b * P - a * P = (b * P - a * P) + P" using m by simp
    have "take (Suc b * P - a * P) ?ys = take (b * P - a * P) ?ys @ chunk P xs b"
      unfolding n take_add d chunk_def by (rule refl)
    then show ?thesis using Suc.IH [OF le] le by simp
  qed
qed

end
