(* ===== verification/Dll.thy ===== *)
theory Dll
  imports Prelude
begin

text \<open>
  The doubly linked list of \<^verbatim>\<open>dll.c\<close> and \<^verbatim>\<open>dll.h\<close>, on an explicit heap of
  nodes.  A \<^verbatim>\<open>calloc\<close> is an argument: the address it returned, or \<open>None\<close>.  Loads
  through a null or a freed pointer are faults.  \<open>dll h l xs\<close> says that the list \<open>l\<close> holds the
  nodes \<open>xs\<close>, in this order; every operation is shown to refine the operation on \<open>xs\<close>.
\<close>

subsection \<open>Nodes, lists and the heap\<close>

record 'v lnode =
  nxt :: "nat option"
  prv :: "nat option"
  "value" :: 'v

record llist =
  count :: int
  first_p :: "nat option"
  last_p :: "nat option"

type_synonym 'v heap = "nat \<Rightarrow> 'v lnode option"

definition load :: "'v heap \<Rightarrow> nat option \<Rightarrow> (nat \<Rightarrow> 'v lnode \<Rightarrow> 'b res) \<Rightarrow> 'b res" where
  "load h p f = (case p of None \<Rightarrow> Inl NullDeref
     | Some a \<Rightarrow> (case h a of None \<Rightarrow> Inl UseAfterFree | Some n \<Rightarrow> f a n))"

lemma load_simps [simp]:
  "load h None f = Inl NullDeref"
  "h a = Some n \<Longrightarrow> load h (Some a) f = f a n"
  by (simp_all add: load_def)

definition check :: "bool \<Rightarrow> 'b res \<Rightarrow> 'b res" where
  "check b k = (if b then k else Inl Aborted)"

lemma check_simps [simp]: "check True k = k" "check False k = Inl Aborted"
  by (simp_all add: check_def)

definition List_create :: llist where
  "List_create = \<lparr>count = 0, first_p = None, last_p = None\<rparr>"

definition new_node :: "'v \<Rightarrow> 'v lnode" where
  "new_node v = \<lparr>nxt = None, prv = None, value = v\<rparr>"

definition List_push :: "'v heap \<Rightarrow> llist \<Rightarrow> 'v \<Rightarrow> nat option \<Rightarrow> ('v heap \<times> llist \<times> nat) res" where
  "List_push h l v alloc = (case alloc of None \<Rightarrow> Inl Aborted
     | Some a \<Rightarrow>
        (let h = h(a \<mapsto> new_node v)
         in if last_p l = None
            then Inr (h, l\<lparr>first_p := Some a, last_p := Some a, count := count l + 1\<rparr>, a)
            else load h (last_p l) (\<lambda>b n.
              let h = h(b \<mapsto> n\<lparr>nxt := Some a\<rparr>)
              in load h (Some a) (\<lambda>_ m.
                Inr (h(a \<mapsto> m\<lparr>prv := last_p l\<rparr>), l\<lparr>last_p := Some a, count := count l + 1\<rparr>, a)))))"

definition List_unshift :: "'v heap \<Rightarrow> llist \<Rightarrow> 'v \<Rightarrow> nat option \<Rightarrow> ('v heap \<times> llist) res" where
  "List_unshift h l v alloc = (case alloc of None \<Rightarrow> Inl Aborted
     | Some a \<Rightarrow>
        (let h = h(a \<mapsto> new_node v)
         in if first_p l = None
            then Inr (h, l\<lparr>first_p := Some a, last_p := Some a, count := count l + 1\<rparr>)
            else load h (Some a) (\<lambda>_ m.
              let h = h(a \<mapsto> m\<lparr>nxt := first_p l\<rparr>)
              in load h (first_p l) (\<lambda>b n.
                Inr (h(b \<mapsto> n\<lparr>prv := Some a\<rparr>), l\<lparr>first_p := Some a, count := count l + 1\<rparr>)))))"

text \<open>Unlinking a node: the four cases shared by \<^verbatim>\<open>List_remove\<close> and
  \<^verbatim>\<open>List_remove_\<close>.\<close>

definition unlink :: "'v heap \<Rightarrow> llist \<Rightarrow> nat \<Rightarrow> ('v heap \<times> llist \<times> nat option) res" where
  "unlink h l a =
     (if Some a = first_p l \<and> Some a = last_p l
      then Inr (h, l\<lparr>first_p := None, last_p := None\<rparr>, None)
      else if Some a = first_p l
      then load h (Some a) (\<lambda>_ n.
        check (nxt n \<noteq> None) (load h (nxt n) (\<lambda>b m.
          Inr (h(b \<mapsto> m\<lparr>prv := None\<rparr>), l\<lparr>first_p := nxt n\<rparr>, nxt n))))
      else if Some a = last_p l
      then load h (Some a) (\<lambda>_ n.
        check (prv n \<noteq> None) (load h (prv n) (\<lambda>b m.
          Inr (h(b \<mapsto> m\<lparr>nxt := None\<rparr>), l\<lparr>last_p := prv n\<rparr>, prv n))))
      else load h (Some a) (\<lambda>_ n.
        load h (nxt n) (\<lambda>b m.
          let h = h(b \<mapsto> m\<lparr>prv := prv n\<rparr>)
          in load h (prv n) (\<lambda>c k.
            Inr (h(c \<mapsto> k\<lparr>nxt := nxt n\<rparr>), l, prv n)))))"

definition List_remove :: "'v heap \<Rightarrow> llist \<Rightarrow> nat \<Rightarrow> ('v heap \<times> llist \<times> 'v) res" where
  "List_remove h l a =
     check (first_p l \<noteq> None \<and> last_p l \<noteq> None)
       (rbind (unlink h l a) (\<lambda>(h, l, _).
         load h (Some a) (\<lambda>_ n. Inr (h(a := None), l\<lparr>count := count l - 1\<rparr>, value n))))"

definition List_remove_node :: "'v heap \<Rightarrow> llist \<Rightarrow> nat \<Rightarrow> ('v heap \<times> llist \<times> nat option) res" where
  "List_remove_node h l a =
     rbind (unlink h l a) (\<lambda>(h, l, result).
       Inr (h(a := None), l\<lparr>count := count l - 1\<rparr>, result))"

definition List_pop :: "'v heap \<Rightarrow> llist \<Rightarrow> ('v heap \<times> llist \<times> 'v option) res" where
  "List_pop h l = (case first_p l of None \<Rightarrow> Inr (h, l, None)
     | Some a \<Rightarrow> rbind (List_remove h l a) (\<lambda>(h, l, v). Inr (h, l, Some v)))"

definition List_shift :: "'v heap \<Rightarrow> llist \<Rightarrow> ('v heap \<times> llist \<times> 'v option) res" where
  "List_shift h l = (case first_p l of None \<Rightarrow> Inr (h, l, None)
     | Some a \<Rightarrow> rbind (List_remove h l a) (\<lambda>(h, l, v). Inr (h, l, Some v)))"

subsection \<open>Loops over a list\<close>

text \<open>\<^verbatim>\<open>LIST_FOREACH_LINKEDLIST\<close> reads the successor after the body, and
  \<^verbatim>\<open>LIST_FOREACH_DOUBLYLINKEDLIST\<close> before it.  The fuel bounds the number of rounds.\<close>

fun foreach :: "nat \<Rightarrow> (nat \<Rightarrow> 'v heap \<Rightarrow> 'v heap res) \<Rightarrow> nat option \<Rightarrow> 'v heap \<Rightarrow> 'v heap res option" where
  "foreach fuel body None h = Some (Inr h)"
| "foreach 0 body (Some a) h = None"
| "foreach (Suc fuel) body (Some a) h =
     (case rbind (body a h) (\<lambda>h. load h (Some a) (\<lambda>_ n. Inr (h, nxt n))) of
        Inl e \<Rightarrow> Some (Inl e)
      | Inr (h, q) \<Rightarrow> foreach fuel body q h)"

fun foreach_safe :: "nat \<Rightarrow> (nat \<Rightarrow> 'v heap \<times> llist \<Rightarrow> ('v heap \<times> llist) res) \<Rightarrow> nat option
    \<Rightarrow> 'v heap \<times> llist \<Rightarrow> ('v heap \<times> llist) res option" where
  "foreach_safe fuel body None s = Some (Inr s)"
| "foreach_safe 0 body (Some a) s = None"
| "foreach_safe (Suc fuel) body (Some a) s =
     (case load (fst s) (Some a) (\<lambda>_ n. rbind (body a s) (\<lambda>s. Inr (s, nxt n))) of
        Inl e \<Rightarrow> Some (Inl e)
      | Inr (s, q) \<Rightarrow> foreach_safe fuel body q s)"

definition free_prev :: "nat \<Rightarrow> 'v heap \<Rightarrow> 'v heap res" where
  "free_prev a h = load h (Some a) (\<lambda>_ n.
     case prv n of None \<Rightarrow> Inr h
     | Some b \<Rightarrow> (if h b = None then Inl UseAfterFree else Inr (h(b := None))))"

text \<open>\<^verbatim>\<open>List_destroy\<close> frees, at every node, the node before it, and the last node after
  the loop (\<^verbatim>\<open>free(NULL)\<close> does nothing).\<close>

definition List_destroy :: "nat \<Rightarrow> 'v heap \<Rightarrow> llist \<Rightarrow> 'v heap res option" where
  "List_destroy fuel h l =
     map_option (\<lambda>r. rbind r (\<lambda>h. case last_p l of None \<Rightarrow> Inr h
         | Some b \<Rightarrow> (if h b = None then Inl UseAfterFree else Inr (h(b := None)))))
       (foreach fuel free_prev (first_p l) h)"

text \<open>\<^verbatim>\<open>List_clear\<close> frees what the values point to; \<open>vs\<close> is the set of the values whose memory is in use.\<close>

fun clear_loop :: "nat \<Rightarrow> 'v heap \<Rightarrow> nat option \<Rightarrow> 'v set \<Rightarrow> 'v set res option" where
  "clear_loop fuel h None vs = Some (Inr vs)"
| "clear_loop 0 h (Some a) vs = None"
| "clear_loop (Suc fuel) h (Some a) vs = (case h a of
       None \<Rightarrow> Some (Inl UseAfterFree)
     | Some n \<Rightarrow> if value n \<notin> vs then Some (Inl UseAfterFree) else clear_loop fuel h (nxt n) (vs - {value n}))"

definition List_clear :: "nat \<Rightarrow> 'v heap \<Rightarrow> llist \<Rightarrow> 'v set \<Rightarrow> 'v set res option" where
  "List_clear fuel h l vs = clear_loop fuel h (first_p l) vs"

definition List_clear_destroy :: "nat \<Rightarrow> 'v heap \<Rightarrow> llist \<Rightarrow> 'v set \<Rightarrow> ('v heap \<times> 'v set) res option" where
  "List_clear_destroy fuel h l vs = (case List_clear fuel h l vs of
       None \<Rightarrow> None
     | Some (Inl e) \<Rightarrow> Some (Inl e)
     | Some (Inr vs) \<Rightarrow> map_option (\<lambda>r. rbind r (\<lambda>h. Inr (h, vs))) (List_destroy fuel h l))"

subsection \<open>What a list holds\<close>

definition hd_or :: "nat list \<Rightarrow> nat option \<Rightarrow> nat option" where
  "hd_or xs d = (case xs of [] \<Rightarrow> d | x # _ \<Rightarrow> Some x)"

definition last_or :: "nat list \<Rightarrow> nat option \<Rightarrow> nat option" where
  "last_or xs d = (if xs = [] then d else Some (last xs))"

fun seg :: "'v heap \<Rightarrow> nat option \<Rightarrow> nat list \<Rightarrow> nat option \<Rightarrow> bool" where
  "seg h pr [] nx = True"
| "seg h pr (x # xs) nx =
     ((case h x of None \<Rightarrow> False | Some n \<Rightarrow> prv n = pr \<and> nxt n = hd_or xs nx)
      \<and> seg h (Some x) xs nx)"

definition dll :: "'v heap \<Rightarrow> llist \<Rightarrow> nat list \<Rightarrow> bool" where
  "dll h l xs \<longleftrightarrow> distinct xs \<and> seg h None xs None \<and> first_p l = hd_or xs None
     \<and> last_p l = last_or xs None \<and> count l = int (length xs)"

definition node_val :: "'v heap \<Rightarrow> nat \<Rightarrow> 'v" where
  "node_val h a = value (the (h a))"

definition vals :: "'v heap \<Rightarrow> nat list \<Rightarrow> 'v list" where
  "vals h xs = map (node_val h) xs"

lemma or_simps [simp]:
  "hd_or [] d = d" "hd_or (x # xs) d = Some x" "last_or [] d = d"
  "last_or (xs @ [x]) d = Some x" "last_or [x] d = Some x"
  "hd_or (xs @ ys) d = hd_or xs (hd_or ys d)" "last_or (xs @ ys) d = last_or ys (last_or xs d)"
  "last_or (x # xs) d = last_or xs (Some x)"
  by (auto simp: hd_or_def last_or_def split: list.splits)

lemma hd_or_None [simp]: "hd_or xs None = None \<longleftrightarrow> xs = []"
  by (cases xs) auto

lemma last_or_None [simp]: "last_or xs None = None \<longleftrightarrow> xs = []"
  by (simp add: last_or_def)

lemma last_or_Some [simp]: "last_or xs (Some x) \<noteq> None"
  by (simp add: last_or_def)

lemma hd_or_neq: "a \<notin> set xs \<Longrightarrow> d \<noteq> Some a \<Longrightarrow> Some a \<noteq> hd_or xs d"
  by (cases xs) auto

lemma last_or_neq: "a \<notin> set xs \<Longrightarrow> d \<noteq> Some a \<Longrightarrow> Some a \<noteq> last_or xs d"
  by (auto simp: last_or_def)

lemma hd_or_snoc: "hd_or xs (Some x) = hd_or (xs @ [x]) d"
  by simp

lemma seg_append [simp]:
  "seg h pr (xs @ ys) nx \<longleftrightarrow> seg h pr xs (hd_or ys nx) \<and> seg h (last_or xs pr) ys nx"
  by (induction xs arbitrary: pr) (auto simp: last_or_def split: option.splits)

lemma seg_upd [simp]: "a \<notin> set xs \<Longrightarrow> seg (h(a := v)) pr xs nx = seg h pr xs nx"
  by (induction xs arbitrary: pr) auto

lemma seg_SomeD: "seg h pr xs nx \<Longrightarrow> x \<in> set xs \<Longrightarrow> h x \<noteq> None"
  by (induction xs arbitrary: pr) (auto split: option.splits)

lemma seg_new_next:
  "seg h pr (xs @ [x]) nx \<Longrightarrow> x \<notin> set xs \<Longrightarrow> h x = Some n \<Longrightarrow>
     seg (h(x \<mapsto> n\<lparr>nxt := nx'\<rparr>)) pr (xs @ [x]) nx'"
  by (auto split: option.splits)

lemma seg_new_prev:
  "seg h pr (x # xs) nx \<Longrightarrow> x \<notin> set xs \<Longrightarrow> h x = Some n \<Longrightarrow>
     seg (h(x \<mapsto> n\<lparr>prv := pr'\<rparr>)) pr' (x # xs) nx"
  by (auto split: option.splits)

lemma vals_upd [simp]: "a \<notin> set xs \<Longrightarrow> vals (h(a := v)) xs = vals h xs"
  by (auto simp: vals_def node_val_def)

lemma vals_Cons [simp]: "vals h (x # xs) = node_val h x # vals h xs"
  "vals h [] = []" "vals h (xs @ ys) = vals h xs @ vals h ys"
  by (simp_all add: vals_def)

lemma node_val_upd [simp]: "node_val (h(a \<mapsto> n)) b = (if a = b then value n else node_val h b)"
  by (simp add: node_val_def)

lemma node_val_Some [simp]: "h a = Some n \<Longrightarrow> node_val h a = value n"
  by (simp add: node_val_def)


subsection \<open>The operations refine operations on the sequence of nodes\<close>

text \<open>The last node of a non-empty list, and how the list splits at it.\<close>

lemma dll_last_split:
  assumes "dll h l xs" and "xs \<noteq> []"
  obtains ys b n where "xs = ys @ [b]" "h b = Some n" "last_p l = Some b" "b \<notin> set ys" "distinct ys"
proof -
  from assms(2) obtain ys b where xs: "xs = ys @ [b]" by (metis rev_exhaust)
  with assms(1) obtain n where "h b = Some n" by (auto simp: dll_def split: option.splits)
  moreover have "last_p l = Some b" "b \<notin> set ys" "distinct ys" using assms(1) xs by (auto simp: dll_def)
  ultimately show ?thesis using that xs by blast
qed

lemma push_refines:
  assumes rep: "dll h l xs" and new: "a \<notin> set xs"
  shows "\<exists>h' l'. List_push h l v (Some a) = Inr (h', l', a) \<and> dll h' l' (xs @ [a])
    \<and> vals h' (xs @ [a]) = vals h xs @ [v] \<and> (\<forall>b. b \<notin> set (xs @ [a]) \<longrightarrow> h' b = h b)"
proof (cases "xs = []")
  case True
  with rep show ?thesis
    by (auto simp: List_push_def dll_def new_node_def Let_def)
next
  case False
  from dll_last_split [OF rep False] obtain ys b n where
    xs: "xs = ys @ [b]" and b: "h b = Some n" "last_p l = Some b" "b \<notin> set ys" "distinct ys" .
  have ab: "a \<noteq> b" and ay: "a \<notin> set ys" using new xs by auto
  let ?h = "h(b \<mapsto> n\<lparr>nxt := Some a\<rparr>)"
  have "seg ?h None (ys @ [b]) (Some a)"
    using rep b xs by (intro seg_new_next) (auto simp: dll_def)
  then have "seg (?h(a \<mapsto> (new_node v)\<lparr>prv := Some b\<rparr>)) None (ys @ [b, a]) None"
    using ab ay by (simp add: new_node_def split: option.splits)
  then show ?thesis
    using rep new b ab ay xs
    by (auto simp: List_push_def Let_def dll_def new_node_def fun_upd_twist)
qed

lemma unshift_refines:
  assumes rep: "dll h l xs" and new: "a \<notin> set xs"
  shows "\<exists>h' l'. List_unshift h l v (Some a) = Inr (h', l') \<and> dll h' l' (a # xs)
    \<and> vals h' (a # xs) = v # vals h xs \<and> (\<forall>b. b \<notin> set (a # xs) \<longrightarrow> h' b = h b)"
proof (cases xs)
  case Nil
  with rep show ?thesis
    by (auto simp: List_unshift_def dll_def new_node_def Let_def)
next
  case (Cons b ys)
  with rep obtain n where b: "h b = Some n" "first_p l = Some b" "b \<notin> set ys" "distinct ys"
    by (auto simp: dll_def split: option.splits)
  have ab: "a \<noteq> b" and ay: "a \<notin> set ys" using new Cons by auto
  have "seg (h(b \<mapsto> n\<lparr>prv := Some a\<rparr>)) (Some a) (b # ys) None"
    using rep b Cons by (intro seg_new_prev [where nx = None]) (auto simp: dll_def)
  then show ?thesis
    using rep new b ab ay Cons
    by (auto simp: List_unshift_def Let_def dll_def new_node_def fun_upd_twist split: option.splits)
qed

text \<open>Unlinking: the node leaves the chain, and stays allocated.\<close>

lemma unlink_refines:
  assumes rep: "dll h l (xs @ a # ys)"
  shows "\<exists>h' l' r. unlink h l a = Inr (h', l', r)
    \<and> dll h' (l'\<lparr>count := count l' - 1\<rparr>) (xs @ ys) \<and> count l' = count l
    \<and> vals h' (xs @ ys) = vals h (xs @ ys)
    \<and> h' a = h a \<and> (\<forall>b. b \<notin> set (xs @ ys) \<longrightarrow> h' b = h b)
    \<and> r = (if xs = [] then hd_or ys None else last_or xs None)"
proof -
  from rep obtain n where a: "h a = Some n" "prv n = last_or xs None" "nxt n = hd_or ys None"
    by (auto simp: dll_def split: option.splits)
  have d: "a \<notin> set xs" "a \<notin> set ys" "distinct (xs @ ys)" using rep by (auto simp: dll_def)
  show ?thesis
  proof (cases xs rule: rev_cases)
    case xs: Nil
    show ?thesis
    proof (cases ys)
      case Nil
      with rep xs a show ?thesis by (auto simp: unlink_def dll_def)
    next
      case (Cons y zs)
      with rep xs obtain m where y: "h y = Some m" by (auto simp: dll_def split: option.splits)
      have "seg (h(y \<mapsto> m\<lparr>prv := None\<rparr>)) None (y # zs) None"
        using rep xs Cons y by (intro seg_new_prev [where nx = None]) (auto simp: dll_def)
      with rep xs Cons a y d show ?thesis
        by (auto simp: unlink_def dll_def last_or_def node_val_def vals_def)
    qed
  next
    case xs: (snoc us u)
    with rep obtain k where u: "h u = Some k" by (auto simp: dll_def split: option.splits)
    show ?thesis
    proof (cases ys)
      case Nil
      have "seg (h(u \<mapsto> k\<lparr>nxt := None\<rparr>)) None (us @ [u]) None"
        using rep xs u by (intro seg_new_next) (auto simp: dll_def)
      with rep xs Nil a u d show ?thesis
        by (auto simp: unlink_def dll_def hd_or_neq)
    next
      case (Cons y zs)
      with rep obtain m where y: "h y = Some m" by (auto simp: dll_def split: option.splits)
      have uy: "u \<noteq> y" "u \<notin> set zs" "y \<notin> set us" "y \<notin> set zs" "u \<notin> set us"
        using d xs Cons by auto
      have "seg (h(y \<mapsto> m\<lparr>prv := Some u\<rparr>)) (Some u) (y # zs) None"
        using rep xs Cons y by (intro seg_new_prev [where nx = None]) (auto simp: dll_def)
      moreover have "seg (h(u \<mapsto> k\<lparr>nxt := Some y\<rparr>)) None (us @ [u]) (Some y)"
        using rep xs Cons u by (intro seg_new_next) (auto simp: dll_def)
      ultimately show ?thesis
        using rep xs Cons a u y d uy
        by (auto simp: unlink_def dll_def hd_or_neq last_or_neq)
    qed
  qed
qed


lemma dll_endpoints: "dll h l (xs @ a # ys) \<Longrightarrow> first_p l \<noteq> None \<and> last_p l \<noteq> None"
  by (cases xs) (auto simp: dll_def)

lemma remove_refines:
  assumes rep: "dll h l (xs @ a # ys)"
  shows "\<exists>h' l'. List_remove h l a = Inr (h', l', node_val h a) \<and> dll h' l' (xs @ ys)
    \<and> vals h' (xs @ ys) = vals h (xs @ ys) \<and> h' a = None
    \<and> (\<forall>b. b \<notin> set (xs @ a # ys) \<longrightarrow> h' b = h b)"
proof -
  from unlink_refines [OF rep] obtain h' l' r where u: "unlink h l a = Inr (h', l', r)"
    and d: "dll h' (l'\<lparr>count := count l' - 1\<rparr>) (xs @ ys)"
    and v: "vals h' (xs @ ys) = vals h (xs @ ys)" and a: "h' a = h a"
    and fr: "\<forall>b. b \<notin> set (xs @ ys) \<longrightarrow> h' b = h b" by blast
  from rep obtain n where n: "h a = Some n" by (auto simp: dll_def split: option.splits)
  have na: "a \<notin> set (xs @ ys)" using rep by (auto simp: dll_def)
  have "dll (h'(a := None)) (l'\<lparr>count := count l' - 1\<rparr>) (xs @ ys)"
    using d na by (simp add: dll_def del: seg_append)
  then show ?thesis
    using u v a fr n na dll_endpoints [OF rep]
    by (auto simp: List_remove_def simp del: vals_Cons)
qed

lemma remove_node_refines:
  assumes rep: "dll h l (xs @ a # ys)"
  shows "\<exists>h' l'. List_remove_node h l a
      = Inr (h', l', if xs = [] then hd_or ys None else last_or xs None)
    \<and> dll h' l' (xs @ ys) \<and> vals h' (xs @ ys) = vals h (xs @ ys) \<and> h' a = None"
proof -
  from unlink_refines [OF rep] obtain h' l' r where u: "unlink h l a = Inr (h', l', r)"
    and d: "dll h' (l'\<lparr>count := count l' - 1\<rparr>) (xs @ ys)"
    and v: "vals h' (xs @ ys) = vals h (xs @ ys)"
    and r: "r = (if xs = [] then hd_or ys None else last_or xs None)" by blast
  have na: "a \<notin> set (xs @ ys)" using rep by (auto simp: dll_def)
  have "dll (h'(a := None)) (l'\<lparr>count := count l' - 1\<rparr>) (xs @ ys)"
    using d na by (simp add: dll_def del: seg_append)
  then show ?thesis
    using u v r na by (auto simp: List_remove_node_def simp del: vals_Cons)
qed

lemma shift_refines:
  assumes rep: "dll h l (a # xs)"
  shows "\<exists>h' l'. List_shift h l = Inr (h', l', Some (node_val h a)) \<and> dll h' l' xs
    \<and> vals h' xs = vals h xs \<and> h' a = None"
proof -
  from remove_refines [of h l "[]" a xs] rep
  have "\<exists>h' l'. List_remove h l a = Inr (h', l', node_val h a) \<and> dll h' l' xs
    \<and> vals h' xs = vals h xs \<and> h' a = None" by auto
  moreover have "first_p l = Some a" using rep by (simp add: dll_def)
  ultimately show ?thesis by (auto simp: List_shift_def)
qed

lemma pop_is_shift: "List_pop h l = List_shift h l"
  by (simp add: List_pop_def List_shift_def)

subsection \<open>The list as a queue\<close>

text \<open>What a user of the list as a queue relies on: a representation, and that \<open>push\<close> appends and
  \<open>shift\<close> takes the oldest element.\<close>

locale fifo =
  fixes rep :: "'s \<Rightarrow> 'v list \<Rightarrow> bool"
    and push :: "'v \<Rightarrow> 's \<Rightarrow> 's res"
    and shift :: "'s \<Rightarrow> ('s \<times> 'v option) res"
  assumes push_law: "rep s vs \<Longrightarrow> \<exists>s'. push v s = Inr s' \<and> rep s' (vs @ [v])"
    and shift_law: "rep s (v # vs) \<Longrightarrow> \<exists>s'. shift s = Inr (s', Some v) \<and> rep s' vs"
begin

primrec push_all :: "'v list \<Rightarrow> 's \<Rightarrow> 's res" where
  "push_all [] s = Inr s"
| "push_all (v # vs) s = rbind (push v s) (push_all vs)"

primrec drain :: "nat \<Rightarrow> 's \<Rightarrow> ('s \<times> 'v option list) res" where
  "drain 0 s = Inr (s, [])"
| "drain (Suc k) s =
     rbind (shift s) (\<lambda>(s, v). rbind (drain k s) (\<lambda>(s, vs). Inr (s, v # vs)))"

lemma push_all_rep: "rep s us \<Longrightarrow> \<exists>s'. push_all vs s = Inr s' \<and> rep s' (us @ vs)"
proof (induction vs arbitrary: s us)
  case Nil
  then show ?case by simp
next
  case (Cons v vs)
  from push_law [OF Cons.prems] obtain s1 where "push v s = Inr s1" "rep s1 (us @ [v])" by blast
  with Cons.IH [of s1 "us @ [v]"] show ?case by auto
qed

lemma drain_rep: "rep s (us @ vs) \<Longrightarrow> \<exists>s'. drain (length us) s = Inr (s', map Some us) \<and> rep s' vs"
proof (induction us arbitrary: s)
  case Nil
  then show ?case by simp
next
  case (Cons u us)
  from shift_law [of s u "us @ vs"] Cons.prems obtain s1 where
    "shift s = Inr (s1, Some u)" "rep s1 (us @ vs)" by auto
  with Cons.IH [of s1] show ?case by auto
qed

lemma fifo_order:
  assumes "rep s []"
  shows "\<exists>s'. rbind (push_all vs s) (drain (length vs)) = Inr (s', map Some vs) \<and> rep s' []"
  using push_all_rep [OF assms, of vs] drain_rep [of _ vs "[]"] by auto

end

text \<open>The agent's lists as such a queue: the state is the heap, the list and the next address of the
  allocator, which hands out addresses that are not in use.\<close>

type_synonym 'v liststate = "'v heap \<times> llist \<times> nat"

definition list_rep :: "'v liststate \<Rightarrow> 'v list \<Rightarrow> bool" where
  "list_rep s vs \<longleftrightarrow> (case s of (h, l, k) \<Rightarrow>
     \<exists>xs. dll h l xs \<and> vals h xs = vs \<and> (\<forall>a \<in> set xs. a < k))"

definition list_push :: "'v \<Rightarrow> 'v liststate \<Rightarrow> 'v liststate res" where
  "list_push v s = (case s of (h, l, k) \<Rightarrow>
     rbind (List_push h l v (Some k)) (\<lambda>(h, l, _). Inr (h, l, Suc k)))"

definition list_shift :: "'v liststate \<Rightarrow> ('v liststate \<times> 'v option) res" where
  "list_shift s = (case s of (h, l, k) \<Rightarrow>
     rbind (List_shift h l) (\<lambda>(h, l, v). Inr ((h, l, k), v)))"

lemma list_push_law: "list_rep s vs \<Longrightarrow> \<exists>s'. list_push v s = Inr s' \<and> list_rep s' (vs @ [v])"
proof -
  assume "list_rep s vs"
  then obtain h l k xs where s: "s = (h, l, k)" and d: "dll h l xs" "vals h xs = vs"
    and lt: "\<forall>a \<in> set xs. a < k" by (auto simp: list_rep_def)
  have "k \<notin> set xs" using lt by auto
  from push_refines [OF d(1) this, of v] obtain h' l' where
    "List_push h l v (Some k) = Inr (h', l', k)" "dll h' l' (xs @ [k])" "vals h' (xs @ [k]) = vs @ [v]"
    using d(2) by auto
  moreover have "\<forall>a \<in> set (xs @ [k]). a < Suc k" using lt by auto
  ultimately have "list_rep (h', l', Suc k) (vs @ [v])" and "list_push v s = Inr (h', l', Suc k)"
    unfolding s list_push_def list_rep_def prod.case by (blast, simp)
  then show ?thesis by blast
qed

lemma list_shift_law:
  "list_rep s (v # vs) \<Longrightarrow> \<exists>s'. list_shift s = Inr (s', Some v) \<and> list_rep s' vs"
proof -
  assume "list_rep s (v # vs)"
  then obtain h l k xs where s: "s = (h, l, k)" and d: "dll h l xs" "vals h xs = v # vs"
    and lt: "\<forall>a \<in> set xs. a < k" by (auto simp: list_rep_def)
  then obtain a ys where xs: "xs = a # ys" by (cases xs) auto
  from shift_refines [of h l a ys] d xs obtain h' l' where
    "List_shift h l = Inr (h', l', Some v)" "dll h' l' ys" "vals h' ys = vs" by auto
  then show ?thesis
    using lt xs unfolding s list_shift_def list_rep_def by auto
qed

interpretation dq: fifo list_rep list_push list_shift
  by unfold_locales (erule list_push_law, erule list_shift_law)

subsection \<open>Loops\<close>

text \<open>The loop of \<^verbatim>\<open>List_destroy\<close> frees every node but the last.\<close>

definition freed :: "nat option \<Rightarrow> nat list \<Rightarrow> nat set" where
  "freed pr ys = (if ys = [] then {} else set_option pr \<union> set (butlast ys))"

lemma freed_simps [simp]:
  "freed pr [] = {}" "freed pr (y # ys) = set_option pr \<union> freed (Some y) ys"
  by (auto simp: freed_def)

lemma foreach_free_prev:
  assumes "seg h pr ys None" "distinct ys" "length ys \<le> fuel"
    and "\<And>b. pr = Some b \<Longrightarrow> h b \<noteq> None \<and> b \<notin> set ys"
  shows "foreach fuel free_prev (hd_or ys None) h
    = Some (Inr (\<lambda>a. if a \<in> freed pr ys then None else h a))"
  using assms
proof (induction ys arbitrary: h pr fuel)
  case Nil
  then show ?case by simp
next
  case (Cons y ys)
  from Cons.prems obtain k where fuel: "fuel = Suc k" by (cases fuel) auto
  from Cons.prems obtain n where y: "h y = Some n" "prv n = pr" "nxt n = hd_or ys None"
    by (auto split: option.splits)
  define h1 where "h1 = (case pr of None \<Rightarrow> h | Some b \<Rightarrow> h(b := None))"
  have fp: "free_prev y h = Inr h1" and h1y: "h1 y = Some n"
    using Cons.prems(4) y by (auto simp: free_prev_def h1_def split: option.splits)
  have "seg h1 (Some y) ys None" "\<And>b. Some y = Some b \<Longrightarrow> h1 b \<noteq> None \<and> b \<notin> set ys"
    using Cons.prems h1y by (auto simp: h1_def split: option.splits)
  with Cons.IH [of h1 "Some y" k] Cons.prems fuel
  have "foreach k free_prev (hd_or ys None) h1
      = Some (Inr (\<lambda>a. if a \<in> freed (Some y) ys then None else h1 a))" by auto
  moreover have "(\<lambda>a. if a \<in> freed (Some y) ys then None else h1 a)
      = (\<lambda>a. if a \<in> freed pr (y # ys) then None else h a)"
    by (auto simp: h1_def fun_eq_iff split: option.splits)
  ultimately show ?case
    using h1y y by (simp add: fuel fp)
qed

lemma destroy_frees:
  assumes "dll h l xs" "length xs \<le> fuel"
  shows "List_destroy fuel h l = Some (Inr (\<lambda>a. if a \<in> set xs then None else h a))"
proof (cases xs rule: rev_cases)
  case Nil
  with assms show ?thesis by (auto simp: List_destroy_def dll_def)
next
  case (snoc ys b)
  have "foreach fuel free_prev (hd_or xs None) h
      = Some (Inr (\<lambda>a. if a \<in> freed None xs then None else h a))"
    using assms by (intro foreach_free_prev) (auto simp: dll_def)
  moreover have "freed None xs = set ys" using snoc by (auto simp: freed_def)
  moreover have "h b \<noteq> None" "b \<notin> set ys" "last_p l = Some b" "first_p l = hd_or xs None"
    using assms snoc by (auto simp: dll_def split: option.splits)
  ultimately show ?thesis
    using snoc by (auto simp: List_destroy_def fun_eq_iff)
qed

text \<open>Clearing frees every value once when no two nodes share one, and is stopped by a second free otherwise.\<close>

lemma clear_loop_frees:
  assumes "seg h pr ys None" "length ys \<le> fuel" "distinct (vals h ys)" "set (vals h ys) \<subseteq> vs"
  shows "clear_loop fuel h (hd_or ys None) vs = Some (Inr (vs - set (vals h ys)))"
  using assms
proof (induction ys arbitrary: pr fuel vs)
  case Nil
  then show ?case by (simp add: vals_def)
next
  case (Cons y ys)
  from Cons.prems obtain k where fuel: "fuel = Suc k" by (cases fuel) auto
  from Cons.prems obtain n where y: "h y = Some n" "nxt n = hd_or ys None" by (auto split: option.splits)
  have v: "vals h (y # ys) = value n # vals h ys" by (simp add: vals_def node_val_def y)
  have s: "seg h (Some y) ys None" using Cons.prems(1) by simp
  have d: "value n \<notin> set (vals h ys)" "distinct (vals h ys)" "value n \<in> vs" "set (vals h ys) \<subseteq> vs"
    using Cons.prems(3,4) unfolding v by simp_all
  have "set (vals h ys) \<subseteq> vs - {value n}" using d(1,4) by blast
  then have "clear_loop k h (hd_or ys None) (vs - {value n}) = Some (Inr (vs - {value n} - set (vals h ys)))"
    using Cons.IH [OF s _ d(2)] Cons.prems(2) fuel by simp
  moreover have "vs - {value n} - set (vals h ys) = vs - set (vals h (y # ys))" unfolding v by auto
  ultimately show ?case using y d(3) by (simp add: fuel)
qed

lemma clear_destroy_frees:
  assumes "dll h l xs" "length xs \<le> fuel" "distinct (vals h xs)" "set (vals h xs) \<subseteq> vs"
  shows "List_clear_destroy fuel h l vs = Some (Inr (\<lambda>a. if a \<in> set xs then None else h a, vs - set (vals h xs)))"
proof -
  have "List_clear fuel h l vs = Some (Inr (vs - set (vals h xs)))"
    using clear_loop_frees [of h None xs fuel vs] assms by (simp add: List_clear_def dll_def)
  then show ?thesis using destroy_frees [OF assms(1,2)] by (simp add: List_clear_destroy_def)
qed

text \<open>A sweep: the loop of a thread that removes, while it walks a list, the entries it closes.\<close>

definition sweep_body :: "('v \<Rightarrow> bool) \<Rightarrow> nat \<Rightarrow> 'v heap \<times> llist \<Rightarrow> ('v heap \<times> llist) res" where
  "sweep_body P a s = (case s of (h, l) \<Rightarrow> load h (Some a) (\<lambda>_ n.
     if P (value n) then rbind (List_remove h l a) (\<lambda>(h, l, _). Inr (h, l)) else Inr (h, l)))"

lemma sweep_from:
  assumes "dll h l (xs @ ys)" "length ys \<le> fuel"
  shows "\<exists>h' l'. foreach_safe fuel (sweep_body P) (hd_or ys None) (h, l) = Some (Inr (h', l'))
    \<and> dll h' l' (xs @ filter (\<lambda>a. \<not> P (node_val h a)) ys)
    \<and> vals h' (xs @ filter (\<lambda>a. \<not> P (node_val h a)) ys)
      = vals h xs @ filter (\<lambda>v. \<not> P v) (vals h ys)"
  using assms
proof (induction ys arbitrary: h l xs fuel)
  case Nil
  then show ?case by simp
next
  case (Cons y ys)
  from Cons.prems obtain k where fuel: "fuel = Suc k" by (cases fuel) auto
  from Cons.prems obtain n where y: "h y = Some n" "nxt n = hd_or ys None"
    by (auto simp: dll_def split: option.splits)
  show ?case
  proof (cases "P (value n)")
    case False
    with Cons.IH [of h l "xs @ [y]" k] Cons.prems fuel y show ?thesis
      by (auto simp: sweep_body_def)
  next
    case True
    from remove_refines [OF Cons.prems(1)] obtain h1 l1 where r: "List_remove h l y = Inr (h1, l1, node_val h y)"
      and d: "dll h1 l1 (xs @ ys)" and v: "vals h1 (xs @ ys) = vals h (xs @ ys)" by blast
    from v have vs: "vals h1 xs = vals h xs" "vals h1 ys = vals h ys" by (auto simp: vals_def)
    then have "\<forall>a \<in> set ys. node_val h1 a = node_val h a" by (simp add: vals_def)
    then have "filter (\<lambda>a. \<not> P (node_val h1 a)) ys = filter (\<lambda>a. \<not> P (node_val h a)) ys"
      by (intro filter_cong) auto
    with Cons.IH [OF d, of k] Cons.prems fuel y True r vs show ?thesis
      by (auto simp: sweep_body_def)
  qed
qed

subsection \<open>Properties\<close>

text \<open>A list of two nodes, on which the hypotheses below are seen to hold.\<close>

definition two_heap :: "nat heap" where
  "two_heap = Map.empty(3 \<mapsto> \<lparr>nxt = Some 5, prv = None, value = 30\<rparr>,
     5 \<mapsto> \<lparr>nxt = None, prv = Some 3, value = 50\<rparr>)"

definition two_list :: llist where
  "two_list = \<lparr>count = 2, first_p = Some 3, last_p = Some 5\<rparr>"

lemma two_dll: "dll two_heap two_list [3, 5]"
  by (simp add: dll_def two_heap_def two_list_def)

lemma two_vals: "node_val two_heap 3 = 30" "node_val two_heap 5 = 50"
  by (simp_all add: two_heap_def node_val_def)

text \<open>\<^verbatim>\<open>List_push\<close> with a fresh node appends the value at the end of the sequence,
  returns the new node, and writes no memory outside the list.\<close>

theorem List_push_appends:
  assumes "dll h l xs" and "a \<notin> set xs"
  shows "\<exists>h' l'. List_push h l v (Some a) = Inr (h', l', a) \<and> dll h' l' (xs @ [a])
    \<and> vals h' (xs @ [a]) = vals h xs @ [v] \<and> (\<forall>b. b \<notin> set (xs @ [a]) \<longrightarrow> h' b = h b)"
  using assms by (rule push_refines)

theorem List_push_appends_witness:
  "\<exists>h' l'. List_push two_heap two_list 70 (Some 7) = Inr (h', l', 7) \<and> dll h' l' [3, 5, 7]
    \<and> vals h' [3, 5, 7] = [30, 50, 70]"
  using List_push_appends [OF two_dll, of 7 70] by (auto simp: two_vals simp del: vals_Cons(3))

text \<open>C8: \<^verbatim>\<open>List_remove\<close> of any node of the list, first, last or inner, returns its value, frees
  exactly that node and leaves the other nodes linked in their order with their values.\<close>

theorem List_remove_deletes:
  assumes "dll h l (xs @ a # ys)"
  shows "\<exists>h' l'. List_remove h l a = Inr (h', l', node_val h a) \<and> dll h' l' (xs @ ys)
    \<and> vals h' (xs @ ys) = vals h (xs @ ys) \<and> h' a = None
    \<and> (\<forall>b. b \<notin> set (xs @ a # ys) \<longrightarrow> h' b = h b)"
  using assms by (rule remove_refines)

theorem List_remove_deletes_witness:
  "\<exists>h' l'. List_remove two_heap two_list 5 = Inr (h', l', 50) \<and> dll h' l' [3] \<and> h' 5 = None"
  using List_remove_deletes [of two_heap two_list "[3]" 5 "[]"] two_dll by (auto simp: two_vals)

text \<open>C9: The list is a first-in first-out queue: pushing any values on an empty list and taking as
  many with \<^verbatim>\<open>List_shift\<close> (which is also \<^verbatim>\<open>List_pop\<close>) returns them in the order they were pushed,
  without a fault, and leaves the list empty.\<close>

theorem list_is_fifo:
  assumes "list_rep s []"
  shows "(\<exists>s'. rbind (dq.push_all vs s) (dq.drain (length vs)) = Inr (s', map Some vs) \<and> list_rep s' [])
    \<and> (\<forall>h l. List_pop h l = List_shift h l)"
  using dq.fifo_order [OF assms] pop_is_shift by blast

theorem list_is_fifo_witness:
  "\<exists>s'. rbind (dq.push_all [4, 8, 15 :: nat] (Map.empty, List_create, 0)) (dq.drain 3)
      = Inr (s', [Some 4, Some 8, Some 15]) \<and> list_rep s' []"
proof -
  have "list_rep (Map.empty :: nat heap, List_create, 0) []"
    by (simp add: list_rep_def dll_def List_create_def)
  from conjunct1 [OF list_is_fifo [OF this, of "[4, 8, 15]"]] show ?thesis
    by (simp add: numeral_3_eq_3)
qed

text \<open>C10: \<^verbatim>\<open>List_destroy\<close> on a well-formed list finishes without touching freed memory, in at most as many
  rounds as there are nodes, and frees exactly the nodes of the list.\<close>

theorem List_destroy_frees_all:
  assumes "dll h l xs" and "length xs \<le> fuel"
  shows "List_destroy fuel h l = Some (Inr (\<lambda>a. if a \<in> set xs then None else h a))"
  using assms by (rule destroy_frees)

theorem List_destroy_frees_all_witness:
  "List_destroy 2 two_heap two_list = Some (Inr (\<lambda>a. if a \<in> {3, 5} then None else two_heap a))"
  using List_destroy_frees_all [OF two_dll, of 2] by simp

text \<open>C11: Removing entries while walking a list with \<^verbatim>\<open>LIST_FOREACH_DOUBLYLINKEDLIST\<close>, as the
  threads do with their sockets, is safe: the loop ends without a fault and leaves exactly the
  entries that were not selected, in their order.\<close>

theorem List_sweep_filters:
  assumes "dll h l ys" and "length ys \<le> fuel"
  shows "\<exists>h' l' zs. foreach_safe fuel (sweep_body P) (first_p l) (h, l) = Some (Inr (h', l'))
    \<and> dll h' l' zs \<and> vals h' zs = filter (\<lambda>v. \<not> P v) (vals h ys)"
proof -
  have "first_p l = hd_or ys None" using assms(1) by (simp add: dll_def)
  with sweep_from [of h l "[]" ys fuel P] assms show ?thesis by auto
qed

theorem List_sweep_filters_witness:
  "\<exists>h' l' zs. foreach_safe 2 (sweep_body (\<lambda>v. v = 30)) (first_p two_list) (two_heap, two_list)
      = Some (Inr (h', l')) \<and> dll h' l' zs \<and> vals h' zs = [50]"
  using List_sweep_filters [OF two_dll, of 2 "\<lambda>v. v = 30"] by (simp add: two_vals)

end
