(* ===== verification/Checksum.thy ===== *)
theory Checksum
  imports Prelude
begin

text \<open>
  The Internet checksum of \<^verbatim>\<open>checksum.c\<close>: the summing and folding loops, the IP header
  checksum and its validation, the TCP and UDP checksums with their pseudo header.  Headers are byte
  images in memory.  The lemmas reduce the word arithmetic to the one's complement sum \<open>ones_sum\<close>
  of natural numbers.
\<close>

subsection \<open>The loops\<close>

definition load16 :: "byte list \<Rightarrow> nat \<Rightarrow> u16" where
  "load16 mem off = le_dec (peek off 2 mem)"

fun sum_loop :: "byte list \<Rightarrow> nat \<Rightarrow> nat \<Rightarrow> u64 \<Rightarrow> u64 \<times> nat \<times> nat" where
  "sum_loop mem off cnt s =
     (if cnt > 1 then sum_loop mem (off + 2) (cnt - 2) (s + ucast (load16 mem off)) else (s, off, cnt))"

declare sum_loop.simps [simp del]

text \<open>Adding the bytes: the loop, and the odd last byte, read as a 16-bit value and masked.\<close>

definition sum_bytes :: "byte list \<Rightarrow> nat \<Rightarrow> u64 \<Rightarrow> u64" where
  "sum_bytes mem cnt s =
     (case sum_loop mem 0 cnt s of (s, off, cnt) \<Rightarrow>
        if cnt > 0 then s + ucast (load16 mem off AND htons 0xFF00) else s)"

lemma fold_step_unat:
  "unat ((s AND 0xffff) + drop_bit 16 (s :: u64)) = unat s mod 65536 + unat s div 65536"
proof -
  have "s AND 0xffff = take_bit 16 s" by (simp add: take_bit_eq_mask mask_eq_exp_minus_1)
  then have m: "unat (s AND 0xffff) = unat s mod 65536"
    by (simp add: take_bit_eq_mod unat_mod_distrib)
  have d: "unat (drop_bit 16 s) = unat s div 65536"
    by (simp add: drop_bit_eq_div unat_div_distrib)
  have "unat s < 18446744073709551616" using unsigned_less [of s] by simp
  then have "unat s mod 65536 + unat s div 65536 < 18446744073709551616" by linarith
  then show ?thesis by (simp add: unat_word_ariths m d)
qed

lemma fold_lt: "n div 65536 \<noteq> 0 \<Longrightarrow> n mod 65536 + n div 65536 < (n :: nat)"
  using mult_div_mod_eq [of 65536 n] by linarith

lemma fold_mod: "(n mod 65536 + n div 65536) mod 65535 = (n :: nat) mod 65535"
proof -
  have "n = (n mod 65536 + n div 65536) + 65535 * (n div 65536)"
    using mult_div_mod_eq [of 65536 n] by linarith
  then have "n mod 65535 = ((n mod 65536 + n div 65536) + 65535 * (n div 65536)) mod 65535"
    by simp
  also have "\<dots> = (n mod 65536 + n div 65536) mod 65535" by (rule mod_mult_self2)
  finally show ?thesis by simp
qed

function fold16 :: "u64 \<Rightarrow> u64" where
  "fold16 s = (if drop_bit 16 s \<noteq> 0 then fold16 ((s AND 0xffff) + drop_bit 16 s) else s)"
  by pat_completeness auto

termination
proof (relation "measure unat", simp, goal_cases)
  case (1 s)
  then have "unat (drop_bit 16 s) \<noteq> 0" by (simp add: unat_eq_0)
  then have "unat s div 65536 \<noteq> 0" by (simp add: drop_bit_eq_div unat_div_distrib)
  then show ?case by (simp add: fold_step_unat fold_lt)
qed

declare fold16.simps [simp del]

text \<open>The folded complement, as both halves of \<^verbatim>\<open>checksum.c\<close> end: fold, complement, cast to
  \<^verbatim>\<open>unsigned short\<close>.\<close>

definition finish :: "u64 \<Rightarrow> u16" where
  "finish s = ucast (NOT (fold16 s))"

definition compute_checksum :: "byte list \<Rightarrow> nat \<Rightarrow> u16" where
  "compute_checksum mem cnt = finish (sum_bytes mem cnt 0)"


text \<open>The IP header: the length nibble is the low half of byte 0, the checksum is at byte 10.\<close>

definition ip_ihl :: "byte list \<Rightarrow> nat" where
  "ip_ihl hdr = unat (hdr ! 0 AND 0x0f)"

definition compute_ip_checksum :: "byte list \<Rightarrow> byte list" where
  "compute_ip_checksum hdr =
     (let hdr = poke 10 (le_enc 2 (0 :: u16)) hdr
      in poke 10 (le_enc 2 (compute_checksum hdr (ip_ihl hdr * 4))) hdr)"

definition validate_ip_checksum :: "byte list \<Rightarrow> u16" where
  "validate_ip_checksum hdr = compute_checksum hdr (ip_ihl hdr * 4)"

text \<open>The pseudo header: both addresses (at bytes 12 and 16 of the IP header) by halves, the
  protocol number and the length, both in network order.\<close>

definition half_sum :: "u32 \<Rightarrow> u64" where
  "half_sum a = ucast ((drop_bit 16 a) AND 0xffff) + ucast (a AND 0xffff)"

definition pseudo_sum :: "byte list \<Rightarrow> u16 \<Rightarrow> u16 \<Rightarrow> u64" where
  "pseudo_sum iph proto len =
     half_sum (le_dec (peek 12 4 iph)) + half_sum (le_dec (peek 16 4 iph))
     + ucast (htons proto) + ucast len"

definition compute_tcp_checksum :: "byte list \<Rightarrow> byte list \<Rightarrow> byte list" where
  "compute_tcp_checksum iph seg =
     (let tcpLen = ntohs (le_dec (peek 2 2 iph)) - of_nat (ip_ihl iph * 4);
          s = pseudo_sum iph 6 (htons tcpLen);
          seg = poke 16 (le_enc 2 (0 :: u16)) seg
      in poke 16 (le_enc 2 (finish (sum_bytes seg (unat tcpLen) s))) seg)"

definition compute_udp_checksum :: "byte list \<Rightarrow> byte list \<Rightarrow> byte list" where
  "compute_udp_checksum iph dgram =
     (let len = le_dec (peek 4 2 dgram) :: u16;
          udpLen = htons len;
          s = pseudo_sum iph 17 len;
          dgram = poke 6 (le_enc 2 (0 :: u16)) dgram;
          c = finish (sum_bytes dgram (unat udpLen) s)
      in poke 6 (le_enc 2 (if c = 0 then 0xFFFF else c)) dgram)"

subsection \<open>The one's complement sum\<close>

definition ones_sum :: "nat \<Rightarrow> nat" where
  "ones_sum n = (if n = 0 then 0 else if n mod 65535 = 0 then 65535 else n mod 65535)"

lemma ones_sum_small: "n < 65536 \<Longrightarrow> ones_sum n = n"
  by (cases "n = 65535") (auto simp: ones_sum_def)

lemma ones_sum_le: "ones_sum n \<le> 65535"
  by (auto simp: ones_sum_def intro: less_imp_le)

lemma ones_sum_cong: "m mod 65535 = n mod 65535 \<Longrightarrow> (m = 0 \<longleftrightarrow> n = 0) \<Longrightarrow> ones_sum m = ones_sum n"
  by (simp add: ones_sum_def)

lemma ones_sum_full: "n \<noteq> 0 \<Longrightarrow> n mod 65535 = 0 \<Longrightarrow> ones_sum n = 65535"
  by (simp add: ones_sum_def)

lemma ones_sum_complement: "ones_sum (n + (65535 - ones_sum n)) = 65535"
proof (cases "n mod 65535 = 0")
  case True
  then show ?thesis by (auto simp: ones_sum_def)
next
  case False
  define q r where "q = n div 65535" and "r = n mod 65535"
  then have "n = r + 65535 * q" "r < 65535" by simp_all
  then have "n + (65535 - r) = 65535 * (q + 1)" by arith
  then have "n + (65535 - n mod 65535) = 65535 * (n div 65535 + 1)" by (simp only: q_def r_def)
  with False show ?thesis by (auto simp: ones_sum_def)
qed

lemma unat_fold16: "unat (fold16 s) = ones_sum (unat s)"
proof (induction s rule: fold16.induct)
  case (1 s)
  show ?case
  proof (cases "drop_bit 16 s = 0")
    case True
    then have "unat (s div 65536) = 0" by (simp add: drop_bit_eq_div)
    then have "unat s < 65536" by (simp add: unat_div_distrib)
    with True show ?thesis by (subst fold16.simps) (simp add: ones_sum_small)
  next
    case False
    then have nz: "unat s div 65536 \<noteq> 0"
      by (simp add: drop_bit_eq_div flip: unat_eq_0) (simp add: unat_div_distrib)
    have "unat (fold16 s) = ones_sum (unat s mod 65536 + unat s div 65536)"
      using "1.IH" [OF False] False by (subst fold16.simps) (simp add: fold_step_unat)
    also have "\<dots> = ones_sum (unat s)"
      using nz by (intro ones_sum_cong fold_mod) auto
    finally show ?thesis .
  qed
qed


lemma unat_finish: "unat (finish s) = 65535 - ones_sum (unat s)"
proof -
  have lt: "unat (fold16 s) < 65536"
    using ones_sum_le [of "unat s"] by (simp add: unat_fold16)
  have "NOT (fold16 s) = - 1 - fold16 s" by (simp add: not_eq_complement)
  then have "unat (NOT (fold16 s)) = 18446744073709551615 - unat (fold16 s)"
    using unat_sub [of "fold16 s" "- 1"] by (simp add: unsigned_minus_1_eq_mask mask_eq_exp_minus_1)
  then have "unat (ucast (NOT (fold16 s)) :: u16) = (18446744073709551615 - unat (fold16 s)) mod 65536"
    by (simp add: unsigned_ucast_eq take_bit_eq_mod)
  also have "(18446744073709551615 - unat (fold16 s)) mod 65536 = 65535 - unat (fold16 s)"
  proof -
    have "18446744073709551615 - unat (fold16 s)
        = (65535 - unat (fold16 s)) + 65536 * 281474976710655" using lt by simp
    then show ?thesis by (simp only: mod_mult_self2) simp
  qed
  finally show ?thesis by (simp add: finish_def unat_fold16)
qed

subsection \<open>Sums of 16-bit words\<close>

lemma sum_room:
  fixes a d w x b :: nat
  shows "a + 65536 * (d + 1) < b \<Longrightarrow> w \<le> 65535 * d \<Longrightarrow> x \<le> 65535 \<Longrightarrow> a + w + x < b"
  by (simp add: distrib_left)

lemma sum_room0:
  fixes d w x :: nat
  shows "w \<le> 65535 * d \<Longrightarrow> x \<le> 65535 \<Longrightarrow> w + x \<le> 65536 * (d + 1)"
  by (simp add: distrib_left)

definition words_sum :: "byte list \<Rightarrow> nat \<Rightarrow> nat" where
  "words_sum mem k = (\<Sum>i<k. unat (load16 mem (2 * i)))"

lemma words_sum_le: "words_sum mem k \<le> 65535 * k"
proof -
  have "words_sum mem k \<le> (\<Sum>i<k. 65535)"
    unfolding words_sum_def by (rule sum_mono) simp
  then show ?thesis by simp
qed

lemma sum_loop_off:
  assumes "unat s + (\<Sum>i<cnt div 2. unat (load16 mem (off + 2 * i))) < 2 ^ 64"
  shows "\<exists>t. sum_loop mem off cnt s = (t, off + 2 * (cnt div 2), cnt mod 2)
    \<and> unat t = unat s + (\<Sum>i<cnt div 2. unat (load16 mem (off + 2 * i)))"
  using assms
proof (induction mem off cnt s rule: sum_loop.induct)
  case (1 mem off cnt s)
  show ?case
  proof (cases "cnt > 1")
    case False
    then show ?thesis by (subst sum_loop.simps) (auto simp: less_Suc_eq)
  next
    case True
    define c where "c = cnt - 2"
    with True have c: "cnt = c + 2" by simp
    have split: "(\<Sum>i<cnt div 2. unat (load16 mem (off + 2 * i)))
      = unat (load16 mem off) + (\<Sum>i<c div 2. unat (load16 mem (off + 2 + 2 * i)))"
      unfolding c by (simp add: sum.lessThan_Suc_shift del: sum.lessThan_Suc)
    let ?s = "s + ucast (load16 mem off)"
    have "unat s + unat (load16 mem off) < 2 ^ 64" using "1.prems" split by linarith
    then have us: "unat ?s = unat s + unat (load16 mem off)"
      by (simp add: unat_word_ariths unsigned_ucast_eq take_bit_eq_mod)
    with "1.prems" split have "unat ?s + (\<Sum>i<(cnt - 2) div 2. unat (load16 mem (off + 2 + 2 * i))) < 2 ^ 64"
      by (simp add: c)
    from "1.IH" [OF True this] obtain t where
      "sum_loop mem (off + 2) (cnt - 2) ?s = (t, off + 2 + 2 * (c div 2), c mod 2)"
      "unat t = unat ?s + (\<Sum>i<c div 2. unat (load16 mem (off + 2 + 2 * i)))" by (auto simp: c)
    with us split True show ?thesis
      by (subst sum_loop.simps) (auto simp: c simp del: sum.lessThan_Suc)
  qed
qed


text \<open>The sum of a buffer: its words and its odd last byte.\<close>

definition bytes_sum :: "byte list \<Rightarrow> nat \<Rightarrow> nat" where
  "bytes_sum mem cnt = words_sum mem (cnt div 2)
     + (if cnt mod 2 > 0 then unat (load16 mem (2 * (cnt div 2)) AND 0xFF) else 0)"

lemma htons_FF00: "htons 0xFF00 = 0xFF"
  by code_simp

lemma unat_sum_bytes:
  assumes "unat s + 65536 * (cnt div 2 + 1) < 2 ^ 64"
  shows "unat (sum_bytes mem cnt s) = unat s + bytes_sum mem cnt"
proof -
  have le: "(\<Sum>i<cnt div 2. unat (load16 mem (0 + 2 * i))) \<le> 65535 * (cnt div 2)"
    using words_sum_le [of mem "cnt div 2"] by (simp add: words_sum_def)
  with assms obtain t where t: "sum_loop mem 0 cnt s = (t, 2 * (cnt div 2), cnt mod 2)"
    "unat t = unat s + words_sum mem (cnt div 2)"
    using sum_loop_off [where s = s and cnt = cnt and mem = mem and off = 0] by (fastforce simp: words_sum_def)
  let ?b = "load16 mem (2 * (cnt div 2)) AND 0xFF"
  have "unat t + unat ?b < 2 ^ 64"
    unfolding t(2) by (intro sum_room [OF assms] words_sum_le unat_u16_le)
  then have "unat (t + ucast ?b) = unat t + unat ?b"
    by (simp add: unat_word_ariths unsigned_ucast_eq take_bit_eq_mod)
  with t show ?thesis by (simp add: sum_bytes_def bytes_sum_def htons_FF00)
qed

text \<open>Writing the 16-bit word at position \<open>2 * j\<close> changes the sum by that word.\<close>

lemma load16_poke:
  assumes "2 * j + 2 \<le> length mem" "2 * i + 2 \<le> length mem"
  shows "load16 (poke (2 * j) (le_enc 2 c) mem) (2 * i) = (if i = j then c else load16 mem (2 * i))"
proof (cases "i = j")
  case True
  with assms show ?thesis by (simp add: load16_def)
next
  case False
  then consider "i < j" | "j < i" by linarith
  then have "peek (2 * i) 2 (poke (2 * j) (le_enc 2 c) mem) = peek (2 * i) 2 mem"
    using assms by cases (simp_all add: peek_poke_before peek_poke_after)
  with False show ?thesis by (simp add: load16_def)
qed

lemma words_sum_poke:
  assumes "j < k" "2 * k \<le> length mem"
  shows "words_sum (poke (2 * j) (le_enc 2 c) mem) k + unat (load16 mem (2 * j))
    = words_sum mem k + unat (c :: u16)"
proof -
  have "words_sum (poke (2 * j) (le_enc 2 c) mem) k
      = (\<Sum>i<k. if i = j then unat c else unat (load16 mem (2 * i)))"
    unfolding words_sum_def using assms by (intro sum.cong) (auto simp: load16_poke)
  moreover have "words_sum mem k = unat (load16 mem (2 * j)) + (\<Sum>i\<in>{..<k} - {j}. unat (load16 mem (2 * i)))"
    unfolding words_sum_def using assms by (subst sum.remove [of _ j]) auto
  moreover have "(\<Sum>i<k. if i = j then unat c else unat (load16 mem (2 * i)))
      = unat c + (\<Sum>i\<in>{..<k} - {j}. unat (load16 mem (2 * i)))"
    using assms by (subst sum.remove [of _ j]) (auto intro: sum.cong)
  ultimately show ?thesis by simp
qed


lemma bytes_sum_poke:
  assumes "j < cnt div 2" "cnt \<le> length mem"
  shows "bytes_sum (poke (2 * j) (le_enc 2 c) mem) cnt + unat (load16 mem (2 * j))
    = bytes_sum mem cnt + unat (c :: u16)"
proof -
  let ?m = "poke (2 * j) (le_enc 2 c) mem"
  have p: "peek (2 * (cnt div 2)) 2 ?m = peek (2 * (cnt div 2)) 2 mem"
    using assms by (intro peek_poke_after) auto
  have "words_sum ?m (cnt div 2) + unat (load16 mem (2 * j)) = words_sum mem (cnt div 2) + unat c"
    using assms by (intro words_sum_poke) auto
  then show ?thesis by (simp add: bytes_sum_def load16_def p)
qed

lemma bytes_sum_le: "bytes_sum mem cnt \<le> 65536 * (cnt div 2 + 1)"
  unfolding bytes_sum_def by (intro sum_room0 words_sum_le) simp

text \<open>A checksum that is the complement of the sum of everything else makes the whole sum
  \<open>65535\<close>, the one's complement zero: the common core of the three checksums.\<close>

lemma checksum_verifies:
  assumes j: "j < cnt div 2" and len: "cnt \<le> length mem"
    and small: "s0 + 65536 * (cnt div 2 + 1) < 2 ^ 64"
    and zero: "load16 mem (2 * j) = 0"
    and s: "unat s = s0"
    and c: "c = finish (sum_bytes mem cnt s) \<or>
      c = 0xFFFF \<and> finish (sum_bytes mem cnt s) = 0"
  shows "ones_sum (s0 + bytes_sum (poke (2 * j) (le_enc 2 c) mem) cnt) = 65535"
proof -
  let ?n = "s0 + bytes_sum mem cnt"
  have u: "unat (finish (sum_bytes mem cnt s)) = 65535 - ones_sum ?n"
    using small s by (subst unat_finish, subst unat_sum_bytes) auto
  have b: "bytes_sum (poke (2 * j) (le_enc 2 c) mem) cnt = bytes_sum mem cnt + unat c"
    using bytes_sum_poke [OF j len, of c] zero by simp
  from c show ?thesis
  proof
    assume "c = finish (sum_bytes mem cnt s)"
    then have "unat c = 65535 - ones_sum ?n" using u by simp
    then show ?thesis using ones_sum_complement [of ?n] by (simp add: b add.assoc)
  next
    assume c0: "c = 0xFFFF \<and> finish (sum_bytes mem cnt s) = 0"
    then have "ones_sum ?n = 65535" using u ones_sum_le [of ?n] by simp
    then have "?n \<noteq> 0" "?n mod 65535 = 0" by (auto simp: ones_sum_def split: if_splits)
    then have "ones_sum (?n + 65535) = 65535" by (intro ones_sum_full) auto
    then show ?thesis using c0 unfolding b by (simp add: add.assoc)
  qed
qed

lemma unat_add_le: "unat (a + b :: u64) \<le> unat a + unat b"
  by (simp add: unat_word_ariths)

lemma half_sum_le: "unat (half_sum a) \<le> 131070"
proof -
  have "unat (ucast (x AND 0xffff) :: u64) \<le> 65535" for x :: u32
    using word_and_le1 [of x "0xffff"] unsigned_less [of "x AND 0xffff"]
    by (simp add: unsigned_ucast_eq take_bit_eq_mod word_le_nat_alt)
  from add_mono [OF this [of "drop_bit 16 a"] this [of a]] show ?thesis
    unfolding half_sum_def by (intro order_trans [OF unat_add_le]) simp
qed

lemma pseudo_sum_le: "unat (pseudo_sum iph p n) \<le> 393210"
proof -
  have u: "unat (ucast w :: u64) \<le> 65535" for w :: u16
    unfolding unsigned_ucast_eq take_bit_eq_mod
    by (rule order_trans [OF mod_less_eq_dividend unat_u16_le])
  show ?thesis
    unfolding pseudo_sum_def
    using unat_add_le [of "half_sum (le_dec (peek 12 4 iph)) + half_sum (le_dec (peek 16 4 iph))
        + ucast (htons p)" "ucast n"]
      unat_add_le [of "half_sum (le_dec (peek 12 4 iph)) + half_sum (le_dec (peek 16 4 iph))"
        "ucast (htons p)"]
      unat_add_le [of "half_sum (le_dec (peek 12 4 iph))" "half_sum (le_dec (peek 16 4 iph))"]
      half_sum_le [of "le_dec (peek 12 4 iph)"] half_sum_le [of "le_dec (peek 16 4 iph)"]
      u [of "htons p"] u [of n]
    by linarith
qed

lemma pseudo_room:
  "cnt < 65536 \<Longrightarrow> unat (pseudo_sum iph p n) + 65536 * (cnt div 2 + 1) < 2 ^ 64"
proof -
  assume "cnt < 65536"
  then have "65536 * (cnt div 2 + 1) \<le> 65536 * 32769" by (intro mult_le_mono2) linarith
  then show ?thesis using pseudo_sum_le [of iph p n] by simp
qed

subsection \<open>Properties\<close>

lemma ip_checksum_zero:
  assumes "5 \<le> ip_ihl hdr" and "ip_ihl hdr * 4 \<le> length hdr"
  shows "validate_ip_checksum (compute_ip_checksum hdr) = 0"
proof -
  define cnt where "cnt = ip_ihl hdr * 4"
  define z where "z = poke (2 * 5) (le_enc 2 (0 :: u16)) hdr"
  define c where "c = finish (sum_bytes z cnt 0)"
  have len: "length z = length hdr" using assms by (simp add: z_def)
  have ihl: "ip_ihl (poke (2 * 5) (le_enc 2 (w :: u16)) y) = ip_ihl y" if "length y = length hdr" for w y
    using that assms by (simp add: ip_ihl_def poke_def nth_append)
  have cnt: "5 < cnt div 2" "cnt \<le> length z" "cnt \<le> 60"
    using assms len word_and_le1 [of "hdr ! 0" "0x0f"]
    by (simp_all add: cnt_def ip_ihl_def word_le_nat_alt)
  have "load16 z (2 * 5) = 0"
    unfolding z_def using assms by (subst load16_poke) auto
  with cnt have "ones_sum (0 + bytes_sum (poke (2 * 5) (le_enc 2 c) z) cnt) = 65535"
    by (intro checksum_verifies [where s = 0]) (auto simp: c_def)
  then have "unat (finish (sum_bytes (poke (2 * 5) (le_enc 2 c) z) cnt 0)) = 0"
    using cnt by (subst unat_finish, subst unat_sum_bytes) auto
  moreover have "compute_ip_checksum hdr = poke (2 * 5) (le_enc 2 c) z"
    using ihl [of hdr 0]
    by (simp add: compute_ip_checksum_def Let_def compute_checksum_def z_def c_def cnt_def)
  moreover have "ip_ihl (poke (2 * 5) (le_enc 2 c) z) * 4 = cnt"
    using ihl [OF len, of c] ihl [of hdr 0] by (simp add: z_def cnt_def)
  ultimately show ?thesis
    by (simp add: validate_ip_checksum_def compute_checksum_def unat_eq_0)
qed


text \<open>C12: Computing the IP checksum of a header of \<open>ihl\<close> words (at least the five of the code's headers) and
  validating it gives 0, whatever the old checksum field was.\<close>

theorem ip_checksum_validates:
  assumes "5 \<le> ip_ihl hdr" and "ip_ihl hdr * 4 \<le> length hdr"
  shows "validate_ip_checksum (compute_ip_checksum hdr) = 0"
  by (rule ip_checksum_zero [OF assms])

theorem ip_checksum_validates_witness:
  "5 \<le> ip_ihl (0x45 # replicate 19 7) \<and>
   validate_ip_checksum (compute_ip_checksum (0x45 # replicate 19 7)) = 0"
  using ip_checksum_validates [of "0x45 # replicate 19 7"] by (simp add: ip_ihl_def)

text \<open>C13: A datagram that went through \<open>compute_udp_checksum\<close> sums, with its pseudo header, to the
  one's complement zero, so every UDP receiver accepts it; and its checksum field is never 0, which
  on the wire would mean that there is no checksum.\<close>

theorem udp_checksum_verifies:
  assumes "8 \<le> unat (ntohs (le_dec (peek 4 2 dgram)))"
    and "unat (ntohs (le_dec (peek 4 2 dgram))) \<le> length dgram"
  shows "ones_sum (unat (pseudo_sum iph 17 (le_dec (peek 4 2 dgram)))
      + bytes_sum (compute_udp_checksum iph dgram) (unat (ntohs (le_dec (peek 4 2 dgram))))) = 65535
    \<and> load16 (compute_udp_checksum iph dgram) 6 \<noteq> 0"
proof -
  define n where "n = unat (ntohs (le_dec (peek 4 2 dgram)))"
  define s where "s = pseudo_sum iph 17 (le_dec (peek 4 2 dgram))"
  define z where "z = poke (2 * 3) (le_enc 2 (0 :: u16)) dgram"
  define c where "c = (let k = finish (sum_bytes z n s) in if k = 0 then 0xFFFF else k)"
  have n: "8 \<le> n" "n \<le> length dgram" "n < 65536" using assms by (simp_all add: n_def)
  have len: "length z = length dgram" using n by (simp add: z_def)
  have out: "compute_udp_checksum iph dgram = poke (2 * 3) (le_enc 2 c) z"
    by (simp add: compute_udp_checksum_def Let_def z_def c_def n_def s_def)
  have room: "unat s + 65536 * (n div 2 + 1) < 2 ^ 64"
    unfolding s_def using n(3) by (rule pseudo_room)
  have zero: "load16 z (2 * 3) = 0" unfolding z_def using n by (subst load16_poke) auto
  have sum: "ones_sum (unat s + bytes_sum (poke (2 * 3) (le_enc 2 c) z) n) = 65535"
    by (rule checksum_verifies [where s = s, OF _ _ room zero refl])
      (use n len in \<open>auto simp: c_def Let_def\<close>)
  have "load16 (poke (2 * 3) (le_enc 2 c) z) (2 * 3) = c" using n len by (subst load16_poke) auto
  moreover have "c \<noteq> 0" by (simp add: c_def Let_def)
  ultimately show ?thesis
    using sum unfolding n_def [symmetric] s_def [symmetric] out by simp
qed

theorem udp_checksum_verifies_witness:
  "unat (ntohs (le_dec (peek 4 2 [1, 2, 3, 4, 0, 9, 7, 7, 42 :: byte]))) = 9 \<and>
   ones_sum (unat (pseudo_sum (replicate 20 1) 17 (le_dec (peek 4 2 [1, 2, 3, 4, 0, 9, 7, 7, 42])))
     + bytes_sum (compute_udp_checksum (replicate 20 1) [1, 2, 3, 4, 0, 9, 7, 7, 42]) 9) = 65535"
proof -
  have n: "unat (ntohs (le_dec (peek 4 2 [1, 2, 3, 4, 0, 9, 7, 7, 42 :: byte]))) = 9"
    by code_simp
  show ?thesis
    using udp_checksum_verifies [of "[1, 2, 3, 4, 0, 9, 7, 7, 42]" "replicate 20 1"]
    by (simp only: n) simp
qed

text \<open>The same for \<open>compute_tcp_checksum\<close>, whose length comes from the IP header.\<close>

theorem tcp_checksum_verifies:
  fixes iph :: "byte list"
  defines "tcpLen \<equiv> ntohs (le_dec (peek 2 2 iph)) - of_nat (ip_ihl iph * 4)"
  assumes "20 \<le> unat tcpLen" and "unat tcpLen \<le> length seg"
  shows "ones_sum (unat (pseudo_sum iph 6 (htons tcpLen))
      + bytes_sum (compute_tcp_checksum iph seg) (unat tcpLen)) = 65535"
proof -
  define n where "n = unat tcpLen"
  define s where "s = pseudo_sum iph 6 (htons tcpLen)"
  define z where "z = poke (2 * 8) (le_enc 2 (0 :: u16)) seg"
  have n: "20 \<le> n" "n \<le> length seg" "n < 65536" using assms by (simp_all add: n_def)
  have len: "length z = length seg" using n by (simp add: z_def)
  have out: "compute_tcp_checksum iph seg = poke (2 * 8) (le_enc 2 (finish (sum_bytes z n s))) z"
    by (simp add: compute_tcp_checksum_def Let_def z_def n_def s_def tcpLen_def)
  have room: "unat s + 65536 * (n div 2 + 1) < 2 ^ 64"
    unfolding s_def using n(3) by (rule pseudo_room)
  have zero: "load16 z (2 * 8) = 0" unfolding z_def using n by (subst load16_poke) auto
  show ?thesis
    unfolding out n_def [symmetric] s_def [symmetric]
    by (rule checksum_verifies [where s = s, OF _ _ room zero refl]) (use n len in auto)
qed

theorem tcp_checksum_verifies_witness:
  "\<exists>iph. unat (ntohs (le_dec (peek 2 2 iph)) - of_nat (ip_ihl iph * 4)) = 21 \<and>
     ones_sum (unat (pseudo_sum iph 6 (htons 21))
       + bytes_sum (compute_tcp_checksum iph (replicate 21 9)) 21) = 65535"
proof -
  let ?iph = "[0x45, 0, 0, 41, 1, 2, 3, 4, 5, 6, 7, 8, 10, 0, 0, 1, 10, 0, 0, 2] :: byte list"
  have l: "ntohs (le_dec (peek 2 2 ?iph)) - of_nat (ip_ihl ?iph * 4) = 21" by code_simp
  show ?thesis
    using tcp_checksum_verifies [of ?iph "replicate 21 9"]
    by (intro exI [of _ ?iph]) (simp only: l, simp)
qed

end
