(* ===== verification/Printf.thy ===== *)
theory Printf
  imports Prelude "HOL-Library.Char_ord"
begin

text \<open>
  The parts of \<^verbatim>\<open>sprintf\<close> and \<^verbatim>\<open>inet_pton\<close> that the agent uses: \<^verbatim>\<open>%d\<close>, \<^verbatim>\<open>%ld\<close>,
  \<^verbatim>\<open>%0nlx\<close> and dotted-quad addresses.  The lemmas show that printed numbers can be read
  back and how long they are.
\<close>

subsection \<open>Numbers in a base\<close>

fun digits :: "nat \<Rightarrow> nat \<Rightarrow> nat list" where
  "digits b n = (if b < 2 \<or> n < b then [n] else digits b (n div b) @ [n mod b])"

declare digits.simps [simp del]

definition undigits :: "nat \<Rightarrow> nat list \<Rightarrow> nat" where
  "undigits b ds = foldl (\<lambda>a d. a * b + d) 0 ds"

lemma undigits_snoc [simp]: "undigits b (ds @ [d]) = undigits b ds * b + d"
  by (simp add: undigits_def)

lemma undigits_zeros: "undigits b (replicate k 0 @ ds) = undigits b ds"
  by (induction k) (auto simp: undigits_def)

lemma undigits_digits [simp]: "2 \<le> b \<Longrightarrow> undigits b (digits b n) = n"
proof (induction b n rule: digits.induct)
  case (1 b n)
  then show ?case by (subst digits.simps) (auto simp: undigits_def)
qed

lemma digits_lt: "2 \<le> b \<Longrightarrow> d \<in> set (digits b n) \<Longrightarrow> d < b"
proof (induction b n arbitrary: d rule: digits.induct)
  case (1 b n)
  then show ?case by (auto simp: digits.simps [of b n] split: if_splits)
qed

lemma digits_Nil [simp]: "digits b n \<noteq> []"
  by (subst digits.simps) simp

lemma length_digits: "2 \<le> b \<Longrightarrow> n < b ^ k \<Longrightarrow> 0 < k \<Longrightarrow> length (digits b n) \<le> k"
proof (induction b n arbitrary: k rule: digits.induct)
  case (1 b n)
  show ?case
  proof (cases "n < b")
    case True
    with 1 show ?thesis by (subst digits.simps) simp
  next
    case False
    obtain j where k: "k = Suc j" using 1 by (cases k) auto
    have j: "0 < j" using False "1.prems" k by (cases j) auto
    have "n div b < b ^ j"
      using "1.prems" k by (simp add: less_mult_imp_div_less mult.commute)
    with "1.IH" [of j] False "1.prems" j have "length (digits b (n div b)) \<le> j" by simp
    with False "1.prems" k show ?thesis by (subst digits.simps) simp
  qed
qed

lemma hd_digits: "2 \<le> b \<Longrightarrow> hd (digits b n) = 0 \<Longrightarrow> n = 0"
proof (induction b n rule: digits.induct)
  case (1 b n)
  then show ?case
    by (auto simp: digits.simps [of b n] hd_append div_eq_0_iff split: if_splits)
qed

subsection \<open>Digits as characters\<close>

definition digit_char :: "nat \<Rightarrow> char" where
  "digit_char d = (''0123456789abcdef'' ! d)"

definition char_digit :: "char \<Rightarrow> nat" where
  "char_digit c = (let k = of_char c :: nat in if k < 58 then k - 48 else k - 87)"

lemma char_digit_char [simp]: "d < 16 \<Longrightarrow> char_digit (digit_char d) = d"
proof -
  have "\<forall>d \<in> set [0..<16]. char_digit (digit_char d) = d" by code_simp
  then show "d < 16 \<Longrightarrow> ?thesis" by simp
qed

lemma digit_char_ne:
  assumes "d < 16"
  shows "digit_char d \<noteq> CHR ''-''" "digit_char d \<noteq> CHR ''.''" "digit_char d \<noteq> CHR ''/''"
proof -
  have "\<forall>d \<in> set [0..<16]. digit_char d \<noteq> CHR ''-'' \<and> digit_char d \<noteq> CHR ''.'' \<and> digit_char d \<noteq> CHR ''/''"
    by code_simp
  with assms show "digit_char d \<noteq> CHR ''-''" "digit_char d \<noteq> CHR ''.''" "digit_char d \<noteq> CHR ''/''"
    by simp_all
qed

text \<open>\<^verbatim>\<open>%d\<close> of a natural number, \<^verbatim>\<open>%ld\<close>, and \<^verbatim>\<open>%0wlx\<close>.\<close>

definition fmt_u :: "nat \<Rightarrow> string" where
  "fmt_u n = map digit_char (digits 10 n)"

definition fmt_ld :: "int \<Rightarrow> string" where
  "fmt_ld i = (if i < 0 then CHR ''-'' # fmt_u (nat (- i)) else fmt_u (nat i))"

definition fmt_lx :: "nat \<Rightarrow> nat \<Rightarrow> string" where
  "fmt_lx w n = (let s = map digit_char (digits 16 n) in replicate (w - length s) CHR ''0'' @ s)"

definition read_u :: "nat \<Rightarrow> string \<Rightarrow> nat" where
  "read_u b s = undigits b (map char_digit s)"

lemma map_char_digits:
  "2 \<le> b \<Longrightarrow> b \<le> 16 \<Longrightarrow> map (char_digit \<circ> digit_char) (digits b n) = digits b n"
  by (rule map_idI) (auto dest!: digits_lt)

lemma read_fmt_u [simp]: "read_u 10 (fmt_u n) = n"
  by (simp add: read_u_def fmt_u_def map_char_digits)

lemma read_fmt_lx [simp]: "read_u 16 (fmt_lx w n) = n"
proof -
  have "char_digit CHR ''0'' = 0" by code_simp
  then show ?thesis
    by (simp add: read_u_def fmt_lx_def Let_def map_char_digits undigits_zeros)
qed

lemma fmt_u_inj: "fmt_u m = fmt_u n \<longleftrightarrow> m = n"
  by (metis read_fmt_u)

lemma fmt_lx_inj: "fmt_lx w m = fmt_lx w n \<longleftrightarrow> m = n"
  by (metis read_fmt_lx)

lemma fmt_u_chars: "c \<in> set (fmt_u n) \<Longrightarrow> c \<noteq> CHR ''-'' \<and> c \<noteq> CHR ''.'' \<and> c \<noteq> CHR ''/''"
  using digits_lt [of 10 _ n] by (force simp: fmt_u_def digit_char_ne)

lemma fmt_lx_chars: "c \<in> set (fmt_lx w n) \<Longrightarrow> c \<noteq> CHR ''-'' \<and> c \<noteq> CHR ''/''"
  using digits_lt [of 16 _ n] by (force simp: fmt_lx_def Let_def digit_char_ne)

lemma fmt_ld_inj: "fmt_ld i = fmt_ld j \<longleftrightarrow> i = j"
proof -
  have "CHR ''-'' # s \<noteq> fmt_u n" for s n
    using fmt_u_chars [of "CHR ''-''" n] by (metis list.set_intros(1))
  then show ?thesis
    by (auto simp: fmt_ld_def fmt_u_inj eq_commute [of "fmt_u _" "_ # _"])
qed

lemma length_fmt_u: "n < 10 ^ k \<Longrightarrow> 0 < k \<Longrightarrow> length (fmt_u n) \<le> k"
  using length_digits [of 10 n k] by (simp add: fmt_u_def)

lemma length_fmt_lx: "n < 16 ^ w \<Longrightarrow> 0 < w \<Longrightarrow> length (fmt_lx w n) = w"
  using length_digits [of 16 n w] by (simp add: fmt_lx_def Let_def)

subsection \<open>Dotted quads\<close>

fun split_on :: "char \<Rightarrow> string \<Rightarrow> string list" where
  "split_on c [] = [[]]"
| "split_on c (x # xs) = (if x = c then [] # split_on c xs
     else (case split_on c xs of [] \<Rightarrow> [[x]] | f # fs \<Rightarrow> (x # f) # fs))"

lemma split_on_field:
  "c \<notin> set f \<Longrightarrow> split_on c (f @ c # xs) = f # split_on c xs"
  by (induction f) auto

lemma split_on_last: "c \<notin> set f \<Longrightarrow> split_on c f = [f]"
  by (induction f) auto

text \<open>One octet: decimal digits without a leading zero, at most 255.\<close>

definition octet :: "string \<Rightarrow> nat option" where
  "octet s = (if s \<noteq> [] \<and> (\<forall>c \<in> set s. CHR ''0'' \<le> c \<and> c \<le> CHR ''9'')
       \<and> (hd s = CHR ''0'' \<longrightarrow> s = ''0'') \<and> length s \<le> 3 \<and> read_u 10 s \<le> 255
     then Some (read_u 10 s) else None)"

text \<open>\<^verbatim>\<open>inet_pton(AF_INET, s, \<dots>)\<close>: the address as it lies in memory, in network order.\<close>

definition inet_pton :: "string \<Rightarrow> in_addr option" where
  "inet_pton s = (case map octet (split_on CHR ''.'' s) of
       [Some a, Some b, Some c, Some d] \<Rightarrow> Some (le_dec [of_nat a, of_nat b, of_nat c, of_nat d])
     | _ \<Rightarrow> None)"

lemma digit_char_dec: "d < 10 \<Longrightarrow> CHR ''0'' \<le> digit_char d \<and> digit_char d \<le> CHR ''9''"
proof -
  have "\<forall>d \<in> set [0..<10]. CHR ''0'' \<le> digit_char d \<and> digit_char d \<le> CHR ''9''" by code_simp
  then show "d < 10 \<Longrightarrow> ?thesis" by simp
qed

lemma octet_fmt_u: "k \<le> 255 \<Longrightarrow> octet (fmt_u k) = Some k"
proof -
  assume k: "k \<le> 255"
  have "fmt_u k = ''0''" if "hd (fmt_u k) = CHR ''0''"
  proof -
    have "hd (digits 10 k) < 10" by (rule digits_lt [of _ _ k]) auto
    moreover have "digit_char (hd (digits 10 k)) = digit_char 0"
      using that by (simp add: fmt_u_def hd_map) (simp add: digit_char_def)
    ultimately have "hd (digits 10 k) = 0"
      using char_digit_char [of "hd (digits 10 k)"] char_digit_char [of 0] by simp
    then have "k = 0" using hd_digits [of 10 k] by simp
    then show ?thesis by (simp add: fmt_u_def digits.simps digit_char_def)
  qed
  moreover have "\<forall>c \<in> set (fmt_u k). CHR ''0'' \<le> c \<and> c \<le> CHR ''9''"
    by (auto simp: fmt_u_def dest!: digits_lt [rotated] intro: digit_char_dec [THEN conjunct1]
        digit_char_dec [THEN conjunct2])
  moreover have "fmt_u k \<noteq> []" by (simp add: fmt_u_def)
  moreover have "length (fmt_u k) \<le> 3" using k by (intro length_fmt_u) auto
  ultimately show ?thesis using k by (auto simp: octet_def)
qed

end
