(* ===== verification/Wire.thy ===== *)
theory Wire
  imports Printf Checksum
begin

text \<open>
  The formats of \<^verbatim>\<open>msg.h\<close> and \<^verbatim>\<open>msg.c\<close>: identifiers, message and data headers, the
  payloads of control messages, the packet headers, and the file names made from identifiers.  A
  \<^verbatim>\<open>create\<close> function writes its structure into a buffer at an offset; a \<^verbatim>\<open>parse\<close> function reads
  one.  The constants of \<^verbatim>\<open>global.h\<close> are here too.
\<close>

subsection \<open>Constants\<close>

definition ETH_HLEN :: nat where [const_defs]: "ETH_HLEN = 14"
definition IP4_HDRLEN :: nat where [const_defs]: "IP4_HDRLEN = 20"
definition UDP_HDRLEN :: nat where [const_defs]: "UDP_HDRLEN = 8"
definition BCDID_LEN :: nat where [const_defs]: "BCDID_LEN = 24"
definition MSG_HDRLEN :: nat where [const_defs]: "MSG_HDRLEN = 48"
definition DATA_HDRLEN :: nat where [const_defs]: "DATA_HDRLEN = 32"
definition DATA_HDR_OFFSET :: nat where [const_defs]: "DATA_HDR_OFFSET = ETH_HLEN + IP4_HDRLEN + UDP_HDRLEN"
definition DATA_PAYLOAD_OFFSET :: nat where
  [const_defs]: "DATA_PAYLOAD_OFFSET = ETH_HLEN + IP4_HDRLEN + UDP_HDRLEN + DATA_HDRLEN"
definition APPID_LEN :: nat where [const_defs]: "APPID_LEN = 64"
definition IP_ADDR_LEN :: nat where [const_defs]: "IP_ADDR_LEN = 16"
definition FILENAME_LEN :: nat where [const_defs]: "FILENAME_LEN = 128"
definition BCDMETADATA_LEN :: nat where [const_defs]: "BCDMETADATA_LEN = 8 + APPID_LEN"
definition RECVBUF_LEN :: nat where [const_defs]: "RECVBUF_LEN = 16384"
definition INT32_MAX :: nat where [const_defs]: "INT32_MAX = 2147483647"
definition SEQNUM_MAX :: seqnum where [const_defs]: "SEQNUM_MAX = 2147483547"
definition BYTE_MAX :: databyte where [const_defs]: "BYTE_MAX = 2147482647"
definition DATA_SRC_PORT :: int where [const_defs]: "DATA_SRC_PORT = 0x6363"
definition DATA_DST_PORT :: int where [const_defs]: "DATA_DST_PORT = 0x6262"
definition IPPROTO_UDP :: u8 where [const_defs]: "IPPROTO_UDP = 17"
definition FDSTATE_DELETE_TIMEOUT_MSEC :: int where [const_defs]: "FDSTATE_DELETE_TIMEOUT_MSEC = 10 * 1000"
definition FAST_DONE_TIMEOUT_MSEC :: int where [const_defs]: "FAST_DONE_TIMEOUT_MSEC = 1000"
definition MASTER_EXECUTOR_ID :: int where [const_defs]: "MASTER_EXECUTOR_ID = -1"
definition MULTICAST_IP_PREFIX :: string where [const_defs]: "MULTICAST_IP_PREFIX = ''238.238.238.''"
definition BCD_DIR_PREFIX :: string where [const_defs]: "BCD_DIR_PREFIX = ''/mnt/ramdisk/''"

text \<open>Message types: between the threads, between the agents, and with the local applications.\<close>

definition MSG_NONTYPE :: msg_type where [const_defs]: "MSG_NONTYPE = 44"
definition MSG_N2C_SEQ_FIRST :: msg_type where [const_defs]: "MSG_N2C_SEQ_FIRST = 60"
definition MSG_N2C_SEQ_ZERO :: msg_type where [const_defs]: "MSG_N2C_SEQ_ZERO = 61"
definition MSG_N2C_SEQ_JUMP :: msg_type where [const_defs]: "MSG_N2C_SEQ_JUMP = 62"
definition MSG_N2C_SEQ_ALL :: msg_type where [const_defs]: "MSG_N2C_SEQ_ALL = 64"
definition MSG_I2C_PULL :: msg_type where [const_defs]: "MSG_I2C_PULL = 53"
definition MSG_C2I_SEQ_ZERO :: msg_type where [const_defs]: "MSG_C2I_SEQ_ZERO = 71"
definition MSG_C2I_PULL_REJECT :: msg_type where [const_defs]: "MSG_C2I_PULL_REJECT = 72"
definition MSG_C2I_SEQ_ALL :: msg_type where [const_defs]: "MSG_C2I_SEQ_ALL = 77"
definition MSG_C_SEND2I_SEQ_ALL :: msg_type where [const_defs]: "MSG_C_SEND2I_SEQ_ALL = 47"
definition MSG_FIRST_SEQ :: msg_type where [const_defs]: "MSG_FIRST_SEQ = 81"
definition MSG_PULL_REJECT :: msg_type where [const_defs]: "MSG_PULL_REJECT = 82"
definition MSG_PULL :: msg_type where [const_defs]: "MSG_PULL = 83"
definition MSG_PATCH_REQ :: msg_type where [const_defs]: "MSG_PATCH_REQ = 84"
definition MSG_PATCH_DATA :: msg_type where [const_defs]: "MSG_PATCH_DATA = 85"
definition MSG_FAST_DONE :: msg_type where [const_defs]: "MSG_FAST_DONE = 86"
definition MSG_ALL_DONE :: msg_type where [const_defs]: "MSG_ALL_DONE = 87"
definition MSG_INT_REQ :: msg_type where [const_defs]: "MSG_INT_REQ = 90"
definition MSG_INT_RPL :: msg_type where [const_defs]: "MSG_INT_RPL = 91"
definition MSG_WRT_REQ :: msg_type where [const_defs]: "MSG_WRT_REQ = 92"
definition MSG_WRT_RPL :: msg_type where [const_defs]: "MSG_WRT_RPL = 93"
definition MSG_PSH_REQ :: msg_type where [const_defs]: "MSG_PSH_REQ = 94"
definition MSG_PSH_RPL :: msg_type where [const_defs]: "MSG_PSH_RPL = 95"
definition MSG_READ_REQ :: msg_type where [const_defs]: "MSG_READ_REQ = 96"
definition MSG_READ_RPL :: msg_type where [const_defs]: "MSG_READ_RPL = 97"
definition MSG_DEL_REQ :: msg_type where [const_defs]: "MSG_DEL_REQ = 98"
definition MSG_DEL_RPL :: msg_type where [const_defs]: "MSG_DEL_RPL = 99"
definition REPLY_SUCCESS :: u32 where [const_defs]: "REPLY_SUCCESS = 50"
definition REPLY_FAIL :: u32 where [const_defs]: "REPLY_FAIL = 51"
definition REPLY_ALTER :: u32 where [const_defs]: "REPLY_ALTER = 52"

subsection \<open>Structures\<close>

record AppID =
  msb :: u64
  lsb :: u64

record BcdID =
  app_id :: AppID
  data_id :: u64

record DataHdr =
  dh_bcd_id :: BcdID
  seq_num :: seqnum
  dh_len :: bytes_t

record MsgHdr =
  mh_bcd_id :: BcdID
  mh_type :: msg_type
  mh_len :: bytes_t
  mh_tv :: timeval

record MsgIntQ =
  master_addr :: "byte list"
  executor_id :: int
  masterinaddr :: in_addr
  iq_app_id :: "byte list"

record MsgPshQ =
  fan_out :: int
  fan_out_effective :: int
  slaves :: "in_addr list"

record PatchTuple =
  stt_seq :: seqnum
  end_seq :: seqnum

record MsgReadRpl =
  rr_code :: u32
  rr_start :: databyte
  rr_jump :: databyte
  rr_file_size :: databyte

record BcdMetadata =
  bm_data_size :: databyte
  bm_app_id :: "byte list"

subsection \<open>Identifiers and headers\<close>

definition createBcdId :: "byte list \<Rightarrow> nat \<Rightarrow> BcdID \<Rightarrow> byte list" where
  "createBcdId buf at bid =
     (let buf = poke at (le_enc 8 (htobe64 (msb (app_id bid)))) buf;
          buf = poke (at + 8) (le_enc 8 (htobe64 (lsb (app_id bid)))) buf
      in poke (at + 16) (le_enc 8 (htobe64 (data_id bid))) buf)"

definition put_timeval :: "byte list \<Rightarrow> nat \<Rightarrow> timeval \<Rightarrow> byte list" where
  "put_timeval buf at tv =
     poke (at + 8) (le_enc 8 (word_of_int (tv_usec tv) :: u64))
       (poke at (le_enc 8 (word_of_int (tv_sec tv) :: u64)) buf)"

definition get_timeval :: "byte list \<Rightarrow> nat \<Rightarrow> timeval" where
  "get_timeval buf at =
     Timeval (sint (le_dec (peek at 8 buf) :: u64)) (sint (le_dec (peek (at + 8) 8 buf) :: u64))"

text \<open>The result of \<^verbatim>\<open>gettimeofday\<close> is the argument \<open>now\<close>.\<close>

definition createMsgHdr :: "byte list \<Rightarrow> BcdID \<Rightarrow> msg_type \<Rightarrow> bytes_t \<Rightarrow> timeval \<Rightarrow> byte list" where
  "createMsgHdr buf bid ty len now =
     (let buf = createBcdId buf 0 bid;
          buf = poke 24 (le_enc 4 (htonl ty)) buf;
          buf = poke 28 (le_enc 4 (htonl len)) buf
      in put_timeval buf 32 now)"

definition createDataHdr :: "byte list \<Rightarrow> nat \<Rightarrow> BcdID \<Rightarrow> seqnum \<Rightarrow> bytes_t \<Rightarrow> byte list" where
  "createDataHdr buf at bid seq len =
     (let buf = createBcdId buf at bid;
          buf = poke (at + 24) (le_enc 4 (htonl seq)) buf
      in poke (at + 28) (le_enc 4 (htonl len)) buf)"

definition parseBcdId :: "byte list \<Rightarrow> nat \<Rightarrow> BcdID" where
  "parseBcdId buf at = \<lparr>app_id = \<lparr>msb = be64toh (le_dec (peek at 8 buf)),
      lsb = be64toh (le_dec (peek (at + 8) 8 buf))\<rparr>,
    data_id = be64toh (le_dec (peek (at + 16) 8 buf))\<rparr>"

definition parseMsgHdr :: "byte list \<Rightarrow> MsgHdr" where
  "parseMsgHdr buf = \<lparr>mh_bcd_id = parseBcdId buf 0, mh_type = ntohl (le_dec (peek 24 4 buf)),
     mh_len = ntohl (le_dec (peek 28 4 buf)), mh_tv = get_timeval buf 32\<rparr>"

definition parseDataHdr :: "byte list \<Rightarrow> nat \<Rightarrow> DataHdr" where
  "parseDataHdr buf at = \<lparr>dh_bcd_id = parseBcdId buf at, seq_num = ntohl (le_dec (peek (at + 24) 4 buf)),
     dh_len = ntohl (le_dec (peek (at + 28) 4 buf))\<rparr>"

text \<open>\<^verbatim>\<open>createMsg\<close>: the header, with the length of message and padding, and the payload when there
  is one.  A payload length below the header's wraps around in the \<^verbatim>\<open>memcpy\<close> and leaves the buffer.\<close>

definition createMsg :: "byte list \<Rightarrow> BcdID \<Rightarrow> msg_type \<Rightarrow> byte list option \<Rightarrow> bytes_t \<Rightarrow> bytes_t
    \<Rightarrow> timeval \<Rightarrow> (byte list \<times> bytes_t) res" where
  "createMsg buf bid ty payload len padding now =
     (let buf = createMsgHdr buf bid ty (len + padding) now
      in case payload of None \<Rightarrow> Inr (buf, len)
         | Some p \<Rightarrow>
             (let n = (if unat len < MSG_HDRLEN then unat len + 2 ^ 64 - MSG_HDRLEN else unat len - MSG_HDRLEN)
              in if n \<le> length p \<and> MSG_HDRLEN + n \<le> length buf
                 then Inr (poke MSG_HDRLEN (take n p) buf, len) else Inl OutOfBounds))"

subsection \<open>Payloads\<close>

definition createMsgSeqFirst :: "seqnum \<Rightarrow> byte list" where
  "createMsgSeqFirst s = le_enc 4 (htonl s)"

definition parseMsgSeqFirst :: "byte list \<Rightarrow> seqnum" where
  "parseMsgSeqFirst buf = ntohl (le_dec (peek 0 4 buf))"

text \<open>A \<open>PatchTuple\<close> travels as it lies in the memory of the host.\<close>

definition patchTuple_bytes :: "PatchTuple \<Rightarrow> byte list" where
  "patchTuple_bytes p = le_enc 4 (stt_seq p) @ le_enc 4 (end_seq p)"

definition parseMsgPatchReq :: "byte list \<Rightarrow> PatchTuple" where
  "parseMsgPatchReq buf = \<lparr>stt_seq = le_dec (peek 0 4 buf), end_seq = le_dec (peek 4 4 buf)\<rparr>"

definition parse_patch_req_msg :: "byte list \<Rightarrow> PatchTuple" where
  "parse_patch_req_msg buf = \<lparr>stt_seq = le_dec (peek 0 4 buf), end_seq = le_dec (peek 4 4 buf)\<rparr>"

definition createBcdMetadata :: "byte list \<Rightarrow> nat \<Rightarrow> databyte \<Rightarrow> byte list \<Rightarrow> byte list" where
  "createBcdMetadata buf at sz app =
     poke (at + 8) (strncpy app APPID_LEN) (poke at (le_enc 8 (htobe64 (word_of_int sz))) buf)"

definition parseBcdMetadata :: "byte list \<Rightarrow> nat \<Rightarrow> BcdMetadata" where
  "parseBcdMetadata buf at = \<lparr>bm_data_size = sint (be64toh (le_dec (peek at 8 buf))),
     bm_app_id = strncpy (peek (at + 8) APPID_LEN buf) APPID_LEN\<rparr>"

definition parseMsgWrtQ :: "byte list \<Rightarrow> int" where
  "parseMsgWrtQ buf = sint (be64toh (le_dec (peek 0 8 buf)))"

text \<open>\<^verbatim>\<open>gethostbyname\<close> is the argument \<open>resolve\<close>; the code uses its result without a test.\<close>

definition parseMsgIntQ :: "(string \<Rightarrow> in_addr option) \<Rightarrow> byte list \<Rightarrow> MsgIntQ res" where
  "parseMsgIntQ resolve buf =
     (let addr = strncpy (peek 0 IP_ADDR_LEN buf) IP_ADDR_LEN
      in deref (resolve (c_string addr)) (\<lambda>a. Inr \<lparr>master_addr = addr,
           executor_id = to_s32 (ntohl (le_dec (peek 16 4 buf))), masterinaddr = a,
           iq_app_id = strncpy (peek 24 APPID_LEN buf) APPID_LEN\<rparr>))"

text \<open>The loop of \<^verbatim>\<open>parseMsgPshQ\<close> over the host names, 16 bytes each from offset 8: a host whose
  address is the agent's own is skipped.\<close>

primrec pshQ_loop :: "(string \<Rightarrow> in_addr option) \<Rightarrow> in_addr \<Rightarrow> byte list \<Rightarrow> nat list \<Rightarrow> in_addr list
    \<Rightarrow> in_addr list res" where
  "pshQ_loop resolve self buf [] acc = Inr acc"
| "pshQ_loop resolve self buf (i # is) acc =
     deref (resolve (c_string (drop (8 + i * IP_ADDR_LEN) buf))) (\<lambda>a.
       if a = self then pshQ_loop resolve self buf is acc
       else pshQ_loop resolve self buf is (acc @ [a]))"

definition parseMsgPshQ :: "(string \<Rightarrow> in_addr option) \<Rightarrow> in_addr \<Rightarrow> byte list \<Rightarrow> MsgPshQ res" where
  "parseMsgPshQ resolve self buf =
     (let fo = to_s32 (ucast (be64toh (le_dec (peek 0 8 buf))))
      in rbind (pshQ_loop resolve self buf [0..<nat fo] []) (\<lambda>ss.
           Inr \<lparr>fan_out = fo, fan_out_effective = int (length ss), slaves = ss\<rparr>))"

subsection \<open>Packet headers\<close>

text \<open>\<^verbatim>\<open>initIPHeader\<close> on the 20 bytes of the header; the destination is the multicast group named
  after the last octet of the source.\<close>

definition initIPHeader :: "byte list \<Rightarrow> in_addr \<Rightarrow> u8 \<Rightarrow> byte list res" where
  "initIPHeader hdr src proto =
     (let hdr = hdr[0 := push_bit 4 4 OR 5];
          hdr = hdr[1 := 0];
          hdr = poke 2 (le_enc 2 (htons 0)) hdr;
          hdr = poke 4 (le_enc 2 (htons 0)) hdr;
          hdr = poke 6 (le_enc 2 (htons 0)) hdr;
          hdr = hdr[8 := 255];
          hdr = hdr[9 := proto];
          hdr = poke 12 (le_enc 4 src) hdr;
          suffix = ucast (drop_bit (3 * 8) src) :: u8
      in case inet_pton (MULTICAST_IP_PREFIX @ fmt_u (unat suffix)) of
           None \<Rightarrow> Inl Exited
         | Some d \<Rightarrow> Inr (poke 10 (le_enc 2 (0 :: u16)) (poke 16 (le_enc 4 d) hdr)))"

definition initUDPHeader :: "byte list \<Rightarrow> nat \<Rightarrow> int \<Rightarrow> int \<Rightarrow> byte list" where
  "initUDPHeader buf at source dest =
     (let buf = poke at (le_enc 2 (htons (word_of_int source))) buf;
          buf = poke (at + 2) (le_enc 2 (htons (word_of_int dest))) buf;
          buf = poke (at + 4) (le_enc 2 (htons 0)) buf
      in poke (at + 6) (le_enc 2 (0 :: u16)) buf)"

subsection \<open>Data from a file\<close>

text \<open>\<^verbatim>\<open>fread\<close> of single bytes: what is left of the file, and the new position.\<close>

definition fread :: "byte list \<Rightarrow> nat \<Rightarrow> nat \<Rightarrow> byte list \<times> nat" where
  "fread file pos len = (let bs = take len (drop pos file) in (bs, pos + length bs))"

text \<open>\<^verbatim>\<open>createDataFromFile\<close>: the header and the next bytes of the file, from its start when the file
  is at its end.  It returns the length, and the new file position.\<close>

definition createDataFromFile :: "byte list \<Rightarrow> nat \<Rightarrow> BcdID \<Rightarrow> seqnum \<Rightarrow> bytes_t \<Rightarrow> byte list \<Rightarrow> nat
    \<Rightarrow> byte list \<times> nat \<times> bytes_t" where
  "createDataFromFile buf at bid seq len file pos =
     (let buf = createDataHdr buf at bid seq len;
          (bs, pos) = fread file pos (unat len);
          buf = poke (at + DATA_HDRLEN) bs buf
      in if bs = [] then
           (let (bs, pos) = fread file 0 (unat len)
            in (poke (at + DATA_HDRLEN) bs buf, pos, of_nat DATA_HDRLEN + len))
         else (buf, pos, of_nat DATA_HDRLEN + len))"

subsection \<open>Names\<close>

definition BcdIdtoFilename :: "BcdID \<Rightarrow> string" where
  "BcdIdtoFilename bid = BCD_DIR_PREFIX @ ''broadcast-''
     @ fmt_lx 8 (unat (drop_bit 32 (msb (app_id bid) AND 0xffffffff00000000))) @ ''-''
     @ fmt_lx 4 (unat (drop_bit 16 (msb (app_id bid) AND 0x00000000ffff0000))) @ ''-''
     @ fmt_lx 4 (unat (msb (app_id bid) AND 0x000000000000ffff)) @ ''-''
     @ fmt_lx 4 (unat (drop_bit 48 (lsb (app_id bid) AND 0xffff000000000000))) @ ''-''
     @ fmt_lx 12 (unat (lsb (app_id bid) AND 0x0000ffffffffffff))
     @ ''/broadcast_'' @ fmt_ld (sint (data_id bid))"

definition BcdId2str :: "BcdID \<Rightarrow> string" where
  "BcdId2str bid = ''bcdid[appid[msb['' @ fmt_lx 16 (unat (msb (app_id bid))) @ '']lsb[''
     @ fmt_lx 16 (unat (lsb (app_id bid))) @ '']]dataid['' @ fmt_ld (sint (data_id bid)) @ '']]''"

definition AppIdtoDir :: "AppID \<Rightarrow> string" where
  "AppIdtoDir a = BCD_DIR_PREFIX @ ''broadcast-''
     @ fmt_lx 8 (unat (drop_bit 32 (msb a AND 0xffffffff00000000))) @ ''-''
     @ fmt_lx 4 (unat (drop_bit 16 (msb a AND 0x00000000ffff0000))) @ ''-''
     @ fmt_lx 4 (unat (msb a AND 0x000000000000ffff)) @ ''-''
     @ fmt_lx 4 (unat (drop_bit 48 (lsb a AND 0xffff000000000000))) @ ''-''
     @ fmt_lx 12 (unat (lsb a AND 0x0000ffffffffffff)) @ ''/''"

text \<open>Directories: the set of those that exist.  \<^verbatim>\<open>mkdir\<close> may fail, which is only logged.\<close>

definition createDir :: "bool \<Rightarrow> string set \<Rightarrow> string \<Rightarrow> string set" where
  "createDir mkdir_ok dirs d = (if d \<in> dirs then dirs else if mkdir_ok then insert d dirs else dirs)"

definition deleteDir :: "string set \<Rightarrow> string \<Rightarrow> string set" where
  "deleteDir dirs d = (if d \<in> dirs then {e \<in> dirs. take (length d) e \<noteq> d} else dirs)"

definition existAppDir :: "string set \<Rightarrow> AppID \<Rightarrow> bool" where
  "existAppDir dirs a = (AppIdtoDir a \<in> dirs)"

subsection \<open>Images of the structures\<close>

text \<open>The bytes that the \<^verbatim>\<open>create\<close> functions leave in memory.\<close>

definition enc_BcdID :: "BcdID \<Rightarrow> byte list" where
  "enc_BcdID bid = rev (le_enc 8 (msb (app_id bid))) @ rev (le_enc 8 (lsb (app_id bid)))
     @ rev (le_enc 8 (data_id bid))"

definition enc_DataHdr :: "DataHdr \<Rightarrow> byte list" where
  "enc_DataHdr d = enc_BcdID (dh_bcd_id d) @ rev (le_enc 4 (seq_num d)) @ rev (le_enc 4 (dh_len d))"

definition enc_MsgHdr :: "MsgHdr \<Rightarrow> byte list" where
  "enc_MsgHdr m = enc_BcdID (mh_bcd_id m) @ rev (le_enc 4 (mh_type m)) @ rev (le_enc 4 (mh_len m))
     @ le_enc 8 (word_of_int (tv_sec (mh_tv m)) :: u64) @ le_enc 8 (word_of_int (tv_usec (mh_tv m)) :: u64)"

lemma length_enc [simp]:
  "length (enc_BcdID bid) = 24" "length (enc_DataHdr d) = 32" "length (enc_MsgHdr m) = 48"
  by (simp_all add: enc_BcdID_def enc_DataHdr_def enc_MsgHdr_def)

lemma poke_poke_adj:
  "at + length a + length b \<le> length buf \<Longrightarrow> k = at + length a \<Longrightarrow>
     poke k b (poke at a buf) = poke at (a @ b) buf"
  by (simp add: poke_def ac_simps)

lemma createBcdId_eq:
  "at + 24 \<le> length buf \<Longrightarrow> createBcdId buf at bid = poke at (enc_BcdID bid) buf"
  by (simp add: createBcdId_def Let_def enc_BcdID_def poke_poke_adj)

lemma createDataHdr_eq:
  "at + 32 \<le> length buf \<Longrightarrow>
     createDataHdr buf at bid seq len = poke at (enc_DataHdr \<lparr>dh_bcd_id = bid, seq_num = seq, dh_len = len\<rparr>) buf"
  by (simp add: createDataHdr_def Let_def enc_DataHdr_def createBcdId_eq poke_poke_adj)

lemma createMsgHdr_eq:
  "48 \<le> length buf \<Longrightarrow>
     createMsgHdr buf bid ty len now
       = poke 0 (enc_MsgHdr \<lparr>mh_bcd_id = bid, mh_type = ty, mh_len = len, mh_tv = now\<rparr>) buf"
  by (simp add: createMsgHdr_def Let_def enc_MsgHdr_def createBcdId_eq put_timeval_def poke_poke_adj)

text \<open>Reading a field of an image: peel off what is before it.\<close>

lemma peek_skip: "length a \<le> off \<Longrightarrow> peek off n (a @ b) = peek (off - length a) n b"
  by (simp add: peek_def)

lemma peek_hd: "length a = n \<Longrightarrow> peek 0 n (a @ b) = a" "length a = n \<Longrightarrow> peek 0 n a = a"
  by (simp_all add: peek_def)

lemma peek_peek: "k + n \<le> m \<Longrightarrow> peek (at + k) n buf = peek k n (peek at m buf)"
  by (simp add: peek_def drop_take min_def add.commute)

lemma le_dec_rev: "le_dec (rev (le_enc 8 w)) = htobe64 w" "le_dec (rev (le_enc 4 v)) = htonl v"
  by (simp_all add: htobe64_def htonl_def)

lemma parseBcdId_enc:
  assumes "peek at 24 buf = enc_BcdID bid"
  shows "parseBcdId buf at = bid"
  using peek_peek [of 0 8 24 at buf] peek_peek [of 8 8 24 at buf] peek_peek [of 16 8 24 at buf]
  by (simp add: parseBcdId_def assms) (simp add: enc_BcdID_def peek_skip peek_hd le_dec_rev)

lemma parseDataHdr_enc:
  assumes "peek at 32 buf = enc_DataHdr d"
  shows "parseDataHdr buf at = d"
proof -
  have "peek at 24 buf = enc_BcdID (dh_bcd_id d)"
    using peek_peek [of 0 24 32 at buf] assms by (simp add: enc_DataHdr_def peek_hd)
  then have "parseBcdId buf at = dh_bcd_id d" by (rule parseBcdId_enc)
  moreover have "le_dec (peek (at + 24) 4 buf) = htonl (seq_num d)"
    "le_dec (peek (at + 28) 4 buf) = htonl (dh_len d)"
    using peek_peek [of 24 4 32 at buf] peek_peek [of 28 4 32 at buf] assms
    by (simp_all add: enc_DataHdr_def peek_skip peek_hd le_dec_rev)
  ultimately show ?thesis by (simp add: parseDataHdr_def)
qed

definition tv_ok :: "timeval \<Rightarrow> bool" where
  "tv_ok t \<longleftrightarrow> - (2 ^ 63) \<le> tv_sec t \<and> tv_sec t < 2 ^ 63 \<and> - (2 ^ 63) \<le> tv_usec t \<and> tv_usec t < 2 ^ 63"

lemma sint_word_of_int_s64: "- (2 ^ 63) \<le> i \<Longrightarrow> i < 2 ^ 63 \<Longrightarrow> sint (word_of_int i :: u64) = i"
  by (simp add: sint_sbintrunc' signed_take_bit_int_eq_self)

lemma parseMsgHdr_enc:
  assumes "peek 0 48 buf = enc_MsgHdr m" and "tv_ok (mh_tv m)"
  shows "parseMsgHdr buf = m"
proof -
  have "peek 0 24 buf = enc_BcdID (mh_bcd_id m)"
    using peek_peek [of 0 24 48 0 buf] assms by (simp add: enc_MsgHdr_def peek_hd)
  then have "parseBcdId buf 0 = mh_bcd_id m" by (rule parseBcdId_enc)
  moreover have "le_dec (peek 24 4 buf) = htonl (mh_type m)"
    "le_dec (peek 28 4 buf) = htonl (mh_len m)"
    "le_dec (peek 32 8 buf) = (word_of_int (tv_sec (mh_tv m)) :: u64)"
    "le_dec (peek 40 8 buf) = (word_of_int (tv_usec (mh_tv m)) :: u64)"
    using peek_peek [of 24 4 48 0 buf] peek_peek [of 28 4 48 0 buf] peek_peek [of 32 8 48 0 buf]
      peek_peek [of 40 8 48 0 buf] assms(1)
    by (simp_all add: enc_MsgHdr_def peek_skip peek_hd le_dec_rev)
  ultimately show ?thesis
    using assms(2)
    by (simp add: parseMsgHdr_def get_timeval_def tv_ok_def sint_word_of_int_s64)
qed

text \<open>What a message on the wire is: its header and its payload.\<close>

lemma createMsg_bytes:
  assumes "48 \<le> unat len" "unat len \<le> length buf" "unat len - 48 \<le> length p"
  shows "createMsg buf bid ty (Some p) len padding now
    = Inr (poke 0 (enc_MsgHdr \<lparr>mh_bcd_id = bid, mh_type = ty, mh_len = len + padding, mh_tv = now\<rparr>
        @ take (unat len - 48) p) buf, len)"
proof -
  let ?h = "enc_MsgHdr \<lparr>mh_bcd_id = bid, mh_type = ty, mh_len = len + padding, mh_tv = now\<rparr>"
  have "poke 48 (take (unat len - 48) p) (poke 0 ?h buf) = poke 0 (?h @ take (unat len - 48) p) buf"
    using assms by (intro poke_poke_adj) auto
  with assms show ?thesis
    by (simp add: createMsg_def Let_def createMsgHdr_eq MSG_HDRLEN_def)
qed

lemma c_string_strncpy: "length (takeWhile (\<lambda>b. b \<noteq> 0) app) \<le> n \<Longrightarrow> c_string (strncpy app n) = c_string app"
  by (simp add: c_string_def takeWhile_strncpy)

definition enc_BcdMetadata :: "databyte \<Rightarrow> byte list \<Rightarrow> byte list" where
  "enc_BcdMetadata sz app = rev (le_enc 8 (word_of_int sz :: u64)) @ strncpy app 64"

lemma length_enc_BcdMetadata [simp]: "length (enc_BcdMetadata sz app) = 72"
  by (simp add: enc_BcdMetadata_def)

lemma createBcdMetadata_eq:
  "at + 72 \<le> length buf \<Longrightarrow> createBcdMetadata buf at sz app = poke at (enc_BcdMetadata sz app) buf"
  by (simp add: createBcdMetadata_def APPID_LEN_def enc_BcdMetadata_def poke_poke_adj)

lemma parseBcdMetadata_enc:
  assumes "peek at 72 buf = enc_BcdMetadata sz app" and "0 \<le> sz" and "sz < 2 ^ 63"
  shows "parseBcdMetadata buf at = \<lparr>bm_data_size = sz, bm_app_id = strncpy app 64\<rparr>"
proof -
  have "peek at 8 buf = rev (le_enc 8 (word_of_int sz :: u64))" "peek (at + 8) 64 buf = strncpy app 64"
    using peek_peek [of 0 8 72 at buf] peek_peek [of 8 64 72 at buf] assms(1)
    by (simp_all add: enc_BcdMetadata_def peek_skip peek_hd)
  then show ?thesis
    using assms(2,3) by (simp add: parseBcdMetadata_def APPID_LEN_def le_dec_rev sint_word_of_int_s64)
qed

text \<open>The data part of a packet as a sender builds it: part \<open>s\<close> of the data \<open>xs\<close>, with the metadata behind
  part 0.\<close>

definition packet_of :: "BcdID \<Rightarrow> byte list \<Rightarrow> byte list \<Rightarrow> nat \<Rightarrow> nat \<Rightarrow> byte list" where
  "packet_of bid app xs P s = enc_DataHdr \<lparr>dh_bcd_id = bid, seq_num = of_nat s, dh_len = of_nat (length (chunk P xs s))\<rparr>
     @ chunk P xs s @ (if s = 0 then enc_BcdMetadata (int (length xs)) app else [])"

subsection \<open>Properties: headers and payloads\<close>

text \<open>C14: A message header written by \<^verbatim>\<open>createMsgHdr\<close> is read back by \<^verbatim>\<open>parseMsgHdr\<close> field by field,
  and the rest of the buffer is not touched.\<close>

theorem msgHdr_roundtrip:
  assumes "48 \<le> length buf" and "tv_ok now"
  shows "parseMsgHdr (createMsgHdr buf bid ty len now)
      = \<lparr>mh_bcd_id = bid, mh_type = ty, mh_len = len, mh_tv = now\<rparr>
    \<and> drop 48 (createMsgHdr buf bid ty len now) = drop 48 buf
    \<and> length (createMsgHdr buf bid ty len now) = length buf"
proof -
  let ?m = "\<lparr>mh_bcd_id = bid, mh_type = ty, mh_len = len, mh_tv = now\<rparr>"
  have "parseMsgHdr (poke 0 (enc_MsgHdr ?m) buf) = ?m"
    using assms by (intro parseMsgHdr_enc) auto
  moreover have "drop 48 (poke 0 (enc_MsgHdr ?m) buf) = drop 48 buf"
    using assms by (simp add: poke_def)
  ultimately show ?thesis using assms by (simp add: createMsgHdr_eq)
qed

theorem msgHdr_roundtrip_witness:
  "mh_len (parseMsgHdr (createMsgHdr (replicate 50 7) \<lparr>app_id = \<lparr>msb = 1, lsb = 2\<rparr>, data_id = 3\<rparr>
     MSG_PULL 48 (Timeval 1500000000 999999))) = 48"
  using msgHdr_roundtrip [of "replicate 50 7" "Timeval 1500000000 999999"
      "\<lparr>app_id = \<lparr>msb = 1, lsb = 2\<rparr>, data_id = 3\<rparr>" MSG_PULL 48]
  by (simp add: tv_ok_def)

text \<open>C15: A data header written by \<^verbatim>\<open>createDataHdr\<close> anywhere in a packet is read back by
  \<^verbatim>\<open>parseDataHdr\<close>; the bytes before and after it are not touched.\<close>

theorem dataHdr_roundtrip:
  assumes "at + 32 \<le> length buf"
  shows "parseDataHdr (createDataHdr buf at bid seq len) at
      = \<lparr>dh_bcd_id = bid, seq_num = seq, dh_len = len\<rparr>
    \<and> take at (createDataHdr buf at bid seq len) = take at buf
    \<and> drop (at + 32) (createDataHdr buf at bid seq len) = drop (at + 32) buf"
proof -
  let ?d = "\<lparr>dh_bcd_id = bid, seq_num = seq, dh_len = len\<rparr>"
  have "parseDataHdr (poke at (enc_DataHdr ?d) buf) at = ?d"
    using assms by (intro parseDataHdr_enc) auto
  moreover have "drop (at + 32) (poke at (enc_DataHdr ?d) buf) = drop (at + 32) buf"
    using assms by (simp add: poke_def)
  ultimately show ?thesis using assms by (simp add: createDataHdr_eq)
qed

theorem dataHdr_roundtrip_witness:
  "seq_num (parseDataHdr (createDataHdr (replicate 100 0) 42
     \<lparr>app_id = \<lparr>msb = 1, lsb = 2\<rparr>, data_id = 3\<rparr> 77 8692) 42) = 77"
  using dataHdr_roundtrip [of 42 "replicate 100 0" "\<lparr>app_id = \<lparr>msb = 1, lsb = 2\<rparr>, data_id = 3\<rparr>" 77 8692]
  by simp

text \<open>C16: \<^verbatim>\<open>createMsg\<close> with a payload stays inside its buffer whenever the length counts at least the
  header and the buffer and the payload are as long as it says; the bytes of the message are then a
  header that announces length plus padding, and the payload.  When the length is below the header's
  the copy runs out of the buffer.\<close>

theorem createMsg_layout:
  assumes "unat len \<le> length buf" and "length buf < 2 ^ 63" and "unat len - 48 \<le> length p"
  shows "(48 \<le> unat len \<longrightarrow>
      (\<exists>out. createMsg buf bid ty (Some p) len padding now = Inr (out, len)
         \<and> peek 0 48 out = enc_MsgHdr \<lparr>mh_bcd_id = bid, mh_type = ty, mh_len = len + padding, mh_tv = now\<rparr>
         \<and> peek 48 (unat len - 48) out = take (unat len - 48) p))
    \<and> (unat len < 48 \<longrightarrow> createMsg buf bid ty (Some p) len padding now = Inl OutOfBounds)"
proof (intro conjI impI)
  let ?h = "enc_MsgHdr \<lparr>mh_bcd_id = bid, mh_type = ty, mh_len = len + padding, mh_tv = now\<rparr>"
  assume l: "48 \<le> unat len"
  let ?out = "poke 0 (?h @ take (unat len - 48) p) buf"
  have "peek 0 48 ?out = ?h" "peek 48 (unat len - 48) ?out = take (unat len - 48) p"
    using assms l by (simp_all add: poke_def peek_def)
  then show "\<exists>out. createMsg buf bid ty (Some p) len padding now = Inr (out, len)
      \<and> peek 0 48 out = ?h \<and> peek 48 (unat len - 48) out = take (unat len - 48) p"
    using createMsg_bytes [OF l assms(1,3), of bid ty padding now] by blast
next
  assume l: "unat len < 48"
  have le: "length (createMsgHdr buf bid ty (len + padding) now) < 2 ^ 63 + 48"
    using assms(2)
    by (auto simp: createMsgHdr_def createBcdId_def put_timeval_def Let_def poke_def)
  have "length (createMsgHdr buf bid ty (len + padding) now) < MSG_HDRLEN + (unat len + 2 ^ 64 - MSG_HDRLEN)"
    using le by (simp add: MSG_HDRLEN_def)
  with l show "createMsg buf bid ty (Some p) len padding now = Inl OutOfBounds"
    by (simp add: createMsg_def Let_def MSG_HDRLEN_def)
qed

theorem createMsg_layout_witness:
  "createMsg (replicate 60 0) \<lparr>app_id = \<lparr>msb = 1, lsb = 2\<rparr>, data_id = 3\<rparr> MSG_FIRST_SEQ (Some [1, 2, 3, 4]) 12 0
     (Timeval 0 0) = Inl OutOfBounds \<and>
   (\<exists>out. createMsg (replicate 60 0) \<lparr>app_id = \<lparr>msb = 1, lsb = 2\<rparr>, data_id = 3\<rparr> MSG_FIRST_SEQ (Some [1, 2, 3, 4])
     52 0 (Timeval 0 0) = Inr (out, 52) \<and> peek 48 4 out = [1, 2, 3, 4])"
  using createMsg_layout [of 12 "replicate 60 0" "[1, 2, 3, 4]" "\<lparr>app_id = \<lparr>msb = 1, lsb = 2\<rparr>, data_id = 3\<rparr>"
      MSG_FIRST_SEQ 0 "Timeval 0 0"]
    createMsg_layout [of 52 "replicate 60 0" "[1, 2, 3, 4]" "\<lparr>app_id = \<lparr>msb = 1, lsb = 2\<rparr>, data_id = 3\<rparr>"
      MSG_FIRST_SEQ 0 "Timeval 0 0"]
  by simp blast

text \<open>C17: The metadata block that a sender puts at the end of the first packet is read back by the
  receiver: the size, and the application name when it fits its 64 bytes.\<close>

theorem metadata_roundtrip:
  assumes "at + 72 \<le> length buf" and "0 \<le> sz" and "sz < 2 ^ 63"
  shows "bm_data_size (parseBcdMetadata (createBcdMetadata buf at sz app) at) = sz
    \<and> (length (takeWhile (\<lambda>b. b \<noteq> 0) app) \<le> 64 \<longrightarrow>
        c_string (bm_app_id (parseBcdMetadata (createBcdMetadata buf at sz app) at)) = c_string app)"
proof -
  let ?s = "le_enc 8 (htobe64 (word_of_int sz))"
  have e: "createBcdMetadata buf at sz app = poke at (?s @ strncpy app 64) buf"
    using assms by (simp add: createBcdMetadata_def APPID_LEN_def poke_poke_adj del: le_enc_htobe64)
  have p: "peek at 72 (poke at (?s @ strncpy app 64) buf) = ?s @ strncpy app 64"
    using assms by simp
  have "peek at 8 (poke at (?s @ strncpy app 64) buf) = ?s"
    "peek (at + 8) 64 (poke at (?s @ strncpy app 64) buf) = strncpy app 64"
    using peek_peek [of 0 8 72 at "poke at (?s @ strncpy app 64) buf"]
      peek_peek [of 8 64 72 at "poke at (?s @ strncpy app 64) buf"]
    unfolding p by (simp_all add: peek_skip peek_hd)
  then show ?thesis
    using assms(2,3)
    by (simp add: e parseBcdMetadata_def APPID_LEN_def c_string_strncpy sint_word_of_int_s64
        del: le_enc_htobe64)
qed

theorem metadata_roundtrip_witness:
  "bm_data_size (parseBcdMetadata (createBcdMetadata (replicate 80 9) 4 5000000000 (char_bytes ''app-7'')) 4)
     = 5000000000"
  using metadata_roundtrip [of 4 "replicate 80 9" 5000000000 "char_bytes ''app-7''"] by simp

subsection \<open>Properties: names\<close>

lemma append_sep_eq:
  "c \<notin> set s \<Longrightarrow> c \<notin> set t \<Longrightarrow> s @ c # x = t @ c # y \<longleftrightarrow> s = t \<and> x = y"
proof (induction s arbitrary: t)
  case Nil
  then show ?case by (cases t) auto
next
  case (Cons a s)
  then show ?case by (cases t) auto
qed

lemma dash_fields:
  "fmt_lx w a @ CHR ''-'' # x = fmt_lx w b @ CHR ''-'' # y \<longleftrightarrow> a = b \<and> x = y"
  using fmt_lx_chars [of "CHR ''-''" w a] fmt_lx_chars [of "CHR ''-''" w b]
  by (subst append_sep_eq) (auto simp: fmt_lx_inj)

lemma slash_fields:
  "fmt_lx w a @ CHR ''/'' # x = fmt_lx w b @ CHR ''/'' # y \<longleftrightarrow> a = b \<and> x = y"
  using fmt_lx_chars [of "CHR ''/''" w a] fmt_lx_chars [of "CHR ''/''" w b]
  by (subst append_sep_eq) (auto simp: fmt_lx_inj)

lemma field_masks:
  "(0xffffffff00000000 :: u64) = push_bit 32 (mask 32)"
  "(0x00000000ffff0000 :: u64) = push_bit 16 (mask 16)"
  "(0x000000000000ffff :: u64) = mask 16"
  "(0xffff000000000000 :: u64) = push_bit 48 (mask 16)"
  "(0x0000ffffffffffff :: u64) = mask 48"
  by (simp_all add: push_bit_eq_mult mask_eq_exp_minus_1)

lemma msb_fields:
  fixes a b :: u64
  assumes "drop_bit 32 (a AND 0xffffffff00000000) = drop_bit 32 (b AND 0xffffffff00000000)"
    and "drop_bit 16 (a AND 0x00000000ffff0000) = drop_bit 16 (b AND 0x00000000ffff0000)"
    and "a AND 0x000000000000ffff = b AND 0x000000000000ffff"
  shows "a = b"
proof (rule bit_word_eqI)
  fix n assume n: "n < LENGTH(64)"
  have f: "bit (drop_bit 32 (a AND 0xffffffff00000000)) (n - 32) = bit (drop_bit 32 (b AND 0xffffffff00000000)) (n - 32)"
    "bit (drop_bit 16 (a AND 0x00000000ffff0000)) (n - 16) = bit (drop_bit 16 (b AND 0x00000000ffff0000)) (n - 16)"
    "bit (a AND 0x000000000000ffff) n = bit (b AND 0x000000000000ffff) n"
    by (simp_all only: assms)
  consider "n < 16" | "16 \<le> n" "n < 32" | "32 \<le> n" by linarith
  then show "bit a n = bit b n"
    using f n unfolding field_masks
    by cases (auto simp: bit_and_iff bit_push_bit_iff bit_drop_bit_eq bit_mask_iff)
qed

lemma lsb_fields:
  fixes a b :: u64
  assumes "drop_bit 48 (a AND 0xffff000000000000) = drop_bit 48 (b AND 0xffff000000000000)"
    and "a AND 0x0000ffffffffffff = b AND 0x0000ffffffffffff"
  shows "a = b"
proof (rule bit_word_eqI)
  fix n assume n: "n < LENGTH(64)"
  have f: "bit (drop_bit 48 (a AND 0xffff000000000000)) (n - 48) = bit (drop_bit 48 (b AND 0xffff000000000000)) (n - 48)"
    "bit (a AND 0x0000ffffffffffff) n = bit (b AND 0x0000ffffffffffff) n"
    by (simp_all only: assms)
  consider "n < 48" | "48 \<le> n" by linarith
  then show "bit a n = bit b n"
    using f n unfolding field_masks
    by cases (auto simp: bit_and_iff bit_push_bit_iff bit_drop_bit_eq bit_mask_iff)
qed

lemma unat_u64_eq: "unat (x :: u64) = unat y \<longleftrightarrow> x = y"
  by (auto dest: word_unat_eq_iff [THEN iffD2])

text \<open>How long the fields can be.\<close>

lemma fmt_lx_len_le: "length (fmt_lx w (unat x)) \<le> max w 16" for x :: u64
proof -
  have "unat x < 16 ^ 16" using unsigned_less [of x] by simp
  then show ?thesis using length_digits [of 16 "unat x" 16] by (simp add: fmt_lx_def Let_def)
qed

lemma unat_drop_and_lt:
  assumes "\<And>n. n < 64 \<Longrightarrow> bit m (n + k) \<Longrightarrow> n < j" "j \<le> 64"
  shows "unat (drop_bit k (x AND m) :: u64) < 2 ^ j"
proof -
  have "drop_bit k (x AND m) = take_bit j (drop_bit k (x AND m))"
    by (rule bit_word_eqI)
      (use assms in \<open>auto simp: bit_take_bit_iff bit_drop_bit_eq bit_and_iff add.commute\<close>)
  then have "unat (drop_bit k (x AND m)) = unat (drop_bit k (x AND m)) mod 2 ^ j"
    by (metis unsigned_take_bit_eq take_bit_eq_mod)
  then show ?thesis by (metis mod_less_divisor zero_less_power zero_less_numeral)
qed

lemma unat_field_lt:
  "unat (drop_bit 32 (x AND 0xffffffff00000000) :: u64) < 16 ^ 8"
  "unat (drop_bit 16 (x AND 0x00000000ffff0000) :: u64) < 16 ^ 4"
  "unat (x AND 0x000000000000ffff :: u64) < 16 ^ 4"
  "unat (drop_bit 48 (x AND 0xffff000000000000) :: u64) < 16 ^ 4"
  "unat (x AND 0x0000ffffffffffff :: u64) < 16 ^ 12"
  using unat_drop_and_lt [of "push_bit 32 (mask 32)" 32 32 x]
    unat_drop_and_lt [of "push_bit 16 (mask 16)" 16 16 x]
    unat_drop_and_lt [of "mask 16" 0 16 x]
    unat_drop_and_lt [of "push_bit 48 (mask 16)" 48 16 x]
    unat_drop_and_lt [of "mask 48" 0 48 x]
  unfolding field_masks
  by (simp_all add: bit_push_bit_iff bit_mask_iff)

lemma length_fields:
  fixes x :: u64
  shows "length (fmt_lx 8 (unat (drop_bit 32 (x AND 0xffffffff00000000)))) = 8"
    "length (fmt_lx 4 (unat (drop_bit 16 (x AND 0x00000000ffff0000)))) = 4"
    "length (fmt_lx 4 (unat (x AND 0x000000000000ffff))) = 4"
    "length (fmt_lx 4 (unat (drop_bit 48 (x AND 0xffff000000000000)))) = 4"
    "length (fmt_lx 12 (unat (x AND 0x0000ffffffffffff))) = 12"
  by (rule length_fmt_lx [OF unat_field_lt(1)] length_fmt_lx [OF unat_field_lt(2)]
      length_fmt_lx [OF unat_field_lt(3)] length_fmt_lx [OF unat_field_lt(4)]
      length_fmt_lx [OF unat_field_lt(5)], simp)+

lemma length_fmt_ld_s64: "length (fmt_ld (sint (x :: u64))) \<le> 20"
proof -
  have "- (2 ^ 63) \<le> sint x" "sint x < 2 ^ 63"
    using sint_greater_eq [of x] sint_less [of x] by simp_all
  then have "nat (- sint x) < 10 ^ 19" "nat (sint x) < 10 ^ 19" by auto
  from this [THEN length_fmt_u] show ?thesis by (simp add: fmt_ld_def)
qed

text \<open>C18: Different broadcasts have different files: \<^verbatim>\<open>BcdIdtoFilename\<close> is injective, and the name
  and its terminator always fit the \<^verbatim>\<open>FILENAME_LEN\<close> bytes that every caller gives it.\<close>

theorem filename_injective_fits:
  "(BcdIdtoFilename a = BcdIdtoFilename b \<longleftrightarrow> a = b) \<and> length (BcdIdtoFilename a) < FILENAME_LEN"
proof
  show "BcdIdtoFilename a = BcdIdtoFilename b \<longleftrightarrow> a = b"
  proof
    assume "BcdIdtoFilename a = BcdIdtoFilename b"
    then have "msb (app_id a) = msb (app_id b) \<and> lsb (app_id a) = lsb (app_id b)
      \<and> sint (data_id a) = sint (data_id b)"
      by (auto simp: BcdIdtoFilename_def dash_fields slash_fields fmt_ld_inj unat_u64_eq
          intro: msb_fields lsb_fields)
    then show "a = b"
      by (intro BcdID.equality AppID.equality) (auto intro: signed_word_eqI)
  qed simp
  show "length (BcdIdtoFilename a) < FILENAME_LEN"
    unfolding BcdIdtoFilename_def length_append length_fields
    using length_fmt_ld_s64 [of "data_id a"] by (simp add: FILENAME_LEN_def BCD_DIR_PREFIX_def)
qed

lemma digit_free_dot: "CHR ''.'' \<notin> set (fmt_u n)"
  using fmt_u_chars by blast

lemma inet_pton_multicast:
  "k \<le> 255 \<Longrightarrow> inet_pton (MULTICAST_IP_PREFIX @ fmt_u k) = Some (le_dec [238, 238, 238, of_nat k])"
proof -
  assume k: "k \<le> 255"
  have o: "octet ''238'' = Some 238" by code_simp
  have "split_on CHR ''.'' (MULTICAST_IP_PREFIX @ fmt_u k) = [''238'', ''238'', ''238'', fmt_u k]"
    by (simp add: MULTICAST_IP_PREFIX_def split_on_last digit_free_dot)
  then show ?thesis by (simp add: inet_pton_def o octet_fmt_u k)
qed

lemma initIPHeader_fields:
  assumes "length hdr = 20"
  shows "\<exists>h. initIPHeader hdr src proto = Inr h \<and> length h = 20 \<and> h ! 0 = 0x45 \<and> h ! 9 = proto
    \<and> peek 12 4 h = le_enc 4 src
    \<and> peek 16 4 h = [238, 238, 238, le_enc 4 src ! 3]
    \<and> peek 2 2 h = [0, 0] \<and> peek 10 2 h = [0, 0]"
proof -
  define sfx where "sfx = (ucast (drop_bit (3 * 8) src) :: u8)"
  obtain x0 x1 x2 x3 x4 x5 x6 x7 x8 x9 x10 x11 x12 x13 x14 x15 x16 x17 x18 x19 where
    h: "hdr = [x0, x1, x2, x3, x4, x5, x6, x7, x8, x9, x10, x11, x12, x13, x14, x15, x16, x17, x18, x19]"
    using assms by (auto simp: eval_nat_numeral length_Suc_conv)
  have "unat sfx < 2 ^ LENGTH(8)" by (rule unsigned_less)
  then have sfx: "unat sfx \<le> 255" by simp
  obtain d where d: "inet_pton (MULTICAST_IP_PREFIX @ fmt_u (unat sfx)) = Some d"
    and e: "le_enc 4 d = [238, 238, 238, sfx]"
    using inet_pton_multicast [OF sfx] le_enc_le_dec [of "[238, 238, 238, sfx]" 4, where 'a = 32] by simp
  have z: "le_enc 2 (htons 0) = [0, 0]" "le_enc 2 (0 :: u16) = [0, 0]"
    by code_simp+
  have v: "push_bit 4 4 OR 5 = (0x45 :: byte)" by simp
  have s3: "le_enc 4 src ! 3 = sfx" by (simp add: le_enc_def sfx_def)
  obtain s0 s1 s2 s3 where s: "le_enc 4 src = [s0, s1, s2, s3]"
    using length_le_enc [of 4 src] by (auto simp: eval_nat_numeral length_Suc_conv simp del: length_le_enc)
  have "initIPHeader hdr src proto = Inr [0x45, 0, 0, 0, 0, 0, 0, 0, 255, proto, 0, 0, s0, s1, s2, s3, 238, 238, 238, sfx]"
    unfolding initIPHeader_def sfx_def [symmetric] d z e s v h Let_def
    by (simp add: poke_def e s)
  with s3 show ?thesis by (simp add: s peek_def)
qed

text \<open>C19: \<^verbatim>\<open>initIPHeader\<close> never exits: the multicast address it prints is always a valid dotted
  quad.  For a source ending in octet \<open>k\<close> the header has version 4, five words, the given protocol and
  source, the destination 238.238.238.k, and zero length and checksum.\<close>

theorem initIPHeader_multicast:
  assumes "length hdr = 20"
  shows "\<exists>h. initIPHeader hdr src proto = Inr h \<and> length h = 20 \<and> h ! 0 = 0x45 \<and> h ! 9 = proto
    \<and> peek 12 4 h = le_enc 4 src
    \<and> peek 16 4 h = [238, 238, 238, le_enc 4 src ! 3]
    \<and> peek 2 2 h = [0, 0] \<and> peek 10 2 h = [0, 0]"
  by (rule initIPHeader_fields [OF assms])

theorem initIPHeader_multicast_witness:
  "\<exists>h. initIPHeader (replicate 20 0) 0x2a00000a 17 = Inr h \<and> peek 16 4 h = [238, 238, 238, 42]"
proof -
  have "le_enc 4 (0x2a00000a :: u32) ! 3 = 42" by code_simp
  then show ?thesis
    using initIPHeader_multicast [of "replicate 20 0" "0x2a00000a" 17] by auto
qed

end
