(* ===== verification/MsgQueue.thy ===== *)
theory MsgQueue
  imports Wire "HOL-Library.Monad_Syntax"
begin

text \<open>
  Outgoing messages (\<^verbatim>\<open>hero.c\<close>): message tokens, the priority rule of \<^verbatim>\<open>insertMsg2SendQ\<close>,
  \<^verbatim>\<open>sendMsg\<close>, which resumes a token that was sent in part, and \<^verbatim>\<open>deleteSendQueue\<close>.  The APR
  queue is a library outside the repository: its operations are a parameter, and what the agent
  relies on is the locale \<open>apr_queue\<close>.
\<close>

subsection \<open>The queue interface\<close>

definition APR_QUEUE_CAPACITY :: nat where [const_defs]: "APR_QUEUE_CAPACITY = 200"
definition INTERFACE_MTU :: u32 where [const_defs]: "INTERFACE_MTU = 8946"
definition TCP_HDRLEN :: u32 where [const_defs]: "TCP_HDRLEN = 20"
definition ZEROS_LEN :: nat where [const_defs]: "ZEROS_LEN = 9216"

record MsgToken =
  tok_buf :: "byte list"
  msg_len :: bytes_t
  padding_len :: bytes_t
  byte_sent :: bytes_t
  tok_tv :: timeval

datatype apr_status = APR_SUCCESS | APR_EAGAIN | APR_EINTR | APR_EOF

record 'q queue_ops =
  apr_queue_create :: "nat \<Rightarrow> 'q"
  apr_queue_size :: "'q \<Rightarrow> nat"
  apr_queue_trypush :: "'q \<Rightarrow> MsgToken \<Rightarrow> 'q \<times> apr_status"
  apr_queue_trypop :: "'q \<Rightarrow> 'q \<times> apr_status \<times> MsgToken option"
  apr_queue_interrupt_all :: "'q \<Rightarrow> 'q \<times> apr_status"

text \<open>What the documentation of APR promises for a queue of the agent's capacity that is not
  terminated: a bounded first-in first-out queue that never blocks in the \<^verbatim>\<open>try\<close> operations.\<close>

locale apr_queue =
  fixes Q :: "'q queue_ops" and contents :: "'q \<Rightarrow> MsgToken list"
  assumes create_law: "contents (apr_queue_create Q APR_QUEUE_CAPACITY) = []"
    and size_law: "apr_queue_size Q q = length (contents q)"
    and push_law: "length (contents q) < APR_QUEUE_CAPACITY \<Longrightarrow>
      \<exists>q'. apr_queue_trypush Q q t = (q', APR_SUCCESS) \<and> contents q' = contents q @ [t]"
    and push_full_law: "APR_QUEUE_CAPACITY \<le> length (contents q) \<Longrightarrow>
      \<exists>q'. apr_queue_trypush Q q t = (q', APR_EAGAIN) \<and> contents q' = contents q"
    and pop_law: "contents q = t # ts \<Longrightarrow>
      \<exists>q'. apr_queue_trypop Q q = (q', APR_SUCCESS, Some t) \<and> contents q' = ts"
    and pop_empty_law: "contents q = [] \<Longrightarrow>
      \<exists>q' m. apr_queue_trypop Q q = (q', APR_EAGAIN, m) \<and> contents q' = []"
    and interrupt_law: "\<exists>q'. apr_queue_interrupt_all Q q = (q', APR_SUCCESS) \<and> contents q' = contents q"

subsection \<open>Operations\<close>

definition createMsgToken_raw :: "bytes_t \<Rightarrow> bool \<Rightarrow> timeval \<Rightarrow> MsgToken" where
  "createMsgToken_raw len padding now =
     \<lparr>tok_buf = replicate (unat len) 0, msg_len = len,
      padding_len = (if padding then INTERFACE_MTU - of_nat IP4_HDRLEN - TCP_HDRLEN - len else 0),
      byte_sent = 0, tok_tv = now\<rparr>"

definition createMsgToken :: "BcdID \<Rightarrow> msg_type \<Rightarrow> byte list option \<Rightarrow> bytes_t \<Rightarrow> bool \<Rightarrow> timeval
    \<Rightarrow> MsgToken res" where
  "createMsgToken bid ty payload plen padding now =
     (let len = of_nat MSG_HDRLEN + plen;
          mt = createMsgToken_raw len padding now
      in rbind (createMsg (tok_buf mt) bid ty payload len (padding_len mt) now)
           (\<lambda>(buf, _). Inr (mt\<lparr>tok_buf := buf\<rparr>)))"

text \<open>The loop that repeats an interrupted push.\<close>

partial_function (option) push_retry :: "'q queue_ops \<Rightarrow> 'q \<Rightarrow> MsgToken \<Rightarrow> ('q \<times> apr_status) option" where
  "push_retry Q q t = (case apr_queue_trypush Q q t of (q, s) \<Rightarrow>
     if s = APR_EINTR then push_retry Q q t else Some (q, s))"

definition insertMsg2SendQ :: "'q queue_ops \<Rightarrow> 'q \<Rightarrow> BcdID \<Rightarrow> msg_type \<Rightarrow> byte list option \<Rightarrow> bytes_t
    \<Rightarrow> bool \<Rightarrow> bool \<Rightarrow> timeval \<Rightarrow> ('q \<times> u8) res option" where
  "insertMsg2SendQ Q q bid ty payload plen padding priority now =
     (if \<not> priority \<and> apr_queue_size Q q > APR_QUEUE_CAPACITY div 2 then Some (Inr (q, 0))
      else (case createMsgToken bid ty payload plen padding now of
          Inl e \<Rightarrow> Some (Inl e)
        | Inr mt \<Rightarrow> (case push_retry Q q mt of
            None \<Rightarrow> None
          | Some (q, s) \<Rightarrow> Some (Inr (q, if s = APR_EAGAIN then 0 else 0xff)))))"

text \<open>The next bytes that \<^verbatim>\<open>sendMsg\<close> hands to \<^verbatim>\<open>send\<close>: of the message, then of the padding, which
  comes from the static array \<^verbatim>\<open>zeros\<close>.\<close>

definition offered :: "MsgToken \<Rightarrow> byte list res" where
  "offered t =
     (if byte_sent t < msg_len t
      then Inr (take (unat (msg_len t - byte_sent t)) (drop (unat (byte_sent t)) (tok_buf t)))
      else (let n = unat (msg_len t + padding_len t - byte_sent t)
            in if n \<le> ZEROS_LEN then Inr (replicate n 0) else Inl OutOfBounds))"

text \<open>\<^verbatim>\<open>sendMsg\<close>.  The result of the \<open>i\<close>-th \<^verbatim>\<open>send\<close> is \<open>send i\<close> of the bytes it was given; \<open>out\<close>
  collects the bytes that went out, whose number is the result of the C function.\<close>

partial_function (option) sendMsg :: "'q queue_ops \<Rightarrow> (nat \<Rightarrow> byte list \<Rightarrow> int) \<Rightarrow> nat \<Rightarrow> 'q
    \<Rightarrow> MsgToken option \<Rightarrow> byte list \<Rightarrow> ('q \<times> MsgToken option \<times> byte list) res option" where
  "sendMsg Q send i q tok out =
     (case (case tok of Some t \<Rightarrow> (q, Some t)
             | None \<Rightarrow> (case apr_queue_trypop Q q of (q, s, m) \<Rightarrow>
                 (q, if s = APR_SUCCESS then m else None))) of
        (q, None) \<Rightarrow> Some (Inr (q, None, out))
      | (q, Some t) \<Rightarrow> (case offered t of
          Inl e \<Rightarrow> Some (Inl e)
        | Inr bs \<Rightarrow>
            if send i bs > 0 then
              (let t' = t\<lparr>byte_sent := byte_sent t + word_of_int (send i bs)\<rparr>;
                   out' = out @ take (nat (send i bs)) bs
               in if byte_sent t' = msg_len t' + padding_len t'
                  then sendMsg Q send (i + 1) q None out'
                  else Some (Inr (q, Some t', out')))
            else Some (Inr (q, Some t, out))))"

text \<open>\<^verbatim>\<open>deleteSendQueue\<close>: the tokens that were freed, and the emptied queue.\<close>

partial_function (option) deleteSendQueue :: "'q queue_ops \<Rightarrow> 'q \<Rightarrow> MsgToken list
    \<Rightarrow> ('q \<times> MsgToken list) option" where
  "deleteSendQueue Q q freed =
     (case apr_queue_interrupt_all Q q of (q, s) \<Rightarrow>
        if s \<noteq> APR_SUCCESS then Some (q, freed)
        else (case apr_queue_trypop Q q of (q, s, m) \<Rightarrow>
          if s = APR_EAGAIN \<or> s = APR_EOF then Some (q, freed)
          else if s = APR_SUCCESS
          then deleteSendQueue Q q (freed @ (case m of None \<Rightarrow> [] | Some t \<Rightarrow> [t]))
          else deleteSendQueue Q q freed))"

subsection \<open>Tokens\<close>

text \<open>The bytes a token stands for on the wire.\<close>

definition token_bytes :: "MsgToken \<Rightarrow> byte list" where
  "token_bytes t = tok_buf t @ replicate (unat (padding_len t)) 0"

definition token_ok :: "MsgToken \<Rightarrow> bool" where
  "token_ok t \<longleftrightarrow> length (tok_buf t) = unat (msg_len t) \<and> unat (padding_len t) \<le> ZEROS_LEN
     \<and> unat (msg_len t) < 2 ^ 31 \<and> unat (byte_sent t) < unat (msg_len t) + unat (padding_len t)"

lemma token_createMsg:
  assumes "length p = unat plen" "unat plen < 2 ^ 30"
  shows "\<exists>mt. createMsgToken bid ty (Some p) plen padding now = Inr mt
    \<and> tok_buf mt = enc_MsgHdr \<lparr>mh_bcd_id = bid, mh_type = ty,
        mh_len = 48 + plen + padding_len mt, mh_tv = now\<rparr> @ p
    \<and> msg_len mt = 48 + plen \<and> byte_sent mt = 0
    \<and> padding_len mt = (if padding then 8906 - (48 + plen) else 0)"
proof -
  have len: "unat (48 + plen) = 48 + unat plen"
    using assms by (subst unat_add_small) auto
  show ?thesis
    using createMsg_bytes [of "48 + plen" "replicate (unat (48 + plen)) 0" p bid ty
        "if padding then 8906 - (48 + plen) else 0" now] assms len
    by (auto simp: createMsgToken_def createMsgToken_raw_def Let_def const_defs poke_def)
qed

text \<open>A longer payload buffer changes nothing.\<close>

lemma createMsgToken_take:
  assumes "unat plen \<le> length p" "unat plen < 2 ^ 30"
  shows "createMsgToken bid ty (Some p) plen padding now
    = createMsgToken bid ty (Some (take (unat plen) p)) plen padding now"
proof -
  have "unat (48 + plen) = 48 + unat plen"
    using assms by (subst unat_add_small) auto
  then show ?thesis
    using assms(1) by (simp add: createMsgToken_def createMsg_def Let_def const_defs)
qed

lemma token_createMsg_None:
  "\<exists>mt. createMsgToken bid ty None 0 padding now = Inr mt
    \<and> tok_buf mt = enc_MsgHdr \<lparr>mh_bcd_id = bid, mh_type = ty,
        mh_len = 48 + padding_len mt, mh_tv = now\<rparr>
    \<and> msg_len mt = 48 \<and> byte_sent mt = 0
    \<and> padding_len mt = (if padding then 8858 else 0)"
  by (auto simp: createMsgToken_def createMsgToken_raw_def Let_def const_defs createMsg_def
      createMsgHdr_eq poke_def)

subsection \<open>What follows from the queue's contract\<close>

definition stream :: "MsgToken option \<Rightarrow> MsgToken list \<Rightarrow> byte list" where
  "stream tok ts = (case tok of None \<Rightarrow> [] | Some t \<Rightarrow> drop (unat (byte_sent t)) (token_bytes t))
     @ concat (map token_bytes ts)"

lemma token_total:
  "token_ok t \<Longrightarrow> unat (msg_len t + padding_len t) = unat (msg_len t) + unat (padding_len t)"
  by (rule unat_add_small) (simp add: token_ok_def ZEROS_LEN_def)

lemma offered_bytes:
  assumes "token_ok t"
  obtains bs rest where "offered t = Inr bs"
    and "drop (unat (byte_sent t)) (token_bytes t) = bs @ rest" and "bs \<noteq> []"
    and "unat (byte_sent t) + length bs \<le> unat (msg_len t) + unat (padding_len t)"
proof (cases "byte_sent t < msg_len t")
  case True
  then have lt: "unat (byte_sent t) < unat (msg_len t)" by (simp add: word_less_nat_alt)
  let ?bs = "drop (unat (byte_sent t)) (tok_buf t)"
  have "offered t = Inr ?bs"
    using True assms by (simp add: offered_def token_ok_def unat_sub_small word_le_nat_alt less_imp_le lt)
  moreover have "drop (unat (byte_sent t)) (token_bytes t) = ?bs @ replicate (unat (padding_len t)) 0"
    using assms lt by (simp add: token_bytes_def token_ok_def)
  moreover have "?bs \<noteq> []" "unat (byte_sent t) + length ?bs \<le> unat (msg_len t) + unat (padding_len t)"
    using assms lt by (auto simp: token_ok_def)
  ultimately show ?thesis by (rule that)
next
  case False
  then have ge: "unat (msg_len t) \<le> unat (byte_sent t)" by (simp add: word_less_nat_alt)
  have le: "byte_sent t \<le> msg_len t + padding_len t"
    using assms token_total [OF assms] by (simp add: word_le_nat_alt token_ok_def)
  let ?n = "unat (msg_len t) + unat (padding_len t) - unat (byte_sent t)"
  have n: "unat (msg_len t + padding_len t - byte_sent t) = ?n"
    using le token_total [OF assms] by (simp add: unat_sub_small)
  have "?n \<le> ZEROS_LEN" using assms ge unfolding token_ok_def by linarith
  then have "offered t = Inr (replicate ?n 0)" using False n by (simp add: offered_def Let_def)
  moreover have "drop (unat (byte_sent t)) (token_bytes t) = replicate ?n 0 @ []"
    using assms ge by (simp add: token_bytes_def token_ok_def)
  moreover have "replicate ?n (0 :: byte) \<noteq> []"
    "unat (byte_sent t) + length (replicate ?n (0 :: byte)) \<le> unat (msg_len t) + unat (padding_len t)"
    using assms by (auto simp: token_ok_def)
  ultimately show ?thesis by (rule that)
qed

context apr_queue
begin

lemma push_retry_room:
  "length (contents q) < APR_QUEUE_CAPACITY \<Longrightarrow>
     \<exists>q'. push_retry Q q t = Some (q', APR_SUCCESS) \<and> contents q' = contents q @ [t]"
  using push_law [of q t] by (subst push_retry.simps) auto

lemma push_retry_full:
  "APR_QUEUE_CAPACITY \<le> length (contents q) \<Longrightarrow>
     \<exists>q'. push_retry Q q t = Some (q', APR_EAGAIN) \<and> contents q' = contents q"
  using push_full_law [of q t] by (subst push_retry.simps) auto

lemma insert_cases:
  assumes "createMsgToken bid ty payload plen padding now = Inr mt"
  shows "\<exists>q' r. insertMsg2SendQ Q q bid ty payload plen padding priority now = Some (Inr (q', r))
    \<and> (if length (contents q) < (if priority then APR_QUEUE_CAPACITY else APR_QUEUE_CAPACITY div 2 + 1)
       then r = 0xff \<and> contents q' = contents q @ [mt] else r = 0 \<and> contents q' = contents q)"
proof (cases "length (contents q) < APR_QUEUE_CAPACITY")
  case True
  from push_retry_room [OF True, of mt] assms True show ?thesis
    by (auto simp: insertMsg2SendQ_def size_law APR_QUEUE_CAPACITY_def)
next
  case False
  from push_retry_full [of q mt] assms False show ?thesis
    by (auto simp: insertMsg2SendQ_def size_law APR_QUEUE_CAPACITY_def)
qed

lemma sendMsg_send:
  assumes t: "token_ok t" and bound: "\<forall>i bs. send i bs \<le> int (length bs)"
  shows "(\<exists>t' o'. sendMsg Q send i q (Some t) out = Some (Inr (q, Some t', out @ o')) \<and> token_ok t'
        \<and> drop (unat (byte_sent t)) (token_bytes t) = o' @ drop (unat (byte_sent t')) (token_bytes t'))
    \<or> sendMsg Q send i q (Some t) out
        = sendMsg Q send (i + 1) q None (out @ drop (unat (byte_sent t)) (token_bytes t))"
proof -
  obtain bs rest where o: "offered t = Inr bs"
    and d: "drop (unat (byte_sent t)) (token_bytes t) = bs @ rest" and ne: "bs \<noteq> []"
    and le: "unat (byte_sent t) + length bs \<le> unat (msg_len t) + unat (padding_len t)"
    using offered_bytes [OF t] .
  show ?thesis
  proof (cases "send i bs > 0")
    case False
    then show ?thesis
      using o t by (subst sendMsg.simps, subst sendMsg.simps) (auto intro!: exI [of _ t])
  next
    case True
    define n where "n = nat (send i bs)"
    have n: "0 < n" "n \<le> length bs" "send i bs = int n" using True bound by (auto simp: n_def nat_le_iff)
    define t' where "t' = t\<lparr>byte_sent := byte_sent t + of_nat n\<rparr>"
    have small: "unat (msg_len t) + unat (padding_len t) < 4294967296"
      using t by (simp add: token_ok_def ZEROS_LEN_def)
    then have un: "unat (of_nat n :: u32) = n" using n le by (simp add: unsigned_of_nat take_bit_eq_mod)
    have b': "unat (byte_sent t') = unat (byte_sent t) + n"
      unfolding t'_def using n le small un by (simp add: unat_add_small)
    have bytes: "token_bytes t' = token_bytes t" by (simp add: t'_def token_bytes_def)
    have split: "drop (unat (byte_sent t)) (token_bytes t) = take n bs @ drop (unat (byte_sent t')) (token_bytes t')"
    proof -
      have "drop (unat (byte_sent t')) (token_bytes t) = drop n (drop (unat (byte_sent t)) (token_bytes t))"
        by (simp add: b' add.commute)
      then show ?thesis using n by (simp add: bytes d)
    qed
    have fin: "byte_sent t' = msg_len t' + padding_len t' \<longleftrightarrow>
        unat (byte_sent t) + n = unat (msg_len t) + unat (padding_len t)"
      using b' token_total [OF t] by (simp add: u32_eq_iff_unat t'_def)
    have step: "sendMsg Q send i q (Some t) out =
        (if byte_sent t' = msg_len t' + padding_len t'
         then sendMsg Q send (i + 1) q None (out @ take n bs)
         else Some (Inr (q, Some t', out @ take n bs)))"
      using o n by (subst sendMsg.simps) (simp add: t'_def Let_def)
    show ?thesis
    proof (cases "byte_sent t' = msg_len t' + padding_len t'")
      case False
      then have "token_ok t'"
        using t fin n le b' by (auto simp: token_ok_def t'_def)
      with False step split show ?thesis by auto
    next
      case True
      have "length (token_bytes t) = unat (msg_len t) + unat (padding_len t)"
        using t by (simp add: token_bytes_def token_ok_def)
      then have "drop (unat (byte_sent t')) (token_bytes t') = []"
        using True fin b' bytes by simp
      with True step split show ?thesis by simp
    qed
  qed
qed

lemma sendMsg_pop:
  "contents q = t # ts \<Longrightarrow> \<exists>q1. contents q1 = ts \<and> sendMsg Q send i q None out = sendMsg Q send i q1 (Some t) out"
  using pop_law [of q t ts] by (auto simp: sendMsg.simps [of Q send i])

lemma sendMsg_empty:
  "contents q = [] \<Longrightarrow> \<exists>q1. contents q1 = [] \<and> sendMsg Q send i q None out = Some (Inr (q1, None, out))"
  using pop_empty_law [of q] by (auto simp: sendMsg.simps [of Q send i])

lemma sendMsg_stream_None:
  assumes bound: "\<forall>i bs. send i bs \<le> int (length bs)"
    and "contents q = ts" and "\<forall>t \<in> set ts. token_ok t \<and> byte_sent t = 0"
  shows "\<exists>q' tok' o'. sendMsg Q send i q None out = Some (Inr (q', tok', out @ o'))
    \<and> stream None ts = o' @ stream tok' (contents q')
    \<and> (\<forall>t \<in> set_option tok' \<union> set (contents q'). token_ok t)
    \<and> (\<forall>t \<in> set (contents q'). byte_sent t = 0)"
  using assms(2,3)
proof (induction ts arbitrary: q i out)
  case Nil
  from sendMsg_empty [OF Nil(1), of send i out] obtain q1 where
    "contents q1 = []" "sendMsg Q send i q None out = Some (Inr (q1, None, out))" by blast
  then show ?case by (intro exI [of _ q1] exI [of _ None] exI [of _ "[]"]) (simp add: stream_def)
next
  case (Cons t ts)
  from sendMsg_pop [OF Cons.prems(1), of send i out] obtain q1 where
    q1: "contents q1 = ts" and eq: "sendMsg Q send i q None out = sendMsg Q send i q1 (Some t) out" by blast
  have t: "token_ok t" "byte_sent t = 0" using Cons.prems by auto
  from sendMsg_send [OF t(1) bound, where i = i and q = q1 and out = out] show ?case
  proof
    assume "\<exists>t' o'. sendMsg Q send i q1 (Some t) out = Some (Inr (q1, Some t', out @ o')) \<and> token_ok t'
        \<and> drop (unat (byte_sent t)) (token_bytes t) = o' @ drop (unat (byte_sent t')) (token_bytes t')"
    then obtain t' o' where r: "sendMsg Q send i q1 (Some t) out = Some (Inr (q1, Some t', out @ o'))"
      "token_ok t'" "token_bytes t = o' @ drop (unat (byte_sent t')) (token_bytes t')"
      using t(2) by auto
    then show ?thesis using eq q1 Cons.prems
      by (intro exI [of _ q1] exI [of _ "Some t'"] exI [of _ o']) (simp add: stream_def)
  next
    assume "sendMsg Q send i q1 (Some t) out
      = sendMsg Q send (i + 1) q1 None (out @ drop (unat (byte_sent t)) (token_bytes t))"
    then have r: "sendMsg Q send i q None out = sendMsg Q send (i + 1) q1 None (out @ token_bytes t)"
      using eq t(2) by simp
    from Cons.IH [OF q1, of "i + 1" "out @ token_bytes t"] Cons.prems obtain q' tok' o' where
      "sendMsg Q send (i + 1) q1 None (out @ token_bytes t) = Some (Inr (q', tok', (out @ token_bytes t) @ o'))"
      "stream None ts = o' @ stream tok' (contents q')"
      "\<forall>t \<in> set_option tok' \<union> set (contents q'). token_ok t"
      "\<forall>t \<in> set (contents q'). byte_sent t = 0" by auto
    then show ?thesis using r
      by (intro exI [of _ q'] exI [of _ tok'] exI [of _ "token_bytes t @ o'"]) (simp add: stream_def)
  qed
qed

lemma sendMsg_stream:
  assumes bound: "\<forall>i bs. send i bs \<le> int (length bs)"
    and ok: "\<forall>t \<in> set_option tok \<union> set (contents q). token_ok t"
    and new: "\<forall>t \<in> set (contents q). byte_sent t = 0"
  shows "\<exists>q' tok' o'. sendMsg Q send i q tok out = Some (Inr (q', tok', out @ o'))
    \<and> stream tok (contents q) = o' @ stream tok' (contents q')
    \<and> (\<forall>t \<in> set_option tok' \<union> set (contents q'). token_ok t)
    \<and> (\<forall>t \<in> set (contents q'). byte_sent t = 0)"
proof (cases tok)
  case None
  with sendMsg_stream_None [OF bound refl, where q = q and i = i and out = out] ok new show ?thesis by auto
next
  case (Some t)
  with ok have t: "token_ok t" by simp
  let ?r = "drop (unat (byte_sent t)) (token_bytes t)"
  from sendMsg_send [OF t bound, where i = i and q = q and out = out] show ?thesis
  proof
    assume "\<exists>t' o'. sendMsg Q send i q (Some t) out = Some (Inr (q, Some t', out @ o')) \<and> token_ok t'
        \<and> ?r = o' @ drop (unat (byte_sent t')) (token_bytes t')"
    then obtain t' o' where r: "sendMsg Q send i q (Some t) out = Some (Inr (q, Some t', out @ o'))"
      "token_ok t'" "?r = o' @ drop (unat (byte_sent t')) (token_bytes t')" by blast
    then show ?thesis using Some ok new
      by (intro exI [of _ q] exI [of _ "Some t'"] exI [of _ o']) (simp add: stream_def)
  next
    assume r: "sendMsg Q send i q (Some t) out = sendMsg Q send (i + 1) q None (out @ ?r)"
    from sendMsg_stream_None [OF bound refl, where q = q and i = "i + 1" and out = "out @ ?r"] ok new obtain q' tok' o' where
      "sendMsg Q send (i + 1) q None (out @ ?r) = Some (Inr (q', tok', (out @ ?r) @ o'))"
      "stream None (contents q) = o' @ stream tok' (contents q')"
      "\<forall>t \<in> set_option tok' \<union> set (contents q'). token_ok t"
      "\<forall>t \<in> set (contents q'). byte_sent t = 0" by auto
    then show ?thesis using r Some
      by (intro exI [of _ q'] exI [of _ tok'] exI [of _ "?r @ o'"]) (simp add: stream_def)
  qed
qed

lemma deleteSendQueue_all:
  "\<exists>q'. deleteSendQueue Q q freed = Some (q', freed @ contents q) \<and> contents q' = []"
proof (induction "contents q" arbitrary: q freed)
  case Nil
  obtain q1 where q1: "apr_queue_interrupt_all Q q = (q1, APR_SUCCESS)" "contents q1 = []"
    using interrupt_law [of q] Nil by auto
  from pop_empty_law [OF q1(2)] q1 Nil show ?case
    by (subst deleteSendQueue.simps) auto
next
  case (Cons t ts)
  obtain q1 where q1: "apr_queue_interrupt_all Q q = (q1, APR_SUCCESS)" "contents q1 = t # ts"
    using interrupt_law [of q] Cons.hyps(2) by auto
  from pop_law [OF q1(2)] obtain q2 where
    q2: "apr_queue_trypop Q q1 = (q2, APR_SUCCESS, Some t)" "contents q2 = ts" by blast
  have "deleteSendQueue Q q freed = deleteSendQueue Q q2 (freed @ [t])"
    using q1 q2 by (subst deleteSendQueue.simps) simp
  with Cons.hyps(1) [of q2 "freed @ [t]"] q2 Cons.hyps(2) [symmetric] show ?case by simp
qed

end

text \<open>The bounded queue that APR documents, as a list.\<close>

definition list_queue :: "MsgToken list queue_ops" where
  "list_queue = \<lparr>apr_queue_create = (\<lambda>_. []), apr_queue_size = length,
     apr_queue_trypush = (\<lambda>q t. if length q < APR_QUEUE_CAPACITY then (q @ [t], APR_SUCCESS) else (q, APR_EAGAIN)),
     apr_queue_trypop = (\<lambda>q. case q of [] \<Rightarrow> ([], APR_EAGAIN, None) | t # ts \<Rightarrow> (ts, APR_SUCCESS, Some t)),
     apr_queue_interrupt_all = (\<lambda>q. (q, APR_SUCCESS))\<rparr>"

interpretation lq: apr_queue list_queue "\<lambda>q. q"
  by unfold_locales (auto simp: list_queue_def)

text \<open>What a new token looks like on the wire.\<close>

lemma create_token_spec:
  assumes "length p = unat plen" and "unat plen < 2 ^ 30"
  shows "\<exists>mt. createMsgToken bid ty (Some p) plen padding now = Inr mt
    \<and> tok_buf mt = enc_MsgHdr \<lparr>mh_bcd_id = bid, mh_type = ty, mh_len = 48 + plen + padding_len mt,
        mh_tv = now\<rparr> @ p \<and> byte_sent mt = 0
    \<and> (length p \<le> 8858 \<longrightarrow> token_ok mt
        \<and> length (token_bytes mt) = unat (mh_len (parseMsgHdr (tok_buf mt)))
        \<and> length (token_bytes mt) \<le> 8906 \<and> (padding \<longrightarrow> length (token_bytes mt) = 8906))"
proof -
  let ?pad = "if padding then 8906 - (48 + plen) else 0 :: u32"
  obtain mt where mt: "createMsgToken bid ty (Some p) plen padding now = Inr mt"
    "tok_buf mt = enc_MsgHdr \<lparr>mh_bcd_id = bid, mh_type = ty, mh_len = 48 + plen + padding_len mt,
        mh_tv = now\<rparr> @ p" "msg_len mt = 48 + plen" "byte_sent mt = 0" "padding_len mt = ?pad"
    using token_createMsg [OF assms, of bid ty padding now] by blast
  have sizes: "token_ok mt \<and> unat (msg_len mt) + unat (padding_len mt) = unat (48 + plen + padding_len mt)
      \<and> unat (msg_len mt) + unat (padding_len mt) \<le> 8906
      \<and> (padding \<longrightarrow> unat (msg_len mt) + unat (padding_len mt) = 8906)" if "length p \<le> 8858"
  proof -
    have m: "unat (48 + plen) = 48 + length p" using that assms by (subst unat_add_small) auto
    then have le: "48 + plen \<le> 8906" using that by (simp add: word_le_nat_alt)
    have "unat (8906 - (48 + plen)) = 8906 - (48 + length p)"
      by (subst unat_sub_small [OF le], subst m) simp
    then have pad: "unat (padding_len mt) = (if padding then 8906 - (48 + length p) else 0)"
      by (simp add: mt(5) del: diff_add_eq_diff_diff_swap)
    then have "unat (padding_len mt) \<le> 9216" by (simp split: if_splits)
    then have "token_ok mt" using m that mt(2,3,4) by (simp add: token_ok_def ZEROS_LEN_def)
    moreover have "unat (48 + plen + padding_len mt) = 48 + length p + unat (padding_len mt)"
      using m pad that by (subst unat_add_small) (auto split: if_splits)
    ultimately show ?thesis using m pad that by (simp add: mt(3))
  qed
  have "parseBcdId (tok_buf mt) 0 = bid \<and> mh_len (parseMsgHdr (tok_buf mt)) = 48 + plen + padding_len mt"
  proof -
    have "peek 28 4 (tok_buf mt) = rev (le_enc 4 (48 + plen + padding_len mt))"
      unfolding mt(2) by (simp add: peek_append_left)
        (simp add: enc_MsgHdr_def peek_skip peek_hd)
    moreover have "parseBcdId (tok_buf mt) 0 = bid"
      by (rule parseBcdId_enc) (simp add: mt(2) enc_MsgHdr_def peek_hd)
    ultimately show ?thesis by (simp add: parseMsgHdr_def le_dec_rev)
  qed
  moreover have "length (token_bytes mt) = unat (msg_len mt) + unat (padding_len mt)" if "token_ok mt"
    using that by (simp add: token_bytes_def token_ok_def)
  ultimately show ?thesis using mt(1,2,4) sizes by auto
qed

subsection \<open>Properties\<close>

text \<open>C20: The admission rule of \<^verbatim>\<open>insertMsg2SendQ\<close>.  On a queue that keeps APR's contract the call
  always returns; a priority message is refused only when the queue is full, any other message as
  soon as the queue is more than half full.  An accepted message is appended, with a header that
  announces exactly the bytes that follow it: payload and, when padding was asked for, the zeros that
  fill the message up to the MTU of the interface.\<close>

theorem insertMsg2SendQ_admission:
  assumes "apr_queue Q contents" and "length p = unat plen" and "unat plen < 2 ^ 30"
  shows "\<exists>q' r mt. insertMsg2SendQ Q q bid ty (Some p) plen padding priority now = Some (Inr (q', r))
    \<and> (if length (contents q) < (if priority then 200 else 101)
       then r = 0xff \<and> contents q' = contents q @ [mt] else r = 0 \<and> contents q' = contents q)
    \<and> tok_buf mt = enc_MsgHdr \<lparr>mh_bcd_id = bid, mh_type = ty, mh_len = 48 + plen + padding_len mt,
        mh_tv = now\<rparr> @ p
    \<and> (length p \<le> 8858 \<longrightarrow> token_ok mt
        \<and> length (token_bytes mt) = unat (mh_len (parseMsgHdr (tok_buf mt)))
        \<and> (padding \<longrightarrow> length (token_bytes mt) = 8906))"
proof -
  from create_token_spec [OF assms(2,3), of bid ty padding now] obtain mt where
    mt: "createMsgToken bid ty (Some p) plen padding now = Inr mt"
    "tok_buf mt = enc_MsgHdr \<lparr>mh_bcd_id = bid, mh_type = ty, mh_len = 48 + plen + padding_len mt,
        mh_tv = now\<rparr> @ p"
    "length p \<le> 8858 \<longrightarrow> token_ok mt
        \<and> length (token_bytes mt) = unat (mh_len (parseMsgHdr (tok_buf mt)))
        \<and> (padding \<longrightarrow> length (token_bytes mt) = 8906)" by blast
  from apr_queue.insert_cases [OF assms(1) mt(1), of q priority] obtain q' r where
    "insertMsg2SendQ Q q bid ty (Some p) plen padding priority now = Some (Inr (q', r))"
    "if length (contents q) < (if priority then 200 else 101)
       then r = 0xff \<and> contents q' = contents q @ [mt] else r = 0 \<and> contents q' = contents q"
    by (auto simp: APR_QUEUE_CAPACITY_def)
  with mt show ?thesis by blast
qed

theorem insertMsg2SendQ_admission_witness:
  "\<exists>q' mt. insertMsg2SendQ list_queue [] \<lparr>app_id = \<lparr>msb = 1, lsb = 2\<rparr>, data_id = 3\<rparr> MSG_FIRST_SEQ
      (Some [1, 2, 3, 4]) 4 True True (Timeval 7 7) = Some (Inr (q', 0xff)) \<and> q' = [mt]
    \<and> length (token_bytes mt) = 8906"
  using insertMsg2SendQ_admission [OF lq.apr_queue_axioms, where q = "[]" and p = "[1, 2, 3, 4]" and plen = 4
      and bid = "\<lparr>app_id = \<lparr>msb = 1, lsb = 2\<rparr>, data_id = 3\<rparr>" and ty = MSG_FIRST_SEQ
      and padding = True and priority = True and now = "Timeval 7 7"]
  by auto

text \<open>C21: \<^verbatim>\<open>sendMsg\<close> always returns and neither loses, duplicates nor reorders a byte, however the
  socket splits the data or refuses it: the bytes still to be sent before the call are exactly the bytes
  that the call sends followed by the bytes still to be sent after it, and what is left is again a
  state from which the next call resumes.\<close>

theorem sendMsg_conserves:
  assumes "apr_queue Q contents" and "\<forall>i bs. send i bs \<le> int (length bs)"
    and "\<forall>t \<in> set_option tok \<union> set (contents q). token_ok t"
    and "\<forall>t \<in> set (contents q). byte_sent t = 0"
  shows "\<exists>q' tok' sent. sendMsg Q send 0 q tok [] = Some (Inr (q', tok', sent))
    \<and> stream tok (contents q) = sent @ stream tok' (contents q')
    \<and> (\<forall>t \<in> set_option tok' \<union> set (contents q'). token_ok t)
    \<and> (\<forall>t \<in> set (contents q'). byte_sent t = 0)"
  using apr_queue.sendMsg_stream [OF assms, of 0 "[]"] by simp

theorem sendMsg_conserves_witness:
  "\<exists>q' tok' sent. sendMsg list_queue (\<lambda>i bs. if i = 0 then min 3 (int (length bs)) else -1) 0
      [\<lparr>tok_buf = [1, 2, 3, 4, 5], msg_len = 5, padding_len = 0, byte_sent = 0, tok_tv = Timeval 0 0\<rparr>] None []
      = Some (Inr (q', tok', sent)) \<and> [1, 2, 3, 4, 5] = sent @ stream tok' q'"
proof -
  let ?q = "[\<lparr>tok_buf = [1, 2, 3, 4, 5], msg_len = 5, padding_len = 0, byte_sent = 0, tok_tv = Timeval 0 0\<rparr>]"
  let ?send = "\<lambda>i (bs :: byte list). if i = (0 :: nat) then min 3 (int (length bs)) else -1"
  have b: "\<forall>i bs. ?send i bs \<le> int (length bs)" by auto
  have "stream None ?q = [1, 2, 3, 4, 5]" by (simp add: stream_def token_bytes_def)
  then show ?thesis
    using sendMsg_conserves [OF lq.apr_queue_axioms b, where q = ?q and tok = None]
    by (auto simp: token_ok_def ZEROS_LEN_def)
qed

text \<open>C22: \<^verbatim>\<open>deleteSendQueue\<close> returns, frees every token of the queue exactly once, in order, and leaves it
  empty.\<close>

theorem deleteSendQueue_frees_all:
  assumes "apr_queue Q contents"
  shows "\<exists>q'. deleteSendQueue Q q [] = Some (q', contents q) \<and> contents q' = []"
  using apr_queue.deleteSendQueue_all [OF assms, of q "[]"] by simp

theorem deleteSendQueue_frees_all_witness:
  "\<exists>q'. deleteSendQueue list_queue [createMsgToken_raw 5 False (Timeval 1 2), createMsgToken_raw 7 True (Timeval 1 2)] []
      = Some (q', [createMsgToken_raw 5 False (Timeval 1 2), createMsgToken_raw 7 True (Timeval 1 2)]) \<and> q' = []"
  using deleteSendQueue_frees_all [OF lq.apr_queue_axioms,
      of "[createMsgToken_raw 5 False (Timeval 1 2), createMsgToken_raw 7 True (Timeval 1 2)]"] by simp

end
