(* ===== verification/Frame.thy ===== *)
theory Frame
  imports MsgQueue
begin

text \<open>
  The receive side of the three control threads: every socket and pipe has a buffer into which
  \<^verbatim>\<open>read\<close> appends, and a loop that cuts messages out of it by the length in their header.  The
  loop is modelled once, over the handler of the thread; \<open>cut\<close> is its specification on byte streams.
\<close>

subsection \<open>The receive buffer\<close>

record rbuf =
  recv_buf :: "byte list"
  recv_ed_byte :: u32
  recv_expect_byte :: u32
  mh :: MsgHdr

definition NULL_HDR :: MsgHdr where
  "NULL_HDR = \<lparr>mh_bcd_id = \<lparr>app_id = \<lparr>msb = 0, lsb = 0\<rparr>, data_id = 0\<rparr>, mh_type = MSG_NONTYPE, mh_len = 0,
     mh_tv = Timeval 0 0\<rparr>"

definition rbuf_init :: rbuf where
  "rbuf_init = \<lparr>recv_buf = replicate RECVBUF_LEN 0, recv_ed_byte = 0,
     recv_expect_byte = word_of_int BYTE_MAX, mh = NULL_HDR\<rparr>"

text \<open>A \<^verbatim>\<open>read\<close> that returned the bytes \<open>bs\<close>.\<close>

definition frame_read :: "rbuf \<Rightarrow> byte list \<Rightarrow> rbuf" where
  "frame_read r bs = r\<lparr>recv_buf := poke (unat (recv_ed_byte r)) bs (recv_buf r),
     recv_ed_byte := recv_ed_byte r + of_nat (length bs)\<rparr>"

definition frame_header :: "rbuf \<Rightarrow> rbuf" where
  "frame_header r =
     (if MSG_HDRLEN \<le> unat (recv_ed_byte r) \<and> mh_type (mh r) = MSG_NONTYPE
      then (let m = parseMsgHdr (recv_buf r) in r\<lparr>mh := m, recv_expect_byte := mh_len m\<rparr>) else r)"

text \<open>In an \<^verbatim>\<open>FdState\<close> the counters are unsigned; in a \<^verbatim>\<open>SendSocketState\<close> they are \<^verbatim>\<open>int\<close>.\<close>

definition ready_fd :: "rbuf \<Rightarrow> bool" where
  "ready_fd r \<longleftrightarrow> recv_expect_byte r \<le> recv_ed_byte r"

definition ready_ssock :: "rbuf \<Rightarrow> bool" where
  "ready_ssock r \<longleftrightarrow> to_s32 (recv_expect_byte r) \<le> to_s32 (recv_ed_byte r)"

definition frame_consume :: "rbuf \<Rightarrow> rbuf res" where
  "frame_consume r =
     (let n = unat (recv_expect_byte r); ed = recv_ed_byte r - recv_expect_byte r
      in if ed = 0 \<or> n + unat ed \<le> RECVBUF_LEN
         then Inr (r\<lparr>recv_buf := poke 0 (peek n (unat ed) (recv_buf r)) (recv_buf r), recv_ed_byte := ed,
                recv_expect_byte := word_of_int BYTE_MAX, mh := (mh r)\<lparr>mh_type := MSG_NONTYPE\<rparr>\<rparr>)
         else Inl OutOfBounds)"

text \<open>The loop over the received bytes.  The handler of a complete message returns the new state of
  the thread and whether the message is consumed; a \<^verbatim>\<open>continue\<close> before the end of the body skips that.\<close>

partial_function (option) frame_loop :: "(rbuf \<Rightarrow> bool) \<Rightarrow> (rbuf \<Rightarrow> 'st \<Rightarrow> (bool \<times> 'st) res option)
    \<Rightarrow> rbuf \<Rightarrow> 'st \<Rightarrow> (rbuf \<times> 'st) res option" where
  "frame_loop ready handle r st =
     (if recv_ed_byte r = 0 then Some (Inr (r, st))
      else if ready (frame_header r)
      then (case handle (frame_header r) st of
          None \<Rightarrow> None
        | Some (Inl e) \<Rightarrow> Some (Inl e)
        | Some (Inr (done, st)) \<Rightarrow>
            if done then (case frame_consume (frame_header r) of
                Inl e \<Rightarrow> Some (Inl e)
              | Inr r \<Rightarrow> frame_loop ready handle r st)
            else frame_loop ready handle (frame_header r) st)
      else Some (Inr (frame_header r, st)))"

text \<open>A sequence of reads from the stream \<open>s\<close>, each followed by the loop: at the \<open>i\<close>-th read \<open>ks ! i\<close>
  bytes have arrived, of which \<^verbatim>\<open>read\<close> takes what fits the buffer.\<close>

fun frame_feed :: "(rbuf \<Rightarrow> bool) \<Rightarrow> (rbuf \<Rightarrow> 'st \<Rightarrow> (bool \<times> 'st) res option)
    \<Rightarrow> nat list \<Rightarrow> byte list \<Rightarrow> rbuf \<Rightarrow> 'st \<Rightarrow> (rbuf \<times> 'st \<times> byte list) res option" where
  "frame_feed ready handle [] s r st = Some (Inr (r, st, s))"
| "frame_feed ready handle (k # ks) s r st =
     (let c = take (min k (RECVBUF_LEN - unat (recv_ed_byte r))) s
      in if c = [] then frame_feed ready handle ks s r st
         else (case frame_loop ready handle (frame_read r c) st of
            None \<Rightarrow> None
          | Some (Inl e) \<Rightarrow> Some (Inl e)
          | Some (Inr (r, st)) \<Rightarrow> frame_feed ready handle ks (drop (length c) s) r st))"

subsection \<open>Cutting a stream into messages\<close>

definition hdr_len :: "byte list \<Rightarrow> nat" where
  "hdr_len bs = unat (mh_len (parseMsgHdr bs))"

function cut :: "byte list \<Rightarrow> byte list list \<times> byte list" where
  "cut bs = (if length bs < 48 \<or> hdr_len bs = 0 \<or> length bs < hdr_len bs then ([], bs)
     else (case cut (drop (hdr_len bs) bs) of (ms, r) \<Rightarrow> (take (hdr_len bs) bs # ms, r)))"
  by pat_completeness auto
termination by (relation "measure length") auto

declare cut.simps [simp del]

text \<open>Every header met while cutting announces at least its own length and fits the buffer.\<close>

function sane :: "byte list \<Rightarrow> bool" where
  "sane bs = (if length bs < 48 then True
     else if hdr_len bs < 48 \<or> RECVBUF_LEN < hdr_len bs then False
     else if length bs < hdr_len bs then True else sane (drop (hdr_len bs) bs))"
  by pat_completeness auto
termination by (relation "measure length") auto

declare sane.simps [simp del]

abbreviation incomplete :: "byte list \<Rightarrow> bool" where
  "incomplete bs \<equiv> length bs < 48 \<or> hdr_len bs = 0 \<or> length bs < hdr_len bs"

lemma cut_done: "incomplete bs \<Longrightarrow> cut bs = ([], bs)"
  by (subst cut.simps) simp

lemma cut_more:
  "\<not> incomplete bs \<Longrightarrow> cut bs = (take (hdr_len bs) bs # fst (cut (drop (hdr_len bs) bs)),
     snd (cut (drop (hdr_len bs) bs)))"
  by (subst cut.simps) (simp add: case_prod_unfold)

lemma sane_done: "sane bs \<Longrightarrow> incomplete bs \<Longrightarrow> length bs < RECVBUF_LEN"
  by (subst (asm) sane.simps) (auto simp: RECVBUF_LEN_def split: if_splits)

lemma sane_more: "\<not> incomplete bs \<Longrightarrow>
    sane bs \<longleftrightarrow> 48 \<le> hdr_len bs \<and> hdr_len bs \<le> RECVBUF_LEN \<and> sane (drop (hdr_len bs) bs)"
  by (subst sane.simps) auto

text \<open>What a thread does with a list of messages.\<close>

fun run_msgs :: "(byte list \<Rightarrow> 'st \<Rightarrow> 'st res option) \<Rightarrow> byte list list \<Rightarrow> 'st \<Rightarrow> 'st res option" where
  "run_msgs step [] st = Some (Inr st)"
| "run_msgs step (m # ms) st = (case step m st of
     None \<Rightarrow> None | Some (Inl e) \<Rightarrow> Some (Inl e) | Some (Inr st) \<Rightarrow> run_msgs step ms st)"

lemma run_msgs_append:
  "run_msgs step (ms @ ns) st = (case run_msgs step ms st of
     None \<Rightarrow> None | Some (Inl e) \<Rightarrow> Some (Inl e) | Some (Inr st) \<Rightarrow> run_msgs step ns st)"
  by (induction ms arbitrary: st) (auto split: option.splits sum.splits)

lemma parse_append: "48 \<le> length a \<Longrightarrow> parseMsgHdr (a @ b) = parseMsgHdr a"
  by (simp add: parseMsgHdr_def parseBcdId_def get_timeval_def peek_append_left)

lemma hdr_len_append: "48 \<le> length a \<Longrightarrow> hdr_len (a @ b) = hdr_len a"
  by (simp add: hdr_len_def parse_append)

lemma incomplete_append: "\<not> incomplete a \<Longrightarrow> \<not> incomplete (a @ b)"
  by (auto simp: hdr_len_append)

lemma cut_append:
  "cut (a @ b) = (fst (cut a) @ fst (cut (snd (cut a) @ b)), snd (cut (snd (cut a) @ b)))"
proof (induction a rule: cut.induct)
  case (1 a)
  show ?case
  proof (cases "incomplete a")
    case True
    then show ?thesis by (simp add: cut_done)
  next
    case False
    with "1.IH" [OF False] show ?thesis
      by (simp add: cut_more [OF False] cut_more [OF incomplete_append [OF False]] hdr_len_append)
  qed
qed

lemma cut_rest: "fst (cut (snd (cut a))) = []"
proof (induction a rule: cut.induct)
  case (1 a)
  then show ?case by (cases "incomplete a") (simp_all add: cut_done cut_more)
qed

lemma sane_cut_rest: "sane a \<Longrightarrow> length (snd (cut a)) < RECVBUF_LEN"
proof (induction a rule: cut.induct)
  case (1 a)
  then show ?case
    by (cases "incomplete a") (simp_all add: cut_done cut_more sane_done sane_more)
qed

lemma sane_append: "sane (a @ b) \<Longrightarrow> sane a \<and> sane (snd (cut a) @ b)"
proof (induction a rule: cut.induct)
  case (1 a)
  show ?case
  proof (cases "incomplete a")
    case True
    then show ?thesis
      using "1.prems" sane.simps [of a] sane.simps [of "a @ b"]
      by (auto simp: cut_done hdr_len_append split: if_splits)
  next
    case False
    with "1.IH" [OF False] "1.prems" show ?thesis
      by (simp add: cut_more [OF False] sane_more [OF False] sane_more [OF incomplete_append [OF False]]
          hdr_len_append)
  qed
qed

subsection \<open>The loop cuts the stream\<close>

definition pending :: "rbuf \<Rightarrow> byte list" where
  "pending r = take (unat (recv_ed_byte r)) (recv_buf r)"

definition frame_inv :: "rbuf \<Rightarrow> bool" where
  "frame_inv r \<longleftrightarrow> length (recv_buf r) = RECVBUF_LEN \<and> unat (recv_ed_byte r) \<le> RECVBUF_LEN
     \<and> (if mh_type (mh r) = MSG_NONTYPE then True
        else 48 \<le> unat (recv_ed_byte r) \<and> mh r = parseMsgHdr (recv_buf r))
     \<and> (recv_expect_byte r = word_of_int BYTE_MAX \<and> mh_type (mh r) = MSG_NONTYPE
        \<or> 48 \<le> unat (recv_ed_byte r) \<and> recv_expect_byte r = mh_len (parseMsgHdr (recv_buf r)))"

lemma BYTE_MAX_unat: "unat (word_of_int BYTE_MAX :: u32) = 2147482647"
  by (simp add: BYTE_MAX_def)

lemma frame_inv_init: "frame_inv rbuf_init" "pending rbuf_init = []"
  by (simp_all add: frame_inv_def rbuf_init_def pending_def NULL_HDR_def)

lemma length_pending: "frame_inv r \<Longrightarrow> length (pending r) = unat (recv_ed_byte r)"
  by (simp add: frame_inv_def pending_def)

lemma parse_pending:
  "frame_inv r \<Longrightarrow> 48 \<le> unat (recv_ed_byte r) \<Longrightarrow> parseMsgHdr (pending r) = parseMsgHdr (recv_buf r)"
  using parse_append [of "pending r" "drop (unat (recv_ed_byte r)) (recv_buf r)"] length_pending [of r]
  by (simp add: pending_def)

lemma frame_header_pending [simp]:
  "pending (frame_header r) = pending r" "recv_buf (frame_header r) = recv_buf r"
  "recv_ed_byte (frame_header r) = recv_ed_byte r"
  by (simp_all add: frame_header_def Let_def pending_def)

lemma frame_header_inv:
  assumes "frame_inv r"
  shows "frame_inv (frame_header r)
    \<and> (if length (pending r) < 48 then recv_expect_byte (frame_header r) = word_of_int BYTE_MAX
       else mh (frame_header r) = parseMsgHdr (pending r)
         \<and> recv_expect_byte (frame_header r) = mh_len (parseMsgHdr (pending r)))"
  using assms length_pending [OF assms] parse_pending [OF assms]
  by (auto simp: frame_header_def Let_def frame_inv_def MSG_HDRLEN_def split: if_splits)

lemma unat_of_nat_small: "n < 4294967296 \<Longrightarrow> unat (of_nat n :: u32) = n"
  by (simp add: unsigned_of_nat take_bit_eq_mod)

lemma frame_read_inv:
  assumes "frame_inv r" "length c \<le> RECVBUF_LEN - unat (recv_ed_byte r)"
  shows "frame_inv (frame_read r c) \<and> pending (frame_read r c) = pending r @ c"
proof -
  have sm: "unat (of_nat (length c) :: u32) = length c"
    using assms by (intro unat_of_nat_small) (simp add: RECVBUF_LEN_def)
  have ed: "unat (recv_ed_byte (frame_read r c)) = unat (recv_ed_byte r) + length c"
  proof -
    have "unat (recv_ed_byte r) + length c \<le> 16384"
      using assms unfolding frame_inv_def RECVBUF_LEN_def by linarith
    then show ?thesis
      using sm unat_add_small [of "recv_ed_byte r" "of_nat (length c)"] by (simp add: frame_read_def)
  qed
  have buf: "recv_buf (frame_read r c) = pending r @ c @ drop (unat (recv_ed_byte r) + length c) (recv_buf r)"
    by (simp add: frame_read_def poke_def pending_def)
  have "unat (recv_ed_byte r) + length c \<le> length (recv_buf r)"
    using assms unfolding frame_inv_def by linarith
  then have len: "length (recv_buf (frame_read r c)) = RECVBUF_LEN"
    using assms by (simp add: frame_read_def frame_inv_def)
  have p: "parseMsgHdr (recv_buf (frame_read r c)) = parseMsgHdr (recv_buf r)" if "48 \<le> unat (recv_ed_byte r)"
    using that assms(1) by (simp add: buf parse_append length_pending parse_pending)
  have "pending (frame_read r c) = pending r @ c"
    unfolding pending_def [of "frame_read r c"] ed buf using length_pending [OF assms(1)] by simp
  moreover have "mh (frame_read r c) = mh r" "recv_expect_byte (frame_read r c) = recv_expect_byte r"
    by (simp_all add: frame_read_def)
  ultimately show ?thesis
    using assms ed len p by (auto simp: frame_inv_def)
qed

lemma frame_consume_inv:
  assumes "frame_inv r" "recv_expect_byte r \<le> recv_ed_byte r"
  shows "\<exists>r'. frame_consume r = Inr r' \<and> frame_inv r' \<and> pending r' = drop (unat (recv_expect_byte r)) (pending r)"
proof -
  let ?n = "unat (recv_expect_byte r)" and ?ed = "recv_ed_byte r - recv_expect_byte r"
  have n: "?n \<le> unat (recv_ed_byte r)" "unat (recv_ed_byte r) \<le> RECVBUF_LEN" "length (recv_buf r) = RECVBUF_LEN"
    using assms by (auto simp: frame_inv_def word_le_nat_alt)
  have ed: "unat ?ed = unat (recv_ed_byte r) - ?n" by (rule unat_sub_small) fact
  let ?r = "r\<lparr>recv_buf := poke 0 (peek ?n (unat ?ed) (recv_buf r)) (recv_buf r), recv_ed_byte := ?ed,
      recv_expect_byte := word_of_int BYTE_MAX, mh := (mh r)\<lparr>mh_type := MSG_NONTYPE\<rparr>\<rparr>"
  have "frame_consume r = Inr ?r"
    using n ed by (simp add: frame_consume_def Let_def)
  moreover have len: "length (peek ?n (unat ?ed) (recv_buf r)) = unat ?ed"
    using n ed by simp
  moreover have "frame_inv ?r"
    using n ed len by (simp add: frame_inv_def)
  moreover have "pending ?r = drop ?n (pending r)"
    using n ed by (simp add: pending_def poke_def peek_def take_drop)
  ultimately show ?thesis by blast
qed

text \<open>What a thread's handler provides: its result depends on the message alone, and the message is
  consumed.  \<open>wfm\<close> says that the message is as long as its type needs.\<close>

locale frame_client =
  fixes ready :: "rbuf \<Rightarrow> bool"
    and handle :: "rbuf \<Rightarrow> 'st \<Rightarrow> (bool \<times> 'st) res option"
    and wfm :: "byte list \<Rightarrow> bool"
    and step :: "byte list \<Rightarrow> 'st \<Rightarrow> 'st res option"
  assumes ready_law: "unat (recv_ed_byte r) \<le> RECVBUF_LEN \<Longrightarrow>
      unat (recv_expect_byte r) \<le> RECVBUF_LEN \<or> recv_expect_byte r = word_of_int BYTE_MAX \<Longrightarrow>
      ready r \<longleftrightarrow> recv_expect_byte r \<le> recv_ed_byte r"
    and handle_law: "wfm m \<Longrightarrow> 48 \<le> length m \<Longrightarrow> take (length m) (recv_buf r) = m \<Longrightarrow> mh r = parseMsgHdr m \<Longrightarrow>
      handle r st = map_option (map_sum (\<lambda>e. e) (\<lambda>st. (True, st))) (step m st)"
begin

lemma ready_pending:
  assumes "frame_inv r" "sane (pending r)"
  shows "ready (frame_header r) \<longleftrightarrow> \<not> incomplete (pending r)"
proof -
  note h = frame_header_inv [OF assms(1)]
  have ed: "unat (recv_ed_byte r) = length (pending r)" "length (pending r) \<le> RECVBUF_LEN"
    using assms(1) by (simp_all add: length_pending frame_inv_def)
  show ?thesis
  proof (cases "length (pending r) < 48")
    case True
    with h have "recv_expect_byte (frame_header r) = word_of_int BYTE_MAX" by simp
    with True ed ready_law [of "frame_header r"] show ?thesis
      by (simp add: word_le_nat_alt BYTE_MAX_unat)
  next
    case False
    with h have e: "unat (recv_expect_byte (frame_header r)) = hdr_len (pending r)"
      by (simp add: hdr_len_def)
    have "48 \<le> hdr_len (pending r)" "hdr_len (pending r) \<le> RECVBUF_LEN"
      using assms(2) False by (simp_all add: sane.simps [of "pending r"] split: if_splits)
    with False e ed ready_law [of "frame_header r"] show ?thesis
      by (auto simp: word_le_nat_alt)
  qed
qed

lemma frame_loop_cuts:
  assumes "frame_inv r" "sane (pending r)" "\<forall>m \<in> set (fst (cut (pending r))). wfm m"
  shows "case run_msgs step (fst (cut (pending r))) st of
      None \<Rightarrow> frame_loop ready handle r st = None
    | Some (Inl e) \<Rightarrow> frame_loop ready handle r st = Some (Inl e)
    | Some (Inr st') \<Rightarrow> \<exists>r'. frame_loop ready handle r st = Some (Inr (r', st'))
        \<and> frame_inv r' \<and> pending r' = snd (cut (pending r))"
  using assms
proof (induction "length (pending r)" arbitrary: r st rule: less_induct)
  case less
  note inv = less.prems(1) and sane = less.prems(2)
  note h = frame_header_inv [OF inv]
  show ?case
  proof (cases "incomplete (pending r)")
    case True
    have "frame_loop ready handle r st = Some (Inr (if recv_ed_byte r = 0 then r else frame_header r, st))"
      using ready_pending [OF inv sane] True by (subst frame_loop.simps) auto
    with True h inv show ?thesis by (simp add: cut_done)
  next
    case False
    let ?n = "hdr_len (pending r)" and ?r = "frame_header r"
    let ?m = "take ?n (pending r)"
    have n: "48 \<le> ?n" "?n \<le> length (pending r)"
      using sane False by (auto simp: sane_more [OF False])
    have exp: "unat (recv_expect_byte ?r) = ?n" and mh: "mh ?r = parseMsgHdr (pending r)"
      using h False by (simp_all add: hdr_len_def)
    have lm: "length ?m = ?n" using n by simp
    have "?m = take ?n (recv_buf r)"
      using n(2) unfolding length_pending [OF inv] by (simp add: pending_def min_absorb1)
    moreover have "parseMsgHdr (?m @ drop ?n (pending r)) = parseMsgHdr ?m"
      by (rule parse_append) (use lm n(1) in simp)
    then have "parseMsgHdr (pending r) = parseMsgHdr ?m" by (simp only: append_take_drop_id)
    ultimately have m: "wfm ?m" "48 \<le> length ?m" "take (length ?m) (recv_buf ?r) = ?m"
      "mh ?r = parseMsgHdr ?m"
      using less.prems(3) n(1) mh lm by (simp_all add: cut_more [OF False])
    have le: "recv_expect_byte ?r \<le> recv_ed_byte ?r"
      using n exp length_pending [OF inv] by (simp add: word_le_nat_alt)
    from frame_consume_inv [OF conjunct1 [OF h] le] obtain r1 where
      r1: "frame_consume ?r = Inr r1" "frame_inv r1" "pending r1 = drop ?n (pending r)"
      by (auto simp: exp)
    have nz: "recv_ed_byte r \<noteq> 0" using n length_pending [OF inv] by auto
    have loop: "frame_loop ready handle r st = (case step ?m st of None \<Rightarrow> None
        | Some (Inl e) \<Rightarrow> Some (Inl e) | Some (Inr st) \<Rightarrow> frame_loop ready handle r1 st)"
      using ready_pending [OF inv sane] False nz r1(1) handle_law [OF m, of st]
      by (subst frame_loop.simps) (auto split: option.split sum.split)
    have "length (pending r1) < length (pending r)" using r1(3) n by simp
    note IH = less.hyps [OF this r1(2)]
    have "sane (pending r1)" "\<forall>m \<in> set (fst (cut (pending r1))). wfm m"
      using sane less.prems(3) by (simp_all add: r1(3) sane_more [OF False] cut_more [OF False])
    note IH = IH [OF this]
    show ?thesis
    proof (cases "step ?m st")
      case None
      with loop show ?thesis by (simp add: cut_more [OF False])
    next
      case (Some x)
      show ?thesis
      proof (cases x)
        case (Inl e)
        with Some loop show ?thesis by (simp add: cut_more [OF False])
      next
        case (Inr st1)
        with Some loop IH [of st1] show ?thesis
          by (auto simp: cut_more [OF False] r1(3) split: option.splits sum.splits)
      qed
    qed
  qed
qed

text \<open>Any number of reads of any size, from a buffer that holds less than a whole message, when no
  message of the stream stops the process.\<close>

lemma frame_feed_cuts:
  assumes "frame_inv r" "sane (pending r @ s)" "\<forall>m \<in> set (fst (cut (pending r @ s))). wfm m"
    and "fst (cut (pending r)) = []"
    and "run_msgs step (fst (cut (pending r @ s))) st = Some (Inr fin)"
  shows "\<exists>taken rest r' st'. s = taken @ rest
    \<and> frame_feed ready handle ks s r st = Some (Inr (r', st', rest))
    \<and> frame_inv r' \<and> fst (cut (pending r')) = [] \<and> pending r' = snd (cut (pending r @ taken))
    \<and> run_msgs step (fst (cut (pending r @ taken))) st = Some (Inr st')
    \<and> (0 \<notin> set ks \<and> length s \<le> length ks \<longrightarrow> rest = [])"
  using assms
proof (induction ks arbitrary: s r st)
  case Nil
  show ?case
  proof -
    have "cut (pending r) = ([], pending r)"
      using Nil(4) by (cases "incomplete (pending r)") (simp_all add: cut_done cut_more)
    note c = this
    show ?thesis
      by (rule exI [of _ "[]"], intro exI [of _ s] exI [of _ r] exI [of _ st]) (use Nil(1) c in simp)
  qed
next
  case (Cons k ks)
  let ?c = "take (min k (RECVBUF_LEN - unat (recv_ed_byte r))) s"
  have dn: "cut (pending r) = ([], pending r)"
    using Cons.prems(4) by (cases "incomplete (pending r)") (simp_all add: cut_done cut_more)
  have lt: "unat (recv_ed_byte r) < RECVBUF_LEN"
    using sane_cut_rest [OF conjunct1 [OF sane_append [OF Cons.prems(2)]]] dn Cons.prems(1)
    by (simp add: length_pending)
  show ?case
  proof (cases "?c = []")
    case True
    then have e: "k = 0 \<or> s = []" using lt by auto
    from Cons.IH [OF Cons.prems] obtain taken rest r' st' where ih: "s = taken @ rest"
      "frame_feed ready handle ks s r st = Some (Inr (r', st', rest))"
      "frame_inv r'" "fst (cut (pending r')) = []" "pending r' = snd (cut (pending r @ taken))"
      "run_msgs step (fst (cut (pending r @ taken))) st = Some (Inr st')" by blast
    from True have "frame_feed ready handle (k # ks) s r st = frame_feed ready handle ks s r st"
      by (simp only: frame_feed.simps Let_def simp_thms if_True)
    with ih e show ?thesis by fastforce
  next
    case False
    let ?p = "pending r @ ?c"
    have split: "s = ?c @ drop (length ?c) s"
      by (metis append_take_drop_id length_take min.commute min_def take_all_iff linear)
    have rd: "frame_inv (frame_read r ?c)" "pending (frame_read r ?c) = ?p"
      using frame_read_inv [OF Cons.prems(1), of ?c] by simp_all
    define s' where "s' = drop (length ?c) s"
    have ps: "pending r @ s = ?p @ s'" using split unfolding s'_def by (metis append.assoc)
    note sane = sane_append [OF Cons.prems(2) [unfolded ps]]
    have cut: "fst (cut (pending r @ s)) = fst (cut ?p) @ fst (cut (snd (cut ?p) @ s'))"
      unfolding ps by (subst cut_append) simp
    from Cons.prems(5) obtain st1 where
      st1: "run_msgs step (fst (cut ?p)) st = Some (Inr st1)"
      "run_msgs step (fst (cut (snd (cut ?p) @ s'))) st1 = Some (Inr fin)"
      unfolding cut run_msgs_append by (auto split: option.splits sum.splits)
    have wfs: "\<forall>m \<in> set (fst (cut ?p)). wfm m" "\<forall>m \<in> set (fst (cut (snd (cut ?p) @ s'))). wfm m"
      using Cons.prems(3) unfolding cut by auto
    from frame_loop_cuts [OF rd(1), unfolded rd(2), OF conjunct1 [OF sane] wfs(1), of st] st1(1)
    obtain r1 where r1: "frame_loop ready handle (frame_read r ?c) st = Some (Inr (r1, st1))"
      "frame_inv r1" "pending r1 = snd (cut ?p)" by auto
    have step: "frame_feed ready handle (k # ks) s r st = frame_feed ready handle ks s' r1 st1"
      using False r1(1) by (simp only: frame_feed.simps Let_def if_False option.case sum.case prod.case s'_def)
    from Cons.IH [OF r1(2), unfolded r1(3), OF conjunct2 [OF sane] wfs(2) cut_rest st1(2)]
    obtain taken rest r' st' where ih:
      "s' = taken @ rest" "frame_feed ready handle ks s' r1 st1 = Some (Inr (r', st', rest))"
      "frame_inv r'" "fst (cut (pending r')) = []" "pending r' = snd (cut (pending r1 @ taken))"
      "run_msgs step (fst (cut (pending r1 @ taken))) st1 = Some (Inr st')"
      "0 \<notin> set ks \<and> length s' \<le> length ks \<longrightarrow> rest = []" unfolding r1(3) by blast
    have "s = (?c @ taken) @ rest" using split ih(1) unfolding s'_def by simp
    moreover have "cut (pending r @ ?c @ taken) = (fst (cut ?p) @ fst (cut (pending r1 @ taken)), snd (cut (pending r1 @ taken)))"
      using cut_append [of ?p taken] by (simp add: r1(3))
    moreover have "length s' < length s" using False unfolding s'_def by simp
    ultimately show ?thesis
      using ih step st1(1)
      by - (rule exI [of _ "?c @ taken"], rule exI [of _ rest], rule exI [of _ r'], rule exI [of _ st'],
          auto simp: run_msgs_append)
  qed
qed

end

lemma ready_fd_law:
  "unat (recv_ed_byte r) \<le> RECVBUF_LEN \<Longrightarrow> ready_fd r \<longleftrightarrow> recv_expect_byte r \<le> recv_ed_byte r"
  by (simp add: ready_fd_def)

lemma ready_ssock_law:
  assumes "unat (recv_ed_byte r) \<le> RECVBUF_LEN"
    and "unat (recv_expect_byte r) \<le> RECVBUF_LEN \<or> recv_expect_byte r = word_of_int BYTE_MAX"
  shows "ready_ssock r \<longleftrightarrow> recv_expect_byte r \<le> recv_ed_byte r"
proof -
  have "unat (recv_expect_byte r) < 2147483648"
    using assms(2) by (auto simp: RECVBUF_LEN_def BYTE_MAX_unat)
  then show ?thesis
    using assms(1) by (simp add: ready_ssock_def to_s32_def sint_small RECVBUF_LEN_def word_le_def)
qed

text \<open>A stream of whole messages is cut exactly at the messages; for a queue of tokens these are the tokens.\<close>

definition framed :: "byte list \<Rightarrow> bool" where
  "framed b \<longleftrightarrow> 48 \<le> length b \<and> length b \<le> RECVBUF_LEN \<and> hdr_len b = length b"

definition token_framed :: "MsgToken \<Rightarrow> bool" where
  "token_framed t \<longleftrightarrow> framed (token_bytes t)"

lemma cut_framed:
  "\<forall>b \<in> set bs. framed b \<Longrightarrow> cut (concat bs) = (bs, []) \<and> sane (concat bs)"
proof (induction bs)
  case Nil
  then show ?case by (simp add: cut_done sane.simps)
next
  case (Cons b bs)
  let ?r = "concat bs"
  have f: "48 \<le> length b" "length b \<le> RECVBUF_LEN" "hdr_len (b @ ?r) = length b"
    using Cons.prems by (auto simp: framed_def hdr_len_append)
  then have "\<not> incomplete (b @ ?r)" by auto
  with Cons f show ?case by (simp add: cut_more sane_more)
qed

lemma cut_tokens:
  "\<forall>t \<in> set ts. token_framed t \<Longrightarrow>
     cut (concat (map token_bytes ts)) = (map token_bytes ts, []) \<and> sane (concat (map token_bytes ts))"
  by (rule cut_framed) (simp add: token_framed_def)

context frame_client
begin

lemma frame_feed_all:
  assumes "\<forall>b \<in> set bs. framed b \<and> wfm b" and "run_msgs step bs st = Some (Inr fin)"
    and "0 \<notin> set ks" and "length (concat bs) \<le> length ks"
  shows "\<exists>r'. frame_feed ready handle ks (concat bs) rbuf_init st = Some (Inr (r', fin, [])) \<and> pending r' = []"
proof -
  have c: "cut (concat bs) = (bs, [])" "sane (concat bs)" using cut_framed [of bs] assms(1) by auto
  have nil: "cut [] = ([], [])" by (simp add: cut_done)
  from frame_feed_cuts [OF frame_inv_init(1), where s = "concat bs" and st = st and fin = fin and ks = ks]
  obtain taken rest r' st' where "concat bs = taken @ rest" "rest = []"
    "frame_feed ready handle ks (concat bs) rbuf_init st = Some (Inr (r', st', rest))"
    "pending r' = snd (cut taken)" "run_msgs step (fst (cut taken)) st = Some (Inr st')"
    using assms c nil by (auto simp: frame_inv_init)
  then show ?thesis using assms(2) c by auto
qed

end

lemma token_framed_create:
  assumes "length p = unat plen" "length p \<le> 8858"
    and mt: "createMsgToken bid ty (Some p) plen padding now = Inr mt"
  shows "token_framed mt"
proof -
  from create_token_spec [of p plen bid ty padding now] assms have
    f: "tok_buf mt = enc_MsgHdr \<lparr>mh_bcd_id = bid, mh_type = ty, mh_len = 48 + plen + padding_len mt,
        mh_tv = now\<rparr> @ p" "length (token_bytes mt) = unat (mh_len (parseMsgHdr (tok_buf mt)))"
    "length (token_bytes mt) \<le> 8906" by auto
  then have "48 \<le> length (tok_buf mt)" by simp
  moreover have "hdr_len (token_bytes mt) = unat (mh_len (parseMsgHdr (tok_buf mt)))"
    using calculation by (simp add: token_bytes_def hdr_len_append hdr_len_def parse_append)
  ultimately show ?thesis
    using f(2,3) by (simp add: token_framed_def framed_def token_bytes_def RECVBUF_LEN_def)
qed

subsection \<open>Properties\<close>

text \<open>C23: Framing survives chunking.  The messages that a peer queued arrive one by one, complete and in
  their order, whatever pieces the socket delivers them in: when every message is framed and known to
  the thread's handler, the reads end in the state that the handler reaches on the list of messages,
  with an empty buffer.\<close>

theorem frames_survive_chunking:
  assumes "frame_client ready handle wfm step"
    and "\<forall>t \<in> set ts. token_framed t \<and> wfm (token_bytes t)"
    and "run_msgs step (map token_bytes ts) st = Some (Inr fin)"
    and "0 \<notin> set ks" and "length (concat (map token_bytes ts)) \<le> length ks"
  shows "\<exists>r'. frame_feed ready handle ks (concat (map token_bytes ts)) rbuf_init st = Some (Inr (r', fin, []))
    \<and> pending r' = []"
  by (rule frame_client.frame_feed_all [OF assms(1) _ assms(3-5)]) (use assms(2) in \<open>simp add: token_framed_def\<close>)

theorem frames_survive_chunking_witness:
  "\<exists>t r'. createMsgToken \<lparr>app_id = \<lparr>msb = 1, lsb = 2\<rparr>, data_id = 3\<rparr> MSG_PATCH_REQ (Some [1, 2, 3, 4, 5, 6, 7, 8])
      8 False (Timeval 5 6) = Inr t \<and>
    frame_feed ready_fd (\<lambda>r st. Some (Inr (True, mh_type (mh r) # st))) (replicate 20000 7)
      (concat (map token_bytes [t, t])) rbuf_init [] = Some (Inr (r', [MSG_PATCH_REQ, MSG_PATCH_REQ], []))"
proof -
  let ?p = "[1, 2, 3, 4, 5, 6, 7, 8] :: byte list" and ?id = "\<lparr>app_id = \<lparr>msb = 1, lsb = 2\<rparr>, data_id = 3\<rparr>"
  let ?handle = "\<lambda>r st. Some (Inr (True, mh_type (mh r) # st))"
    and ?step = "\<lambda>m st. Some (Inr (mh_type (parseMsgHdr m) # st))"
  from create_token_spec [of ?p 8 ?id MSG_PATCH_REQ False "Timeval 5 6"] obtain t where
    t: "createMsgToken ?id MSG_PATCH_REQ (Some ?p) 8 False (Timeval 5 6) = Inr t"
    and b: "tok_buf t = enc_MsgHdr \<lparr>mh_bcd_id = ?id, mh_type = MSG_PATCH_REQ, mh_len = 48 + 8 + padding_len t,
        mh_tv = Timeval 5 6\<rparr> @ ?p" and l: "length (token_bytes t) \<le> 8906" by auto
  have f: "token_framed t" by (rule token_framed_create [OF _ _ t]) simp_all
  have "peek 24 4 (token_bytes t) = rev (le_enc 4 MSG_PATCH_REQ)"
    by (simp add: token_bytes_def b peek_append_left) (simp add: enc_MsgHdr_def peek_skip peek_hd)
  then have ty: "mh_type (parseMsgHdr (token_bytes t)) = MSG_PATCH_REQ"
    by (simp add: parseMsgHdr_def le_dec_rev)
  have c: "frame_client ready_fd ?handle (\<lambda>_. True) ?step"
    by unfold_locales (simp_all add: ready_fd_law)
  have "\<exists>r'. frame_feed ready_fd ?handle (replicate 20000 7) (concat (map token_bytes [t, t])) rbuf_init []
      = Some (Inr (r', [MSG_PATCH_REQ, MSG_PATCH_REQ], [])) \<and> pending r' = []"
    by (rule frames_survive_chunking [OF c]) (use f ty l in simp_all)
  with t show ?thesis by blast
qed

lemma zero_length_step:
  assumes "frame_inv r" "48 \<le> length (pending r)" "hdr_len (pending r) = 0"
  shows "recv_ed_byte r \<noteq> 0" "ready_fd (frame_header r)" "frame_inv (frame_header r)"
    "\<exists>r1. frame_consume (frame_header r) = Inr r1 \<and> frame_inv r1 \<and> pending r1 = pending r"
proof -
  note h = frame_header_inv [OF assms(1)]
  show inv: "frame_inv (frame_header r)" using h by simp
  have e: "recv_expect_byte (frame_header r) = 0"
    using h assms(2,3) by (simp add: hdr_len_def unat_eq_0)
  then show "ready_fd (frame_header r)" by (simp add: ready_fd_def)
  show "recv_ed_byte r \<noteq> 0" using assms(2) length_pending [OF assms(1)] by auto
  show "\<exists>r1. frame_consume (frame_header r) = Inr r1 \<and> frame_inv r1 \<and> pending r1 = pending r"
    using frame_consume_inv [OF inv] e by auto
qed

lemma zero_length_result:
  assumes "frame_loop ready handle r st = Some y"
  shows "ready = ready_fd \<Longrightarrow> frame_inv r \<and> 48 \<le> length (pending r) \<and> hdr_len (pending r) = 0 \<Longrightarrow>
    \<exists>e. y = Inl e"
  using assms
proof (induction ready handle r st y rule: frame_loop.raw_induct [rotated, consumes 1, case_names step])
  case (step loop ready handle r st y)
  from "step.prems" have inv: "frame_inv r" and len: "48 \<le> length (pending r)" and z: "hdr_len (pending r) = 0"
    and rd: "ready = ready_fd" by auto
  note zs = zero_length_step [OF inv len z]
  from zs(4) obtain r1 where r1: "frame_consume (frame_header r) = Inr r1" "frame_inv r1" "pending r1 = pending r"
    by blast
  show ?case
  proof (cases "handle (frame_header r) st")
    case None
    with "step.hyps" zs rd show ?thesis by simp
  next
    case (Some x)
    show ?thesis
    proof (cases x)
      case (Inl e)
      with Some "step.hyps" zs rd show ?thesis by auto
    next
      case (Inr b)
      then obtain dn st1 where b: "x = Inr (dn, st1)" by (cases b) auto
      have "loop ready handle (if dn then r1 else frame_header r) st1 = Some y"
        using Some b "step.hyps" zs rd r1(1) by (simp split: if_splits)
      from "step.IH" [OF this rd] r1 zs(3) len z show ?thesis by (cases dn) auto
    qed
  qed
qed

text \<open>C24: A message whose header announces length 0 is fatal for every thread: it is never consumed,
  so, whatever the handler does, the loop does not come back to the \<^verbatim>\<open>select\<close>.\<close>

theorem zero_length_never_returns:
  assumes "frame_inv r" and "48 \<le> length (pending r)" and "hdr_len (pending r) = 0"
  shows "frame_loop ready_fd handle r st \<noteq> Some (Inr out)"
  using zero_length_result [where ready = ready_fd and handle = handle and r = r and st = st and y = "Inr out"]
    assms by auto

theorem zero_length_never_returns_witness:
  "\<forall>out. frame_loop ready_fd (\<lambda>r st. Some (Inr (True, st + 1 :: nat))) (frame_read rbuf_init (replicate 60 0)) 0
     \<noteq> Some (Inr out)"
proof -
  have c: "length (replicate 60 (0 :: byte)) \<le> RECVBUF_LEN - unat (recv_ed_byte rbuf_init)"
    by (simp add: rbuf_init_def RECVBUF_LEN_def)
  note rd = frame_read_inv [OF frame_inv_init(1) c]
  have "hdr_len (replicate 60 0) = 0" by code_simp
  with rd show ?thesis
    by (intro allI zero_length_never_returns) (auto simp: frame_inv_init)
qed

end
