(* ===== verification/Recver.thy ===== *)
theory Recver
  imports Complex_Main MsgQueue "HOL-Library.Signed_Division"
begin

text \<open>
  The receiver of one broadcast (\<^verbatim>\<open>RecverState\<close> of \<^verbatim>\<open>hero.h\<close> and its functions in
  \<^verbatim>\<open>hero.c\<close>), the part of \<^verbatim>\<open>process_rings\<close> in \<^verbatim>\<open>thread_data.c\<close> that stores a packet of
  the fast path, and the part of \<^verbatim>\<open>thread_recv.c\<close> that stores a patch of the slow path.  The received file is
  a byte list; the two \<^verbatim>\<open>FILE\<close> pointers of a receiver are positions in it, \<open>None\<close> when closed.
  Allocations succeed.
\<close>

subsection \<open>State\<close>

record FileMetadata =
  fm_start :: databyte
  fm_jump :: databyte

text \<open>A buffer obtained from \<^verbatim>\<open>malloc\<close>: never set, allocated, or freed with the pointer left
  behind.\<close>

datatype membuf = NullBuf | Buf (buf_bytes: "byte list") | FreedBuf

record RecverState =
  lock_processingFastData :: bool
  r_is_stats_logged :: bool
  r_bcd_id :: BcdID
  r_app_id_str :: "byte list"
  is_seq_fst :: bool
  seq_fst :: seqnum
  seq_lst :: seqnum
  seq_tail :: seqnum
  is_seq_zero :: bool
  r_data_size :: databyte
  r_seq_max :: seqnum
  r_byte_payload :: u16
  r_byte_payload_min :: u16
  tail_patch_buffer :: membuf
  tail_patch_buffer_len :: databyte
  fd_p :: "nat option"
  fd_patch_p :: "nat option"
  num_fast_recv_ed :: pktnum
  num_slow_recv_ed :: pktnum
  is_fastpath :: bool
  is_finished :: bool
  fileMetadata :: FileMetadata
  r_fds_p :: "nat option"
  tv_start_fastpath :: timeval
  tv_finish_fastpath :: timeval
  tv_finish :: timeval
  r_bcd_filename :: string
  r_delete_counter :: u16

subsection \<open>Files\<close>

text \<open>Writing at a position, which leaves a hole of zeros when the position is behind the end.\<close>

definition write_at :: "byte list \<Rightarrow> nat \<Rightarrow> byte list \<Rightarrow> byte list" where
  "write_at file pos bs = (if bs = [] then file
     else take pos (file @ replicate (pos - length file) 0) @ bs @ drop (pos + length bs) file)"

text \<open>\<^verbatim>\<open>extendFile\<close> moves the position of the file by \<open>ext\<close>; its loop runs once when there is
  something to extend, since \<^verbatim>\<open>lseek\<close> reaches the target.\<close>

definition extendFile :: "nat \<Rightarrow> databyte \<Rightarrow> nat res" where
  "extendFile pos ext = assert_c (0 \<le> int pos + ext) (Inr (nat (int pos + ext)))"

definition getFilePosition :: "seqnum \<Rightarrow> seqnum \<Rightarrow> seqnum \<Rightarrow> databyte \<Rightarrow> databyte \<Rightarrow> databyte" where
  "getFilePosition cur first tail payload start =
     (if first \<le> cur then
        (if 0 < tail \<and> tail < cur then int (unat cur) * payload
         else int (unat (cur - first)) * payload)
      else start + int (unat cur) * payload)"

subsection \<open>Life cycle\<close>

text \<open>\<^verbatim>\<open>createRecverState\<close>: \<open>dir_ok\<close>, \<open>open1\<close> and \<open>open2\<close> are the results of \<^verbatim>\<open>stat\<close> and of
  the two \<^verbatim>\<open>fopen\<close>.\<close>

definition createRecverState :: "bytes_t \<Rightarrow> bool \<Rightarrow> bool \<Rightarrow> bool \<Rightarrow> BcdID \<Rightarrow> RecverState option" where
  "createRecverState data_payload_len dir_ok open1 open2 bid =
     (if \<not> dir_ok then None
      else if \<not> open1 then None
      else if \<not> open2 then None
      else Some \<lparr>lock_processingFastData = False, r_is_stats_logged = False, r_bcd_id = bid,
        r_app_id_str = replicate APPID_LEN 0, is_seq_fst = False, seq_fst = 0, seq_lst = 0, seq_tail = 0,
        is_seq_zero = False, r_data_size = 0, r_seq_max = 0, r_byte_payload = ucast data_payload_len,
        r_byte_payload_min = 0, tail_patch_buffer = NullBuf, tail_patch_buffer_len = 0,
        fd_p = Some 0, fd_patch_p = Some 0, num_fast_recv_ed = 0, num_slow_recv_ed = 0,
        is_fastpath = False, is_finished = False, fileMetadata = \<lparr>fm_start = -1, fm_jump = -1\<rparr>,
        r_fds_p = None, tv_start_fastpath = Timeval 0 0, tv_finish_fastpath = Timeval 0 0,
        tv_finish = Timeval 0 0, r_bcd_filename = BcdIdtoFilename bid, r_delete_counter = 0\<rparr>)"

text \<open>The first block of \<^verbatim>\<open>recverState_updateBcdMetadata\<close>: sizes.  The quotient of doubles rounds to
  its exact ceiling for all sizes whose packet count fits a \<^verbatim>\<open>seqnum_t\<close>.\<close>

definition update_sizes :: "RecverState \<Rightarrow> BcdMetadata \<Rightarrow> RecverState res" where
  "update_sizes r bm =
     (let r = r\<lparr>r_data_size := bm_data_size bm\<rparr>
      in assert_c (length (takeWhile (\<lambda>b. b \<noteq> 0) (bm_app_id bm)) < APPID_LEN)
        (assert_c (r_data_size r \<noteq> 0)
          (let r = r\<lparr>r_app_id_str := strncpy (bm_app_id bm) APPID_LEN\<rparr>
           in if r_byte_payload r = 0 then Inl DivByZero
              else (let P = int (unat (r_byte_payload r));
                        r = r\<lparr>r_seq_max := word_of_int (\<lceil>rat_of_int (r_data_size r) / rat_of_int P\<rceil>),
                              r_byte_payload_min := word_of_int (r_data_size r smod P)\<rparr>
                    in Inr (if r_byte_payload_min r = 0 then r\<lparr>r_byte_payload_min := r_byte_payload r\<rparr> else r)))))"

text \<open>The buffer for the end of the data, when the zero packet was not on the fast path.  The length is
  computed in 32 bits and read as an \<^verbatim>\<open>int\<close>.\<close>

definition tail_len :: "RecverState \<Rightarrow> int" where
  "tail_len r = to_s32 ((r_seq_max r - seq_tail r - 1 - 1) * ucast (r_byte_payload r)
     + ucast (r_byte_payload_min r))"

definition update_tail :: "RecverState \<Rightarrow> RecverState option" where
  "update_tail r =
     (if seq_tail r \<noteq> 0 then
        (if tail_patch_buffer r \<noteq> NullBuf then None
         else if tail_len r \<le> 0 then Some (r\<lparr>tail_patch_buffer_len := 0\<rparr>)
         else Some (r\<lparr>tail_patch_buffer := Buf (replicate (nat (tail_len r)) 0),
                tail_patch_buffer_len := tail_len r\<rparr>))
      else Some r)"

definition start_of :: "RecverState \<Rightarrow> databyte" where
  "start_of r = (r_data_size r - int (unat (ucast (r_byte_payload r) * seq_fst r))
     - tail_patch_buffer_len r) smod r_data_size r"

definition updateBcdMetadata :: "RecverState \<Rightarrow> BcdMetadata \<Rightarrow> (databyte \<times> RecverState) res" where
  "updateBcdMetadata r bm =
     (if is_seq_zero r then Inr (-1, r)
      else rbind (update_sizes r bm) (\<lambda>r.
        case update_tail r of None \<Rightarrow> Inr (-1, r)
        | Some r \<Rightarrow>
            (let fm = fileMetadata r;
                 fm = (if fm_start fm < 0 then fm\<lparr>fm_start := start_of r\<rparr> else fm);
                 fm = fm\<lparr>fm_jump := r_data_size r - tail_patch_buffer_len r\<rparr>;
                 r = r\<lparr>fileMetadata := fm, is_seq_zero := True\<rparr>
             in Inr (tail_patch_buffer_len r, r))))"

definition hasGottenAllData :: "RecverState \<Rightarrow> bool" where
  "hasGottenAllData r \<longleftrightarrow> word_of_int (num_fast_recv_ed r + num_slow_recv_ed r) = r_seq_max r"

text \<open>\<^verbatim>\<open>recverState_finishRecv\<close>: both positions go to the end of the same file, the tail buffer is
  appended, the files are closed and the buffer is freed (its pointer stays).\<close>

definition finishRecv :: "timeval \<Rightarrow> RecverState \<Rightarrow> byte list \<Rightarrow> (RecverState \<times> byte list) res" where
  "finishRecv now r file =
     deref (fd_p r) (\<lambda>_. deref (fd_patch_p r) (\<lambda>_.
       let jump = int (length file);
           r = r\<lparr>fileMetadata := (fileMetadata r)\<lparr>fm_jump := jump\<rparr>\<rparr>;
           n = nat (tail_patch_buffer_len r);
           close = (\<lambda>file. Inr (r\<lparr>is_finished := True, tv_finish := now, fd_p := None, fd_patch_p := None,
             tail_patch_buffer := (if tail_patch_buffer r = NullBuf then NullBuf else FreedBuf)\<rparr>, file))
       in case tail_patch_buffer r of
            NullBuf \<Rightarrow> if n = 0 then close file else Inl NullDeref
          | FreedBuf \<Rightarrow> Inl UseAfterFree
          | Buf bs \<Rightarrow> if n \<le> length bs then close (write_at file (length file) (take n bs)) else Inl OutOfBounds))"

definition stopFathPath :: "timeval \<Rightarrow> RecverState \<Rightarrow> RecverState" where
  "stopFathPath now r = (if is_fastpath r then r\<lparr>tv_finish_fastpath := now, is_fastpath := False\<rparr> else r)"

definition startFathPath :: "timeval \<Rightarrow> RecverState \<Rightarrow> RecverState" where
  "startFathPath now r = (if \<not> is_fastpath r then r\<lparr>tv_start_fastpath := now, is_fastpath := True\<rparr> else r)"

text \<open>\<^verbatim>\<open>closeFile\<close> on the positions, and what \<^verbatim>\<open>deleteRecverState\<close> does before it frees the
  structure: the buffer is passed to \<^verbatim>\<open>free\<close> only when the pointer is null.\<close>

definition closeFile :: "nat option \<Rightarrow> nat option" where
  "closeFile fd = None"

definition deleteRecverState :: "RecverState \<Rightarrow> (string \<rightharpoonup> byte list) \<Rightarrow> (string \<rightharpoonup> byte list) \<times> membuf" where
  "deleteRecverState r files = (files(r_bcd_filename r := None), tail_patch_buffer r)"

text \<open>What \<^verbatim>\<open>recverState_stats\<close> changes, and the numbers it logs: time on the fast path, after it, and
  in total.\<close>

definition recverState_stats :: "RecverState \<Rightarrow> RecverState \<times> (timeval \<times> timeval \<times> timeval) option" where
  "recverState_stats r =
     (if r_is_stats_logged r then (r, None)
      else (r\<lparr>r_is_stats_logged := True\<rparr>,
        Some (timersub (tv_finish_fastpath r) (tv_start_fastpath r), timersub (tv_finish r) (tv_finish_fastpath r),
          timersub (tv_finish r) (tv_start_fastpath r))))"

subsection \<open>The fast path\<close>

definition createPatchTuple :: "seqnum \<Rightarrow> seqnum \<Rightarrow> PatchTuple" where
  "createPatchTuple s e = \<lparr>stt_seq = s, end_seq = e\<rparr>"

text \<open>What the branches for one packet decide: the marks and the patch tuple.\<close>

record fp_marks =
  fp_zero :: bool
  fp_jump :: bool
  fp_error :: bool
  fp_pt :: PatchTuple

definition fp_none :: fp_marks where
  "fp_none = \<lparr>fp_zero = False, fp_jump = False, fp_error = False, fp_pt = createPatchTuple 0 0\<rparr>"

text \<open>The first packet sets the state, and the last sequence number to the one before it.\<close>

definition fp_first :: "RecverState \<Rightarrow> DataHdr \<Rightarrow> RecverState \<times> bool" where
  "fp_first r dh =
     (if \<not> is_seq_fst r
      then (r\<lparr>seq_lst := (if seq_num dh \<noteq> 0 then seq_num dh - 1 else SEQNUM_MAX), seq_fst := seq_num dh,
              is_seq_fst := True\<rparr>, True)
      else (r, False))"

text \<open>Writing the payload of the packet \<open>p\<close> at the position of the fast path.\<close>

definition fp_write :: "RecverState \<Rightarrow> byte list \<Rightarrow> byte list \<Rightarrow> DataHdr \<Rightarrow> (RecverState \<times> byte list) res" where
  "fp_write r file p dh = deref (fd_p r) (\<lambda>pos.
     if DATA_PAYLOAD_OFFSET + unat (dh_len dh) \<le> length p
     then (let bs = peek DATA_PAYLOAD_OFFSET (unat (dh_len dh)) p
           in Inr (r\<lparr>fd_p := Some (pos + length bs), num_fast_recv_ed := num_fast_recv_ed r + 1\<rparr>,
                   write_at file pos bs))
     else Inl OutOfBounds)"

definition fp_extend :: "RecverState \<Rightarrow> databyte \<Rightarrow> RecverState res" where
  "fp_extend r ext = deref (fd_p r) (\<lambda>pos. rbind (extendFile pos ext) (\<lambda>pos. Inr (r\<lparr>fd_p := Some pos\<rparr>)))"

text \<open>A packet behind a gap of \<open>ext\<close> bytes: hole, data, and the patch tuple of the gap.\<close>

definition fp_gap :: "RecverState \<Rightarrow> byte list \<Rightarrow> byte list \<Rightarrow> DataHdr \<Rightarrow> databyte \<Rightarrow> seqnum \<Rightarrow> bool
    \<Rightarrow> (RecverState \<times> byte list \<times> fp_marks) res" where
  "fp_gap r file p dh ext gap_end zero =
     (let pt = createPatchTuple (seq_lst r + 1) gap_end
      in rbind (fp_extend r ext) (\<lambda>r. rbind (fp_write r file p dh) (\<lambda>(r, file).
           Inr (r, file, fp_none\<lparr>fp_zero := zero, fp_jump := True, fp_pt := pt\<rparr>))))"

text \<open>The zero packet, with the metadata behind its data.\<close>

definition fp_seq_zero :: "RecverState \<Rightarrow> byte list \<Rightarrow> byte list \<Rightarrow> DataHdr
    \<Rightarrow> (RecverState \<times> byte list \<times> fp_marks) res" where
  "fp_seq_zero r file p dh =
     (if length p < DATA_PAYLOAD_OFFSET + unat (dh_len dh) + BCDMETADATA_LEN then Inl OutOfBounds
      else rbind (updateBcdMetadata r (parseBcdMetadata p (DATA_PAYLOAD_OFFSET + unat (dh_len dh)))) (\<lambda>(ret, r).
        if ret \<ge> 0 then
          (if seq_lst r = r_seq_max r - 1 \<or> seq_lst r = SEQNUM_MAX
           then rbind (fp_write r file p dh) (\<lambda>(r, file). Inr (r, file, fp_none\<lparr>fp_zero := True\<rparr>))
           else if seq_fst r < seq_lst r \<and> seq_fst r \<noteq> 0
           then fp_gap r file p dh (int (unat (r_seq_max r - seq_lst r - 2)) * int (unat (r_byte_payload r))
                  + int (unat (r_byte_payload_min r))) (r_seq_max r) True
           else Inr (r, file, fp_none\<lparr>fp_error := True\<rparr>))
        else Inr (r, file, fp_none\<lparr>fp_error := True\<rparr>)))"

text \<open>A loss around the end of the data: the tail sequence number and the start position are set.\<close>

definition fp_wrap :: "RecverState \<Rightarrow> byte list \<Rightarrow> byte list \<Rightarrow> DataHdr
    \<Rightarrow> (RecverState \<times> byte list \<times> fp_marks) res" where
  "fp_wrap r file p dh =
     assert_c (seq_tail r = 0) (assert_c (fm_start (fileMetadata r) = -1)
       (deref (fd_p r) (\<lambda>pos.
          let r = r\<lparr>seq_tail := seq_lst r, fileMetadata := (fileMetadata r)\<lparr>fm_start := int pos\<rparr>\<rparr>
          in fp_gap r file p dh (int (unat (seq_num dh)) * int (unat (r_byte_payload r))) (seq_num dh) False)))"

definition fp_place :: "RecverState \<Rightarrow> byte list \<Rightarrow> byte list \<Rightarrow> DataHdr
    \<Rightarrow> (RecverState \<times> byte list \<times> fp_marks) res" where
  "fp_place r file p dh =
     (let s = seq_num dh; gap = int (unat (s - seq_lst r - 1)) * int (unat (r_byte_payload r))
      in if s \<noteq> 0 \<and> s - seq_lst r = 1
         then rbind (fp_write r file p dh) (\<lambda>(r, file). Inr (r, file, fp_none))
         else if s = 0 then fp_seq_zero r file p dh
         else if seq_lst r < s then
           (if seq_lst r < seq_fst r \<and> s < seq_fst r then fp_gap r file p dh gap s False
            else if seq_fst r \<le> seq_lst r then fp_gap r file p dh gap s False
            else Inr (r, file, fp_none\<lparr>fp_error := True\<rparr>))
         else if s < seq_fst r \<and> seq_fst r < seq_lst r then fp_wrap r file p dh
         else Inr (r, file, fp_none\<lparr>fp_error := True\<rparr>))"

text \<open>The last packet of the round stops the fast path, and finishes when nothing is missing.\<close>

definition fp_is_last :: "RecverState \<Rightarrow> DataHdr \<Rightarrow> bool" where
  "fp_is_last r dh \<longleftrightarrow> seq_fst r \<noteq> 0 \<and> seq_num dh + 1 = seq_fst r
     \<or> seq_fst r = 0 \<and> seq_num dh + 1 = r_seq_max r"

definition fp_last :: "timeval \<Rightarrow> RecverState \<Rightarrow> byte list \<Rightarrow> DataHdr \<Rightarrow> (RecverState \<times> byte list \<times> bool) res" where
  "fp_last now r file dh =
     (if fp_is_last r dh then
        (let r = stopFathPath now r
         in deref (fd_p r) (\<lambda>pos.
           let r = r\<lparr>fileMetadata := (fileMetadata r)\<lparr>fm_jump := int pos\<rparr>\<rparr>
           in if hasGottenAllData r
              then rbind (finishRecv now r file) (\<lambda>(r, file). Inr (r, file, True))
              else Inr (r, file, False)))
      else Inr (r, file, False))"

text \<open>A message for another thread: the bytes that go into the pipe.\<close>

definition pipe_msg :: "timeval \<Rightarrow> BcdID \<Rightarrow> msg_type \<Rightarrow> byte list \<Rightarrow> byte list" where
  "pipe_msg now bid ty payload =
     createMsgHdr (replicate MSG_HDRLEN 0) bid ty (of_nat (MSG_HDRLEN + length payload)) now @ payload"

definition fp_messages :: "timeval \<Rightarrow> RecverState \<Rightarrow> DataHdr \<Rightarrow> bool \<Rightarrow> bool \<Rightarrow> fp_marks \<Rightarrow> byte list" where
  "fp_messages now r dh first all mk =
     (if first then pipe_msg now (r_bcd_id r) MSG_N2C_SEQ_FIRST (createMsgSeqFirst (seq_num dh)) else [])
   @ (if fp_zero mk \<and> 1 < r_seq_max r then pipe_msg now (r_bcd_id r) MSG_N2C_SEQ_ZERO [] else [])
   @ (if all \<and> 1 < r_seq_max r then pipe_msg now (r_bcd_id r) MSG_N2C_SEQ_ALL [] else [])
   @ (if fp_jump mk then pipe_msg now (r_bcd_id r) MSG_N2C_SEQ_JUMP (patchTuple_bytes (fp_pt mk)) else [])"

text \<open>A packet for a receiver whose connection to the master is known: the new receiver, the new file,
  and what is written to the pipe of the control thread.\<close>

definition fast_path :: "timeval \<Rightarrow> RecverState \<Rightarrow> byte list \<Rightarrow> byte list \<Rightarrow> DataHdr
    \<Rightarrow> (RecverState \<times> byte list \<times> byte list) res" where
  "fast_path now r file p dh =
     (let r = r\<lparr>lock_processingFastData := True\<rparr>
      in rbind
        (if is_fastpath r then
           (case fp_first r dh of (r, first) \<Rightarrow>
             rbind (fp_place r file p dh) (\<lambda>(r, file, mk).
               let r = (if fp_error mk then r else r\<lparr>seq_lst := seq_num dh\<rparr>)
               in rbind (fp_last now r file dh) (\<lambda>(r, file, all).
                    Inr (r, file, fp_messages now r dh first all mk))))
         else Inr (r, file, []))
        (\<lambda>(r, file, out). Inr (r\<lparr>lock_processingFastData := False\<rparr>, file, out)))"

subsection \<open>The slow path\<close>

text \<open>Storing a patch (\<^verbatim>\<open>MSG_PATCH_DATA\<close>): \<open>m\<close> is the receive buffer; the data header is behind the
  message header, the data behind it.  \<open>None\<close> is the early \<^verbatim>\<open>break\<close>.\<close>

definition patch_data :: "byte list \<Rightarrow> DataHdr \<Rightarrow> byte list" where
  "patch_data m dh = peek (MSG_HDRLEN + DATA_HDRLEN) (unat (dh_len dh)) m"

definition patch_offset :: "RecverState \<Rightarrow> DataHdr \<Rightarrow> databyte" where
  "patch_offset r dh = getFilePosition (seq_num dh) (seq_fst r) (seq_tail r)
     (int (unat (r_byte_payload r))) (fm_start (fileMetadata r))"

definition patch_tail :: "RecverState \<Rightarrow> byte list \<Rightarrow> byte list \<Rightarrow> DataHdr \<Rightarrow> (RecverState \<times> byte list) res" where
  "patch_tail r file m dh =
     (let offset = unat ((seq_num dh - seq_tail r - 1) * ucast (r_byte_payload r)); bs = patch_data m dh
      in case tail_patch_buffer r of
           NullBuf \<Rightarrow> if bs = [] then Inr (r, file) else Inl NullDeref
         | FreedBuf \<Rightarrow> Inl UseAfterFree
         | Buf b \<Rightarrow> if offset + length bs \<le> length b
                    then Inr (r\<lparr>tail_patch_buffer := Buf (poke offset bs b)\<rparr>, file) else Inl OutOfBounds)"

definition patch_file :: "RecverState \<Rightarrow> byte list \<Rightarrow> byte list \<Rightarrow> DataHdr \<Rightarrow> (RecverState \<times> byte list) option res" where
  "patch_file r file m dh =
     (if seq_num dh = seq_fst r then Inr None
      else rbind
        (if seq_num dh = 0
         then rbind (updateBcdMetadata r (parseBcdMetadata m (MSG_HDRLEN + DATA_HDRLEN + unat (dh_len dh))))
                (\<lambda>(_, r). assert_c (0 \<le> fm_start (fileMetadata r)) (Inr r))
         else Inr r)
        (\<lambda>r. deref (fd_patch_p r) (\<lambda>pos.
           let offset = patch_offset r dh; bs = patch_data m dh;
               pos = (if 0 \<le> offset then nat offset else pos)
           in Inr (Some (r\<lparr>fd_patch_p := Some (pos + length bs)\<rparr>, write_at file pos bs)))))"

text \<open>The whole case, up to the messages: the receiver, the file, and whether all data is there.\<close>

definition slow_path :: "timeval \<Rightarrow> RecverState \<Rightarrow> byte list \<Rightarrow> byte list \<Rightarrow> (RecverState \<times> byte list \<times> bool) res" where
  "slow_path now r file m =
     (let dh = parseDataHdr m MSG_HDRLEN
      in rbind (if 0 < seq_tail r \<and> seq_tail r < seq_num dh
                then rbind (patch_tail r file m dh) (\<lambda>x. Inr (Some x)) else patch_file r file m dh)
           (\<lambda>x. case x of None \<Rightarrow> Inr (r, file, False)
              | Some (r, file) \<Rightarrow>
                  (let r = r\<lparr>num_slow_recv_ed := num_slow_recv_ed r + 1\<rparr>
                   in if hasGottenAllData r
                      then rbind (finishRecv now r file) (\<lambda>(r, file). Inr (r, file, True))
                      else Inr (r, file, False))))"

text \<open>The request that \<^verbatim>\<open>MSG_FAST_DONE\<close> makes for everything behind the last packet.\<close>

definition fast_done_request :: "RecverState \<Rightarrow> PatchTuple option res" where
  "fast_done_request r =
     (if is_seq_zero r then
        (if r_seq_max r = 0 then Inl DivByZero
         else if (seq_lst r + 1) mod r_seq_max r \<noteq> seq_fst r
         then Inr (Some (createPatchTuple (seq_lst r + 1) (seq_fst r))) else Inr None)
      else Inr (Some (createPatchTuple (seq_lst r + 1) SEQNUM_MAX)))"

subsection \<open>What the fast path keeps\<close>

text \<open>What the fast path never changes: the connection and the name of the file.\<close>

definition identity :: "RecverState \<Rightarrow> nat option \<times> string \<times> BcdID" where
  "identity r = (r_fds_p r, r_bcd_filename r, r_bcd_id r)"

lemma fp_write_identity: "fp_write r file p dh = Inr (r', file') \<Longrightarrow> identity r' = identity r"
  by (auto simp: fp_write_def deref_Inr_iff identity_def split: if_splits)

lemma fp_extend_identity: "fp_extend r ext = Inr r' \<Longrightarrow> identity r' = identity r"
  by (auto simp: fp_extend_def deref_Inr_iff rbind_Inr_iff identity_def)

lemma fp_gap_identity: "fp_gap r file p dh ext gap zero = Inr (r', file', mk) \<Longrightarrow> identity r' = identity r"
  by (auto simp: fp_gap_def rbind_Inr_iff Let_def dest!: fp_write_identity fp_extend_identity)

lemma updateBcdMetadata_identity: "updateBcdMetadata r bm = Inr (ret, r') \<Longrightarrow> identity r' = identity r"
  by (auto simp: updateBcdMetadata_def update_sizes_def update_tail_def rbind_Inr_iff assert_c_def Let_def identity_def
      split: if_splits option.splits)

lemma fp_seq_zero_identity: "fp_seq_zero r file p dh = Inr (r', file', mk) \<Longrightarrow> identity r' = identity r"
  by (auto simp: fp_seq_zero_def rbind_Inr_iff split: if_splits
      dest!: updateBcdMetadata_identity fp_write_identity fp_gap_identity)

lemma fp_wrap_identity: "fp_wrap r file p dh = Inr (r', file', mk) \<Longrightarrow> identity r' = identity r"
  by (auto simp: fp_wrap_def assert_c_def deref_Inr_iff Let_def split: if_splits dest!: fp_gap_identity)
    (simp add: identity_def)

lemma fp_place_identity: "fp_place r file p dh = Inr (r', file', mk) \<Longrightarrow> identity r' = identity r"
  by (auto simp: fp_place_def rbind_Inr_iff Let_def split: if_splits
      dest!: fp_write_identity fp_gap_identity fp_seq_zero_identity fp_wrap_identity)

lemma fp_last_identity: "fp_last now r file dh = Inr (r', file', all) \<Longrightarrow> identity r' = identity r"
  by (auto simp: fp_last_def finishRecv_def stopFathPath_def deref_Inr_iff rbind_Inr_iff Let_def identity_def
      split: if_splits membuf.splits)

lemma fast_path_identity: "fast_path now r file p dh = Inr (r', file', out) \<Longrightarrow> identity r' = identity r"
proof -
  have i: "identity (r\<lparr>lock_processingFastData := b\<rparr>) = identity r" "identity (r\<lparr>seq_lst := s\<rparr>) = identity r"
    "identity (r\<lparr>seq_fst := s\<rparr>) = identity r" "identity (r\<lparr>is_seq_fst := b\<rparr>) = identity r" for r b s
    by (simp_all add: identity_def)
  assume "fast_path now r file p dh = Inr (r', file', out)"
  then show ?thesis
    using i by (auto simp: fast_path_def rbind_Inr_iff Let_def fp_first_def split: if_splits
        dest!: fp_place_identity fp_last_identity)
qed

subsection \<open>Sizes\<close>

lemma ceil_packets: "0 < P \<Longrightarrow> \<lceil>rat_of_nat L / rat_of_nat P\<rceil> = int (n_packets L P)"
proof -
  assume P: "0 < P"
  have L: "L = P * (L div P) + L mod P" by simp
  have q: "rat_of_nat L / rat_of_nat P = rat_of_nat (L div P) + rat_of_nat (L mod P) / rat_of_nat P"
    using P by (subst L) (simp only: of_nat_add of_nat_mult add_divide_distrib, simp)
  have lt: "rat_of_nat (L mod P) / rat_of_nat P < 1" using P by simp
  show ?thesis
  proof (cases "L mod P = 0")
    case True
    then show ?thesis using q by (simp add: n_packets_def)
  next
    case False
    then have "0 < rat_of_nat (L mod P) / rat_of_nat P" using P by simp
    with lt q show ?thesis using False by (simp add: n_packets_def ceiling_eq_iff)
  qed
qed

text \<open>What a receiver computes from the metadata of \<open>L\<close> bytes.\<close>

lemma update_sizes_spec:
  assumes "0 < L" "0 < unat (r_byte_payload r)" "bm_data_size bm = int L"
    and "length (takeWhile (\<lambda>b. b \<noteq> 0) (bm_app_id bm)) < APPID_LEN"
  shows "update_sizes r bm = Inr (r\<lparr>r_data_size := int L, r_app_id_str := strncpy (bm_app_id bm) APPID_LEN,
    r_seq_max := of_nat (n_packets L (unat (r_byte_payload r))),
    r_byte_payload_min := of_nat (last_bytes L (unat (r_byte_payload r)))\<rparr>)"
proof -
  let ?P = "unat (r_byte_payload r)"
  have nz: "r_byte_payload r \<noteq> 0" using assms(2) by auto
  have c: "\<lceil>rat_of_int (int L) / rat_of_int (int ?P)\<rceil> = int (n_packets L ?P)"
    using ceil_packets [OF assms(2), of L] by simp
  have m: "int L smod int ?P = int (L mod ?P)"
    by (subst smod_mod_positive) (simp_all add: zmod_int)
  have lt: "L mod ?P < 65536" using assms(2) unat_u16_lt [of "r_byte_payload r"]
    by (meson less_trans mod_less_divisor)
  have z: "(of_nat (L mod ?P) :: u16) = 0 \<longleftrightarrow> L mod ?P = 0"
    using lt by (auto simp: word_of_nat_eq_0_iff dest: nat_dvd_not_less)
  have pos: "int L \<noteq> 0" using assms(1) by simp
  show ?thesis
    using nz assms(4) pos
    by (auto simp: update_sizes_def Let_def assms(3) c [simplified] m [simplified] z last_bytes_def)
qed

subsection \<open>A round without loss\<close>

text \<open>The packet \<open>p\<close> carries the part \<open>s\<close> of \<open>xs\<close>, cut into parts of \<open>P\<close> bytes, with the metadata behind part 0.\<close>

definition carries :: "byte list \<Rightarrow> nat \<Rightarrow> byte list \<Rightarrow> nat \<Rightarrow> bool" where
  "carries xs P p s \<longleftrightarrow>
     (let dh = parseDataHdr p DATA_HDR_OFFSET; len = length (chunk P xs s)
      in seq_num dh = of_nat s \<and> unat (dh_len dh) = len \<and> DATA_PAYLOAD_OFFSET + len \<le> length p
       \<and> peek DATA_PAYLOAD_OFFSET len p = chunk P xs s
       \<and> (s = 0 \<longrightarrow> DATA_PAYLOAD_OFFSET + len + BCDMETADATA_LEN \<le> length p
           \<and> bm_data_size (parseBcdMetadata p (DATA_PAYLOAD_OFFSET + len)) = int (length xs)
           \<and> length (takeWhile (\<lambda>b. b \<noteq> 0) (bm_app_id (parseBcdMetadata p (DATA_PAYLOAD_OFFSET + len)))) < APPID_LEN))"

text \<open>The parts seen after \<open>k\<close> packets of a round that starts with \<open>first\<close>, and the last of them.\<close>

definition seen :: "nat \<Rightarrow> nat \<Rightarrow> nat \<Rightarrow> nat list" where
  "seen n first k = map (\<lambda>i. (first + i) mod n) [0..<k]"

definition prev_seq :: "nat \<Rightarrow> nat \<Rightarrow> nat \<Rightarrow> seqnum" where
  "prev_seq n first k = (if k = 0 then (if first = 0 then SEQNUM_MAX else of_nat (first - 1))
     else of_nat ((first + k - 1) mod n))"

definition round_inv :: "byte list \<Rightarrow> nat \<Rightarrow> nat \<Rightarrow> nat \<Rightarrow> RecverState \<Rightarrow> byte list \<Rightarrow> bool" where
  "round_inv xs P first k r file \<longleftrightarrow>
     (let n = n_packets (length xs) P
      in is_seq_fst r \<and> is_fastpath r \<and> \<not> is_finished r \<and> seq_fst r = of_nat first \<and> seq_lst r = prev_seq n first k
       \<and> seq_tail r = 0 \<and> r_byte_payload r = of_nat P \<and> tail_patch_buffer r = NullBuf
       \<and> tail_patch_buffer_len r = 0 \<and> fd_p r = Some (length file) \<and> fd_patch_p r \<noteq> None
       \<and> num_fast_recv_ed r = int k \<and> num_slow_recv_ed r = 0
       \<and> file = concat (map (chunk P xs) (seen n first k))
       \<and> (if 0 \<in> set (seen n first k)
          then is_seq_zero r \<and> r_seq_max r = of_nat n \<and> r_data_size r = int (length xs)
             \<and> fm_start (fileMetadata r) = int ((length xs - first * P) mod length xs)
          else \<not> is_seq_zero r \<and> fm_start (fileMetadata r) = -1 \<and> r_seq_max r = 0))"

text \<open>Data for which the 32-bit arithmetic of the code does not wrap.\<close>

definition fits :: "byte list \<Rightarrow> nat \<Rightarrow> nat \<Rightarrow> bool" where
  "fits xs P first \<longleftrightarrow> xs \<noteq> [] \<and> 0 < P \<and> P < 65536 \<and> first < n_packets (length xs) P
     \<and> n_packets (length xs) P < 2147483547 \<and> P * first < 4294967296"

lemma seen_Suc: "seen n first (Suc k) = seen n first k @ [(first + k) mod n]"
  by (simp add: seen_def)

lemma seen_new: "k < n \<Longrightarrow> (first + k) mod n \<notin> set (seen n first k)"
proof
  assume k: "k < n" and "(first + k) mod n \<in> set (seen n first k)"
  then obtain i where i: "i < k" "(first + k) mod n = (first + i) mod n" by (auto simp: seen_def)
  then have "n dvd (first + k) - (first + i)" using mod_eq_dvd_iff_nat [of "first + i" "first + k" n] by simp
  then have "n dvd k - i" by simp
  then show False using i k by (auto dest: dvd_imp_le)
qed

lemma prev_next:
  assumes "(first + k) mod n \<noteq> 0" "first < n"
  shows "of_nat ((first + k) mod n) - prev_seq n first k = 1"
proof (cases k)
  case 0
  with assms have "0 < first" by (cases first) auto
  then show ?thesis using assms 0 by (simp add: prev_seq_def of_nat_diff)
next
  case (Suc j)
  have "(first + k) mod n = Suc ((first + j) mod n)"
    using assms(1) Suc by (simp add: mod_Suc split: if_splits)
  then show ?thesis using Suc by (simp add: prev_seq_def)
qed

lemma prev_zero:
  assumes "(first + k) mod n = 0" "first < n" "k < n"
  shows "prev_seq n first k = of_nat n - 1 \<or> prev_seq n first k = SEQNUM_MAX"
proof (cases k)
  case 0
  with assms show ?thesis by (simp add: prev_seq_def)
next
  case (Suc j)
  have "Suc ((first + j) mod n) = n"
    using assms Suc by (simp add: mod_Suc split: if_splits)
  then have "of_nat ((first + j) mod n) = (of_nat n - 1 :: u32)"
    by (metis add_diff_cancel_left' of_nat_Suc)
  then show ?thesis using Suc by (simp add: prev_seq_def)
qed

lemma chunk_nonempty:
  assumes "xs \<noteq> []" "0 < P" "s < n_packets (length xs) P"
  shows "chunk P xs s \<noteq> []" "length (chunk P xs s) \<le> P"
proof -
  have "0 < length xs" using assms by simp
  note c = packets_cover [OF this assms(2)]
  have "0 < length (chunk P xs s)" using length_chunk [OF assms] c assms(2) by (simp split: if_splits)
  then show "chunk P xs s \<noteq> []" by (metis length_greater_0_conv)
  show "length (chunk P xs s) \<le> P" using length_chunk [OF assms] c by (simp split: if_splits)
qed

lemma fp_write_append:
  assumes "carries xs P p s" "fd_p r = Some (length file)" "chunk P xs s \<noteq> []"
  shows "fp_write r file p (parseDataHdr p DATA_HDR_OFFSET)
    = Inr (r\<lparr>fd_p := Some (length (file @ chunk P xs s)), num_fast_recv_ed := num_fast_recv_ed r + 1\<rparr>,
        file @ chunk P xs s)"
  using assms by (simp add: fp_write_def carries_def Let_def write_at_def)

lemma first_bytes: "fits xs P first \<Longrightarrow> first * P < length xs"
proof -
  assume f: "fits xs P first"
  then have "0 < length xs" "0 < P" by (auto simp: fits_def)
  note c = packets_cover [OF this]
  have "first * P \<le> (n_packets (length xs) P - 1) * P"
    using f by (intro mult_le_mono1) (auto simp: fits_def)
  with c(2,3) show ?thesis by linarith
qed

lemma updateBcdMetadata_lossless:
  assumes f: "fits xs P first" and "bm_data_size bm = int (length xs)"
    and "length (takeWhile (\<lambda>b. b \<noteq> 0) (bm_app_id bm)) < APPID_LEN"
    and "\<not> is_seq_zero r" "seq_tail r = 0" "r_byte_payload r = of_nat P" "seq_fst r = of_nat first"
    and "fm_start (fileMetadata r) = -1" "tail_patch_buffer_len r = 0"
  shows "\<exists>r'. updateBcdMetadata r bm = Inr (0, r')
    \<and> r' = r\<lparr>r_data_size := int (length xs), r_app_id_str := strncpy (bm_app_id bm) APPID_LEN,
        r_seq_max := of_nat (n_packets (length xs) P), r_byte_payload_min := of_nat (last_bytes (length xs) P),
        fileMetadata := \<lparr>fm_start = int ((length xs - first * P) mod length xs), fm_jump = int (length xs)\<rparr>,
        is_seq_zero := True\<rparr>"
proof -
  have P: "0 < P" "P < 65536" and L: "0 < length xs" using f by (auto simp: fits_def)
  have up: "unat (r_byte_payload r) = P" using P assms(6) by (simp add: unat_of_nat_u16)
  note us = update_sizes_spec [of "length xs" r bm, OF L _ assms(2,3), unfolded up, OF P(1)]
  note fb = first_bytes [OF f]
  have fu: "unat (of_nat first :: u32) = first"
    using f by (intro unat_of_nat_u32) (auto simp: fits_def)
  have "unat (ucast (of_nat P :: u16) :: u32) = P"
    using P by (simp add: unsigned_ucast_eq unat_of_nat_u16 take_bit_eq_mod)
  then have m: "unat (ucast (of_nat P :: u16) * of_nat first :: u32) = P * first"
    using f fu by (subst unat_mult_small) (simp_all add: fits_def)
  have st: "(int (length xs) - int (P * first)) smod int (length xs) = int ((length xs - first * P) mod length xs)"
  proof -
    have e: "int (length xs) - int (P * first) = int (length xs - first * P)"
      by (subst of_nat_diff) (use fb in \<open>simp_all add: mult.commute\<close>)
    show ?thesis unfolding e by (subst smod_mod_positive) (simp_all only: of_nat_0_le_iff zmod_int)
  qed
  show ?thesis
    using us assms(4-9)
    by (cases "fileMetadata r") (simp add: updateBcdMetadata_def update_tail_def Let_def start_of_def m st [simplified])
qed

lemma fp_place_lossless:
  assumes f: "fits xs P first" and k: "k < n_packets (length xs) P" and inv: "round_inv xs P first k r file"
    and c: "carries xs P p ((first + k) mod n_packets (length xs) P)"
  shows "\<exists>r' mk. fp_place r file p (parseDataHdr p DATA_HDR_OFFSET)
      = Inr (r', file @ chunk P xs ((first + k) mod n_packets (length xs) P), mk) \<and> \<not> fp_error mk \<and> \<not> fp_jump mk
    \<and> round_inv xs P first (Suc k) (r'\<lparr>seq_lst := of_nat ((first + k) mod n_packets (length xs) P)\<rparr>)
        (file @ chunk P xs ((first + k) mod n_packets (length xs) P))"
proof -
  let ?n = "n_packets (length xs) P" and ?dh = "parseDataHdr p DATA_HDR_OFFSET"
  let ?s = "(first + k) mod ?n"
  have P: "xs \<noteq> []" "0 < P" "P < 65536" "first < ?n" "?n < 2147483547" using f by (auto simp: fits_def)
  have s: "?s < ?n" using P(4) by simp
  note ch = chunk_nonempty [OF P(1,2) s]
  have sn: "seq_num ?dh = of_nat ?s" using c by (simp add: carries_def Let_def)
  have sz: "(of_nat ?s :: u32) = 0 \<longleftrightarrow> ?s = 0" by (rule of_nat_zero_u32) (use s P(5) in linarith)
  have fd: "fd_p r = Some (length file)" using inv by (simp add: round_inv_def Let_def)
  have pv: "seq_lst r = prev_seq ?n first k" using inv by (simp add: round_inv_def Let_def)
  have pS: "prev_seq ?n first (Suc k) = of_nat ?s" by (simp add: prev_seq_def)
  have new: "?s \<notin> set (seen ?n first k)" using seen_new [OF k] .
  show ?thesis
  proof (cases "?s = 0")
    case False
    have "seq_num ?dh - seq_lst r = 1" using prev_next [OF False P(4)] by (simp add: sn pv)
    moreover have "seq_num ?dh \<noteq> 0" using sz False by (simp add: sn)
    ultimately have e: "fp_place r file p ?dh = Inr (r\<lparr>fd_p := Some (length (file @ chunk P xs ?s)),
        num_fast_recv_ed := num_fast_recv_ed r + 1\<rparr>, file @ chunk P xs ?s, fp_none)"
      by (simp add: fp_place_def fp_write_append [OF c fd ch(1)])
    show ?thesis
      by (rule exI, rule exI, rule conjI [OF e])
        (use inv False pS in \<open>auto simp: fp_none_def round_inv_def Let_def seen_Suc\<close>)
  next
    case True
    let ?bm = "parseBcdMetadata p (DATA_PAYLOAD_OFFSET + unat (dh_len ?dh))"
    have nz: "0 \<notin> set (seen ?n first k)" using new True by simp
    have b: "DATA_PAYLOAD_OFFSET + unat (dh_len ?dh) + BCDMETADATA_LEN \<le> length p"
      "bm_data_size ?bm = int (length xs)" "length (takeWhile (\<lambda>b. b \<noteq> 0) (bm_app_id ?bm)) < APPID_LEN"
      using c True by (simp_all add: carries_def Let_def)
    obtain r1 where r1: "updateBcdMetadata r ?bm = Inr (0, r1)"
      "r1 = r\<lparr>r_data_size := int (length xs), r_app_id_str := strncpy (bm_app_id ?bm) APPID_LEN,
        r_seq_max := of_nat ?n, r_byte_payload_min := of_nat (last_bytes (length xs) P),
        fileMetadata := \<lparr>fm_start = int ((length xs - first * P) mod length xs), fm_jump = int (length xs)\<rparr>,
        is_seq_zero := True\<rparr>"
      using updateBcdMetadata_lossless [OF f b(2,3), of r] inv nz by (auto simp: round_inv_def Let_def)
    have "seq_num ?dh = 0" using True sn by simp
    moreover have "seq_lst r1 = r_seq_max r1 - 1 \<or> seq_lst r1 = SEQNUM_MAX"
      using prev_zero [OF True P(4) k] r1(2) pv by simp
    moreover have fd1: "fd_p r1 = Some (length file)" using fd r1(2) by simp
    ultimately have e: "fp_place r file p ?dh = Inr (r1\<lparr>fd_p := Some (length (file @ chunk P xs ?s)),
        num_fast_recv_ed := num_fast_recv_ed r1 + 1\<rparr>, file @ chunk P xs ?s, fp_none\<lparr>fp_zero := True\<rparr>)"
      using b(1) r1(1) fp_write_append [OF c fd1 ch(1)] by (simp add: fp_place_def fp_seq_zero_def)
    show ?thesis
      by (rule exI, rule exI, rule conjI [OF e])
        (use inv True pS r1(2) in \<open>auto simp: fp_none_def round_inv_def Let_def seen_Suc\<close>)
  qed
qed

text \<open>The fast path ends exactly with the packet before the first one.\<close>

lemma last_iff:
  assumes "k < n" "first < n"
  shows "(if first = 0 then (first + k) mod n + 1 = n else (first + k) mod n + 1 = first) \<longleftrightarrow> Suc k = n"
proof (cases "first + k < n")
  case True
  then show ?thesis using assms by auto
next
  case False
  then have "(first + k) mod n = first + k - n"
    using assms by (subst mod_if) (auto simp: mod_less)
  with False assms show ?thesis by auto
qed

lemma seen_all: "first < n \<Longrightarrow> 0 \<in> set (seen n first n)"
proof -
  assume a: "first < n"
  have "(first + (if first = 0 then 0 else n - first)) mod n = 0" using a by simp
  moreover have "(if first = 0 then 0 else n - first) < n" using a by simp
  ultimately show ?thesis unfolding seen_def by (auto simp: image_iff intro!: bexI [of _ "if first = 0 then 0 else n - first"])
qed

definition round_done :: "byte list \<Rightarrow> nat \<Rightarrow> nat \<Rightarrow> RecverState \<Rightarrow> bool" where
  "round_done xs P first r \<longleftrightarrow> is_finished r \<and> \<not> is_fastpath r \<and> r_data_size r = int (length xs)
     \<and> fm_start (fileMetadata r) = int ((length xs - first * P) mod length xs)
     \<and> fm_jump (fileMetadata r) = int (length xs)"

lemma chunks_total:
  assumes "fits xs P first"
  shows "concat (map (chunk P xs) (seen (n_packets (length xs) P) first (n_packets (length xs) P)))
    = drop (first * P) xs @ take (first * P) xs"
proof -
  let ?n = "n_packets (length xs) P"
  have f: "xs \<noteq> []" "0 < P" "first < ?n" using assms by (auto simp: fits_def)
  then have "0 < length xs" by simp
  note c = packets_cover [OF this f(2)]
  have nP: "length xs \<le> ?n * P"
  proof -
    have "(?n - 1) * P + P = ?n * P" using c(1) by (cases ?n) auto
    then show ?thesis using c(2,4) by linarith
  qed
  have "[0..<?n] = [0..<?n - first] @ [?n - first..<?n]"
    using f(3) upt_add_eq_append [of 0 "?n - first" first] by simp
  moreover have "map (\<lambda>i. (first + i) mod ?n) [0..<?n - first] = [first..<?n]"
    by (rule nth_equalityI) (use f(3) in auto)
  moreover have "map (\<lambda>i. (first + i) mod ?n) [?n - first..<?n] = [0..<first]"
    by (rule nth_equalityI) (use f(3) in \<open>auto simp: mod_if\<close>)
  ultimately have "seen ?n first ?n = [first..<?n] @ [0..<first]"
    by (simp add: seen_def)
  moreover have "concat (map (chunk P xs) [first..<?n]) = drop (first * P) xs"
    using concat_chunks [of first ?n P xs] f(3) nP by simp
  moreover have "concat (map (chunk P xs) [0..<first]) = take (first * P) xs"
    using concat_chunks [of 0 first P xs] by simp
  ultimately show ?thesis by simp
qed

lemma round_inv_lock:
  "round_inv xs P first k (r\<lparr>lock_processingFastData := b\<rparr>) file = round_inv xs P first k r file"
  by (cases r) (simp add: round_inv_def Let_def)

lemma fast_path_lossless:
  assumes f: "fits xs P first" and k: "k < n_packets (length xs) P"
    and inv: "round_inv xs P first k r file"
    and c: "carries xs P p ((first + k) mod n_packets (length xs) P)"
  shows "\<exists>r' out. fast_path now r file p (parseDataHdr p DATA_HDR_OFFSET)
      = Inr (r', file @ chunk P xs ((first + k) mod n_packets (length xs) P), out)
    \<and> (if Suc k = n_packets (length xs) P then round_done xs P first r'
       else round_inv xs P first (Suc k) r' (file @ chunk P xs ((first + k) mod n_packets (length xs) P)))"
proof -
  let ?n = "n_packets (length xs) P" and ?dh = "parseDataHdr p DATA_HDR_OFFSET"
  let ?s = "(first + k) mod ?n"
  let ?file = "file @ chunk P xs ?s"
  have P: "xs \<noteq> []" "0 < P" "first < ?n" "?n < 2147483547" using f by (auto simp: fits_def)
  have inv1: "round_inv xs P first k (r\<lparr>lock_processingFastData := True\<rparr>) file"
    using inv by (simp only: round_inv_lock)
  have fst: "is_seq_fst r" "is_fastpath r" using inv by (auto simp: round_inv_def Let_def)
  obtain r1 mk where r1: "fp_place (r\<lparr>lock_processingFastData := True\<rparr>) file p ?dh = Inr (r1, ?file, mk)"
    "\<not> fp_error mk" "round_inv xs P first (Suc k) (r1\<lparr>seq_lst := of_nat ?s\<rparr>) ?file"
    using fp_place_lossless [OF f k inv1 c] by blast
  have sn: "seq_num ?dh = of_nat ?s" using c by (simp add: carries_def Let_def)
  let ?r = "r1\<lparr>seq_lst := of_nat ?s\<rparr>"
  have s: "?s < ?n" using P(3) by simp
  have small: "?s + 1 < 4294967296" "first < 4294967296" "?n < 4294967296"
    using s P(3,4) by linarith+
  have w: "of_nat ?s + 1 = (of_nat m :: u32) \<longleftrightarrow> ?s + 1 = m" if "m < 4294967296" for m
    using of_nat_eq_u32 [OF small(1) that] by (simp add: add.commute)
  have z0: "first = 0 \<Longrightarrow> 0 \<in> set (seen ?n first (Suc k))"
    by (simp add: seen_def del: upt_Suc) (rule image_eqI [of _ _ 0], simp_all)
  have fz: "(of_nat first :: u32) = 0 \<longleftrightarrow> first = 0" by (rule of_nat_zero_u32 [OF small(2)])
  have mx: "r_seq_max ?r = of_nat ?n" if "first = 0 \<or> Suc k = ?n"
    using that z0 seen_all [OF P(3)] r1(3) by (auto simp: round_inv_def Let_def split: if_splits)
  have "fp_is_last ?r ?dh \<longleftrightarrow> (if first = 0 then ?s + 1 = ?n else ?s + 1 = first)"
    using r1(3) mx fz w [OF small(2)] w [OF small(3)] by (auto simp: fp_is_last_def sn round_inv_def Let_def)
  then have last: "fp_is_last ?r ?dh \<longleftrightarrow> Suc k = ?n" using last_iff [OF k P(3)] by simp
  let ?fin = "\<lambda>x. Inr x :: (RecverState \<times> byte list \<times> bool) res"
  show ?thesis
  proof (cases "Suc k = ?n")
    case False
    then have "fp_last now ?r ?file ?dh = Inr (?r, ?file, False)"
      using last by (simp add: fp_last_def)
    then have "\<exists>out. fast_path now r file p ?dh = Inr (?r\<lparr>lock_processingFastData := False\<rparr>, ?file, out)"
      using r1(1,2) fst by (simp add: fast_path_def fp_first_def sn)
    moreover have "round_inv xs P first (Suc k) (?r\<lparr>lock_processingFastData := False\<rparr>) ?file"
      using r1(3) by (simp only: round_inv_lock)
    ultimately show ?thesis using False by auto
  next
    case True
    have z: "0 \<in> set (seen ?n first (Suc k))" using seen_all [OF P(3)] True by simp
    have len: "length ?file = length xs"
    proof -
      have "?file = drop (first * P) xs @ take (first * P) xs"
        using r1(3) chunks_total [OF f] True by (simp add: round_inv_def Let_def)
      then show ?thesis using first_bytes [OF f] by simp
    qed
    have g: "hasGottenAllData ((stopFathPath now ?r)\<lparr>fileMetadata := fm\<rparr>)" for fm
      using r1(3) mx [OF disjI2 [OF True]] True
      by (simp add: hasGottenAllData_def stopFathPath_def round_inv_def Let_def)
    have "\<exists>r2. fp_last now ?r ?file ?dh = Inr (r2, ?file, True) \<and> round_done xs P first r2"
      using r1(3) last True g z len
      by (auto simp: fp_last_def finishRecv_def round_inv_def round_done_def Let_def stopFathPath_def)
    then obtain r2 where "fp_last now ?r ?file ?dh = Inr (r2, ?file, True)" "round_done xs P first r2" by blast
    then have "\<exists>out. fast_path now r file p ?dh = Inr (r2\<lparr>lock_processingFastData := False\<rparr>, ?file, out)"
      "round_done xs P first (r2\<lparr>lock_processingFastData := False\<rparr>)"
      using r1(1,2) fst by (simp_all add: fast_path_def fp_first_def sn round_done_def)
    then show ?thesis using True by auto
  qed
qed

text \<open>The packets of a round, one after the other.\<close>

fun fast_run :: "timeval \<Rightarrow> byte list list \<Rightarrow> RecverState \<times> byte list \<Rightarrow> (RecverState \<times> byte list) res" where
  "fast_run now [] st = Inr st"
| "fast_run now (p # ps) (r, file) =
     rbind (fast_path now r file p (parseDataHdr p DATA_HDR_OFFSET)) (\<lambda>(r, file, _). fast_run now ps (r, file))"

text \<open>The order in which an application reads the file: \<open>[start, jump) \<rightarrow> [0, start) \<rightarrow> [jump, end]\<close>.\<close>

definition read_order :: "byte list \<Rightarrow> databyte \<Rightarrow> databyte \<Rightarrow> byte list" where
  "read_order file start jump =
     take (nat jump - nat start) (drop (nat start) file) @ take (nat start) file @ drop (nat jump) file"

lemma fast_run_lossless:
  assumes f: "fits xs P first" and len: "length ps = n_packets (length xs) P"
    and c: "\<forall>k < length ps. carries xs P (ps ! k) ((first + k) mod length ps)"
  shows "k < length ps \<Longrightarrow> round_inv xs P first k r fl \<Longrightarrow>
    \<exists>r'. fast_run now (drop k ps) (r, fl) = Inr (r', drop (first * P) xs @ take (first * P) xs) \<and> round_done xs P first r'"
proof (induction "length ps - k" arbitrary: k r fl)
  case 0
  then show ?case by simp
next
  case (Suc d)
  let ?s = "(first + k) mod n_packets (length xs) P"
  have d: "drop k ps = ps ! k # drop (Suc k) ps" using Suc.prems(1) by (rule Cons_nth_drop_Suc [symmetric])
  from fast_path_lossless [OF f _ Suc.prems(2), of "ps ! k" now] obtain r' out where
    r': "fast_path now r fl (ps ! k) (parseDataHdr (ps ! k) DATA_HDR_OFFSET) = Inr (r', fl @ chunk P xs ?s, out)"
    "if Suc k = length ps then round_done xs P first r' else round_inv xs P first (Suc k) r' (fl @ chunk P xs ?s)"
    using c Suc.prems(1) len by auto
  have run: "fast_run now (drop k ps) (r, fl) = fast_run now (drop (Suc k) ps) (r', fl @ chunk P xs ?s)"
    by (simp add: d r'(1))
  show ?case
  proof (cases "Suc k = length ps")
    case True
    have "fl = concat (map (chunk P xs) (seen (n_packets (length xs) P) first k))"
      using Suc.prems(2) by (simp add: round_inv_def Let_def)
    then have "fl @ chunk P xs ?s = concat (map (chunk P xs) (seen (n_packets (length xs) P) first (Suc k)))"
      by (simp add: seen_Suc)
    moreover have "Suc k = n_packets (length xs) P" using True len by simp
    ultimately have "fl @ chunk P xs ?s = drop (first * P) xs @ take (first * P) xs"
      using chunks_total [OF f] by simp
    then show ?thesis using True r'(2) run by simp
  next
    case False
    then show ?thesis using Suc.hyps(1) [of "Suc k" r' "fl @ chunk P xs ?s"] Suc.hyps(2) Suc.prems(1) r'(2) run by simp
  qed
qed

lemma fast_path_first:
  assumes r: "\<not> is_seq_fst r" "is_fastpath r"
    and q: "fast_path now (fst (fp_first r dh)) file p dh = Inr (r', file', out)"
  shows "\<exists>out. fast_path now r file p dh = Inr (r', file', out)"
proof -
  let ?q = "(fst (fp_first r dh))\<lparr>lock_processingFastData := True\<rparr>"
  have a: "fp_first (r\<lparr>lock_processingFastData := True\<rparr>) dh = (?q, True)" "fp_first ?q dh = (?q, False)"
    "is_fastpath ?q" using r by (simp_all add: fp_first_def)
  obtain r2 f2 mk r3 all where "fp_place ?q file p dh = Inr (r2, f2, mk)"
    "fp_last now (if fp_error mk then r2 else r2\<lparr>seq_lst := seq_num dh\<rparr>) f2 dh = Inr (r3, file', all)"
    "r' = r3\<lparr>lock_processingFastData := False\<rparr>"
    using q a(2,3) by (auto simp: fast_path_def rbind_Inr_iff Let_def)
  then show ?thesis using a(1) r(2) by (simp add: fast_path_def)
qed

lemma round_inv_start:
  assumes f: "fits xs P first" and r: "createRecverState (of_nat P) True True True bid = Some r"
    and c: "carries xs P p first"
  shows "round_inv xs P first 0 (fst (fp_first (startFathPath now (r\<lparr>r_fds_p := Some a\<rparr>)) (parseDataHdr p DATA_HDR_OFFSET))) []"
proof -
  have P: "P < 65536" "n_packets (length xs) P < 2147483547" "first < n_packets (length xs) P" using f by (auto simp: fits_def)
  have "ucast (of_nat P :: u32) = (of_nat P :: u16)"
    by transfer simp
  moreover have "(of_nat first :: u32) = 0 \<longleftrightarrow> first = 0"
    by (rule of_nat_zero_u32) (use P in linarith)
  moreover have "seq_num (parseDataHdr p DATA_HDR_OFFSET) = of_nat first" using c by (simp add: carries_def Let_def)
  ultimately show ?thesis using r
    by (auto simp: createRecverState_def round_inv_def Let_def fp_first_def startFathPath_def seen_def prev_seq_def of_nat_diff)
qed

lemma lossless_round:
  assumes "fits xs P first" and "createRecverState (of_nat P) True True True bid = Some r"
    and "length ps = n_packets (length xs) P"
    and "\<forall>k < length ps. carries xs P (ps ! k) ((first + k) mod length ps)"
  shows "\<exists>r' file. fast_run now ps (startFathPath now (r\<lparr>r_fds_p := Some a\<rparr>), []) = Inr (r', file)
    \<and> file = drop (first * P) xs @ take (first * P) xs
    \<and> is_finished r' \<and> \<not> is_fastpath r' \<and> r_data_size r' = int (length xs)
    \<and> read_order file (fm_start (fileMetadata r')) (fm_jump (fileMetadata r')) = xs"
proof -
  let ?n = "n_packets (length xs) P" and ?r = "startFathPath now (r\<lparr>r_fds_p := Some a\<rparr>)"
  have n: "0 < ?n" "first < ?n" using assms(1) by (auto simp: fits_def)
  then obtain p qs where ps: "ps = p # qs" using assms(3) by (cases ps) auto
  have cp: "carries xs P p first" using assms(3) assms(4) [rule_format, of 0] n ps by simp
  let ?q = "fst (fp_first ?r (parseDataHdr p DATA_HDR_OFFSET))"
  have q: "round_inv xs P first 0 ?q []" by (rule round_inv_start [OF assms(1,2) cp])
  have r0: "\<not> is_seq_fst ?r" "is_fastpath ?r"
    using assms(2) by (auto simp: createRecverState_def startFathPath_def)
  obtain r' where r': "fast_run now ps (?q, []) = Inr (r', drop (first * P) xs @ take (first * P) xs)" "round_done xs P first r'"
    using fast_run_lossless [OF assms(1,3,4), of 0 ?q "[]" now] q n(1) assms(3) by auto
  obtain r1 f1 o1 where s: "fast_path now ?q [] p (parseDataHdr p DATA_HDR_OFFSET) = Inr (r1, f1, o1)"
    "fast_run now qs (r1, f1) = Inr (r', drop (first * P) xs @ take (first * P) xs)"
    using r'(1) unfolding ps by (auto simp: rbind_Inr_iff)
  obtain o2 where "fast_path now ?r [] p (parseDataHdr p DATA_HDR_OFFSET) = Inr (r1, f1, o2)"
    using fast_path_first [OF r0 s(1)] by blast
  then have run: "fast_run now ps (?r, []) = Inr (r', drop (first * P) xs @ take (first * P) xs)"
    using s(2) by (simp add: ps)
  have "read_order (drop (first * P) xs @ take (first * P) xs) (fm_start (fileMetadata r')) (fm_jump (fileMetadata r')) = xs"
  proof (cases "first * P = 0")
    case True
    have "(length xs - first * P) mod length xs = 0" unfolding True by simp
    then have "fm_start (fileMetadata r') = 0" using r'(2) by (simp add: round_done_def)
    then show ?thesis unfolding True using r'(2) by (simp add: round_done_def read_order_def)
  next
    case False
    then have "0 < first * P" by (simp only: neq0_conv)
    then have "length xs - first * P < length xs" using first_bytes [OF assms(1)] by linarith
    then have "(length xs - first * P) mod length xs = length xs - first * P" by (rule mod_less)
    then have "nat (fm_start (fileMetadata r')) = length xs - first * P" "nat (fm_jump (fileMetadata r')) = length xs"
      using r'(2) by (simp_all only: round_done_def nat_int)
    then show ?thesis using first_bytes [OF assms(1)] by (simp add: read_order_def)
  qed
  with run r'(2) show ?thesis by (auto simp: round_done_def)
qed

lemma carries_packet_of:
  assumes "length front = DATA_HDR_OFFSET" and "length xs < 2 ^ 63" and "P < 65536"
    and "length (takeWhile (\<lambda>b. b \<noteq> 0) app) < APPID_LEN"
  shows "carries xs P (front @ packet_of bid app xs P s @ rest) s"
proof -
  let ?c = "chunk P xs s"
  let ?p = "front @ packet_of bid app xs P s @ rest"
  have l: "length front = 42" using assms(1) by (simp add: const_defs)
  have "length ?c \<le> P" by (simp add: chunk_def)
  then have u: "unat (of_nat (length ?c) :: u32) = length ?c" using assms(3) by (intro unat_of_nat_u32) linarith
  have h: "parseDataHdr ?p 42 = \<lparr>dh_bcd_id = bid, seq_num = of_nat s, dh_len = of_nat (length ?c)\<rparr>"
    by (rule parseDataHdr_enc) (simp add: packet_of_def peek_skip l peek_hd)
  have d: "peek 74 (length ?c) ?p = ?c"
    by (simp add: packet_of_def peek_skip l peek_hd)
  have m: "parseBcdMetadata ?p (74 + length ?c) = \<lparr>bm_data_size = int (length xs), bm_app_id = strncpy app 64\<rparr>" if "s = 0"
  proof (rule parseBcdMetadata_enc)
    show "peek (74 + length ?c) 72 ?p = enc_BcdMetadata (int (length xs)) app"
      using that by (simp add: packet_of_def peek_skip l peek_hd)
  qed (use assms(2) in simp_all)
  have "length (takeWhile (\<lambda>b. b \<noteq> 0) (strncpy app 64)) < 64"
    using assms(4) by (simp add: takeWhile_strncpy APPID_LEN_def)
  then show ?thesis using h d m u
    by (auto simp: carries_def Let_def const_defs l packet_of_def)
qed

text \<open>Five bytes in packets of two, received from the second packet on.\<close>

definition example_packet :: "nat \<Rightarrow> byte list" where
  "example_packet s = replicate 42 0 @ packet_of \<lparr>app_id = \<lparr>msb = 0, lsb = 0\<rparr>, data_id = 0\<rparr> [] [1, 2, 3, 4, 5] 2 s @ []"

text \<open>C4: A broadcast that is received on the fast path without loss is received correctly, wherever in the round the
  receiver came in.  From the state in which a receiver is made, the packets of one whole round, starting
  with any sequence number \<open>first\<close>, leave a finished receiver; the file is the data rotated to the first
  packet, and the metadata given to the applications is such that reading \<open>[start, jump)\<close>, then \<open>[0, start)\<close>, then
  \<open>[jump, end]\<close>, as \<^verbatim>\<open>hero.h\<close> prescribes, yields the data that was sent.\<close>

theorem lossless_round_delivers:
  assumes "fits xs P first" and "createRecverState (of_nat P) True True True bid = Some r"
    and "length ps = n_packets (length xs) P"
    and "\<forall>k < length ps. carries xs P (ps ! k) ((first + k) mod length ps)"
  shows "\<exists>r' file. fast_run now ps (startFathPath now (r\<lparr>r_fds_p := Some a\<rparr>), []) = Inr (r', file)
    \<and> file = drop (first * P) xs @ take (first * P) xs
    \<and> is_finished r' \<and> \<not> is_fastpath r' \<and> r_data_size r' = int (length xs)
    \<and> read_order file (fm_start (fileMetadata r')) (fm_jump (fileMetadata r')) = xs"
  by (rule lossless_round [OF assms])

theorem lossless_round_delivers_witness:
  "\<exists>r r' file. createRecverState (of_nat 2) True True True \<lparr>app_id = \<lparr>msb = 0, lsb = 0\<rparr>, data_id = 0\<rparr> = Some r
    \<and> fast_run (Timeval 1 1) [example_packet 1, example_packet 2, example_packet 0]
        (startFathPath (Timeval 1 1) (r\<lparr>r_fds_p := Some 7\<rparr>), []) = Inr (r', file)
    \<and> file = [3, 4, 5, 1, 2]
    \<and> read_order file (fm_start (fileMetadata r')) (fm_jump (fileMetadata r')) = [1, 2, 3, 4, 5]"
proof -
  let ?xs = "[1, 2, 3, 4, 5] :: byte list" and ?id = "\<lparr>app_id = \<lparr>msb = 0, lsb = 0\<rparr>, data_id = 0\<rparr>"
  have f: "fits ?xs 2 1" by (simp add: fits_def n_packets_def)
  obtain r where r: "createRecverState (of_nat 2) True True True ?id = Some r"
    by (simp add: createRecverState_def)
  have c: "carries ?xs 2 (example_packet s) s" for s
    unfolding example_packet_def by (rule carries_packet_of) (simp_all add: const_defs)
  let ?ps = "[example_packet 1, example_packet 2, example_packet 0]"
  have "carries ?xs 2 (?ps ! k) ((1 + k) mod length ?ps)" if "k < length ?ps" for k
  proof -
    from that consider "k = 0" | "k = 1" | "k = 2" by fastforce
    then show ?thesis by cases (simp_all add: c del: One_nat_def)
  qed
  then have cs: "\<forall>k < length ?ps. carries ?xs 2 (?ps ! k) ((1 + k) mod length ?ps)" by blast
  have len: "length ?ps = n_packets (length ?xs) 2" by (simp add: n_packets_def)
  obtain r' fl where "fast_run (Timeval 1 1) ?ps (startFathPath (Timeval 1 1) (r\<lparr>r_fds_p := Some 7\<rparr>), []) = Inr (r', fl)"
    "fl = drop (1 * 2) ?xs @ take (1 * 2) ?xs"
    "read_order fl (fm_start (fileMetadata r')) (fm_jump (fileMetadata r')) = ?xs"
    using lossless_round_delivers [OF f r len cs, of "Timeval 1 1" 7] by blast
  with r show ?thesis by (intro exI [of _ r] exI [of _ r'] exI [of _ fl]) simp
qed

end
