(* ===== verification/Multicast.thy ===== *)
theory Multicast
  imports Complex_Main MsgQueue "HOL-Library.Multiset"
begin

text \<open>
  The sender of one broadcast: \<^verbatim>\<open>MulticastState\<close> and \<^verbatim>\<open>SenderState\<close> of \<^verbatim>\<open>hero.h\<close> with
  their functions in \<^verbatim>\<open>hero.c\<close>: creation, rate, the end of the transmission, the packets made from
  the file, and the ring of patch requests.  A \<open>SenderState\<close> is an index into the list of those ever
  allocated; the APR skip list is a parameter with the contract \<open>skiplist\<close>.  Doubles are reals.
\<close>

subsection \<open>The skip list\<close>

record ('s, 'a) skiplist_ops =
  sk_init :: 's
  sk_insert :: "'a \<Rightarrow> 's \<Rightarrow> 's option"
  sk_peek :: "'s \<Rightarrow> 'a option"
  sk_pop :: "'s \<Rightarrow> 's \<times> 'a option"

text \<open>What holds of an APR skip list whatever its comparison function answers: it is a bag, and what
  \<^verbatim>\<open>peek\<close> shows is what \<^verbatim>\<open>pop\<close> takes.  The agent's comparison functions read the inserted
  pointer cells as if they were the states they point to, so no order can be assumed.\<close>

locale skiplist =
  fixes S :: "('s, 'a) skiplist_ops" and elems :: "'s \<Rightarrow> 'a list"
  assumes init_law: "elems (sk_init S) = []"
    and insert_law: "\<exists>s' xs ys. sk_insert S x s = Some s' \<and> elems s = xs @ ys \<and> elems s' = xs @ x # ys"
    and peek_law: "sk_peek S s = (case elems s of [] \<Rightarrow> None | x # _ \<Rightarrow> Some x)"
    and pop_law: "elems s = x # xs \<Longrightarrow> \<exists>s'. sk_pop S s = (s', Some x) \<and> elems s' = xs"
    and pop_empty_law: "elems s = [] \<Longrightarrow> \<exists>s'. sk_pop S s = (s', None) \<and> elems s' = []"

text \<open>The skip list that APR documents, as a list kept by a comparison function.\<close>

definition cmp_skiplist :: "('a \<Rightarrow> 'a \<Rightarrow> int) \<Rightarrow> ('a list, 'a) skiplist_ops" where
  "cmp_skiplist cmp = \<lparr>sk_init = [],
     sk_insert = (\<lambda>x s. Some (takeWhile (\<lambda>y. cmp x y \<ge> 0) s @ x # dropWhile (\<lambda>y. cmp x y \<ge> 0) s)),
     sk_peek = (\<lambda>s. case s of [] \<Rightarrow> None | x # _ \<Rightarrow> Some x),
     sk_pop = (\<lambda>s. case s of [] \<Rightarrow> ([], None) | x # xs \<Rightarrow> (xs, Some x))\<rparr>"

interpretation sl: skiplist "cmp_skiplist cmp" "\<lambda>s. s" for cmp
proof unfold_locales
  fix x :: 'a and s
  have "s = takeWhile (\<lambda>y. cmp x y \<ge> 0) s @ dropWhile (\<lambda>y. cmp x y \<ge> 0) s" by simp
  then show "\<exists>s' xs ys. sk_insert (cmp_skiplist cmp) x s = Some s' \<and> s = xs @ ys \<and> s' = xs @ x # ys"
    by - (rule exI, rule exI [of _ "takeWhile (\<lambda>y. cmp x y \<ge> 0) s"],
      rule exI [of _ "dropWhile (\<lambda>y. cmp x y \<ge> 0) s"], simp add: cmp_skiplist_def)
qed (auto simp: cmp_skiplist_def split: list.split)

subsection \<open>State\<close>

datatype RateType = RATE_UNKNOWN | RATE_GBPS | RATE_MPPS

datatype BcdState = BCDSTATE_DEAD | BCDSTATE_INITIATED | BCDSTATE_ATTEMPT | BCDSTATE_FULLRATE

record SenderState =
  skey :: in_addr
  s_bcd_id :: BcdID
  s_id :: int
  msf :: seqnum
  seqEnd :: seqnum
  has_all_done :: bool
  s_is_distinct_rack :: bool
  s_ssock_p :: "nat option"
  s_tv_init :: timeval
  tv_fast_done :: timeval

record MulticastTimes =
  tv_path_request :: timeval
  tv_path_approve :: timeval
  tv_path_release :: timeval
  tv_first_data :: timeval
  tv_last_data :: timeval
  tv_attempt_finish :: timeval
  tv_first_first_seq :: timeval
  tv_first_first_seq_distinct_rack :: timeval
  tv_last_first_seq :: timeval
  tv_first_all_done :: timeval
  tv_first_all_done_distinct_rack :: timeval
  tv_last_all_done :: timeval

record 's MulticastState =
  m_bcd_id :: BcdID
  sender_end_seq_pq_p :: 's
  sender_end_seq_arr_p :: "nat option list"
  sender_end_seq_arr_idx_start :: nat
  sender_end_seq_arr_idx_end :: nat
  sender_addr_hash_p :: "in_addr \<rightharpoonup> nat"
  sender_heap :: "SenderState list"
  m_msgPshQ :: MsgPshQ
  m_msgIntQ :: MsgIntQ
  m_msgWrtQ :: int
  m_data_size :: databyte
  m_seq_max :: seqnum
  m_byte_payload :: bytes_t
  m_byte_payload_min :: bytes_t
  m_bcd_filename :: string
  m_fd :: "nat option"
  m_fd_patch :: "nat option"
  bcd_state :: BcdState
  n_init :: u16
  n_first_seq :: u16
  n_all_done :: u16
  is_first_seq_distinct_rack :: bool
  is_all_done_distinct_rack :: bool
  is_distinct_rack :: bool
  is_tv_last_data :: u8
  seq_end :: seqnum
  seq_end_max :: seqnum
  seq_cur :: seqnum
  n_byte :: databyte
  n_packet :: pktnum
  n_byte_total :: databyte
  n_packet_total :: pktnum
  n_byte_attempt :: databyte
  n_packet_attempt :: pktnum
  n_patch_total :: pktnum
  eth_hdr :: "byte list"
  ip_hdr :: "byte list"
  udp_hdr :: "byte list"
  rate_type :: RateType
  rate :: real
  rate_f_delta :: real
  std_rate_f_delta :: real
  tv_sendStart :: timeval
  tv_push :: timeval
  m_tv :: MulticastTimes
  is_path_released :: bool
  m_is_stats_logged :: bool
  controller_xid :: int
  m_delete_counter :: u16

definition TV0 :: timeval where "TV0 = Timeval 0 0"

definition times0 :: MulticastTimes where
  "times0 = \<lparr>tv_path_request = TV0, tv_path_approve = TV0, tv_path_release = TV0, tv_first_data = TV0,
     tv_last_data = TV0, tv_attempt_finish = TV0, tv_first_first_seq = TV0,
     tv_first_first_seq_distinct_rack = TV0, tv_last_first_seq = TV0, tv_first_all_done = TV0,
     tv_first_all_done_distinct_rack = TV0, tv_last_all_done = TV0\<rparr>"

subsection \<open>Creation\<close>

definition rack_of :: "in_addr \<Rightarrow> u32" where
  "rack_of a = (drop_bit 24 a - 111) div 2"

definition createSenderState :: "in_addr \<Rightarrow> int \<Rightarrow> in_addr \<Rightarrow> BcdID \<Rightarrow> nat option \<Rightarrow> timeval \<Rightarrow> SenderState" where
  "createSenderState host_ctrl i key bid ssock now =
     \<lparr>skey = key, s_bcd_id = bid, s_id = i, msf = 0, seqEnd = 0, has_all_done = False,
      s_is_distinct_rack = (rack_of key \<noteq> rack_of host_ctrl), s_ssock_p = ssock, s_tv_init = now,
      tv_fast_done = TV0\<rparr>"

text \<open>The comparison functions, on the structures the code believes to compare.\<close>

definition SenderStateCmp :: "SenderState \<Rightarrow> SenderState \<Rightarrow> int" where
  "SenderStateCmp a b = (if seqEnd a < seqEnd b then -1 else 1)"

definition pushcmp :: "'s MulticastState \<Rightarrow> 's MulticastState \<Rightarrow> int" where
  "pushcmp a b = (if timercmp_lt (tv_push a) (tv_push b) then 1 else -1)"

definition multicastState_reset :: "timeval \<Rightarrow> 's MulticastState \<Rightarrow> 's MulticastState" where
  "multicastState_reset now m =
     (let m = m\<lparr>seq_end := SEQNUM_MAX\<rparr>
      in if bcd_state m = BCDSTATE_DEAD
         then m\<lparr>seq_end_max := 0, n_byte := 0, n_packet := 0, tv_sendStart := now\<rparr> else m)"

definition multicastState_updateRate :: "timeval \<Rightarrow> 's MulticastState \<Rightarrow> real \<Rightarrow> 's MulticastState" where
  "multicastState_updateRate now m delta =
     m\<lparr>n_byte := 0, n_packet := 0, tv_sendStart := now, rate_f_delta := delta\<rparr>"

text \<open>Micro-seconds per byte.\<close>

definition std_delta :: "RateType \<Rightarrow> real \<Rightarrow> bytes_t \<Rightarrow> real option" where
  "std_delta ty r payload = (case ty of
     RATE_GBPS \<Rightarrow> Some (1 / (r * 10 ^ 9 / 8) * 10 ^ 6)
   | RATE_MPPS \<Rightarrow> Some (1 / ((r * real (unat payload) * 8 / 1000) * 10 ^ 9 / 8) * 10 ^ 6)
   | RATE_UNKNOWN \<Rightarrow> None)"

text \<open>\<^verbatim>\<open>createBcdState\<close>: \<open>file\<close> is the content of the broadcast's file when it can be opened; a null
  result is \<open>None\<close>.\<close>

definition createBcdState :: "('s, nat) skiplist_ops \<Rightarrow> byte list \<Rightarrow> in_addr \<Rightarrow> bytes_t \<Rightarrow> timeval \<Rightarrow> BcdID
    \<Rightarrow> MsgIntQ \<Rightarrow> int \<Rightarrow> RateType \<Rightarrow> real \<Rightarrow> byte list option \<Rightarrow> 's MulticastState option res" where
  "createBcdState S eth host_data data_payload_len now bid intQ wrtQ rty r file =
     (case file of None \<Rightarrow> Inr None
      | Some bs \<Rightarrow>
         (if bs = [] then Inr None
          else if data_payload_len = 0 then Inl DivByZero
          else rbind (initIPHeader (replicate IP4_HDRLEN 0) host_data IPPROTO_UDP) (\<lambda>ip.
            let size = int (length bs); P = int (unat data_payload_len);
                smax = word_of_int (size div P) :: seqnum; pmin = word_of_int (size mod P) :: bytes_t;
                m = \<lparr>m_bcd_id = bid, sender_end_seq_pq_p = sk_init S, sender_end_seq_arr_p = [],
                  sender_end_seq_arr_idx_start = 0, sender_end_seq_arr_idx_end = 0,
                  sender_addr_hash_p = Map.empty, sender_heap = [],
                  m_msgPshQ = \<lparr>fan_out = 0, fan_out_effective = 0, slaves = []\<rparr>, m_msgIntQ = intQ, m_msgWrtQ = wrtQ,
                  m_data_size = size,
                  m_seq_max = (if pmin = 0 then smax else smax + 1),
                  m_byte_payload = data_payload_len,
                  m_byte_payload_min = (if pmin = 0 then data_payload_len else pmin),
                  m_bcd_filename = BcdIdtoFilename bid, m_fd = Some 0, m_fd_patch = Some 0,
                  bcd_state = BCDSTATE_DEAD, n_init = 0, n_first_seq = 0, n_all_done = 0,
                  is_first_seq_distinct_rack = False, is_all_done_distinct_rack = False,
                  is_distinct_rack = False, is_tv_last_data = 0,
                  seq_end = 0, seq_end_max = 0, seq_cur = 0, n_byte = 0, n_packet = 0,
                  n_byte_total = 0, n_packet_total = 0, n_byte_attempt = 0, n_packet_attempt = 0,
                  n_patch_total = 0, eth_hdr = eth, ip_hdr = ip,
                  udp_hdr = initUDPHeader (replicate UDP_HDRLEN 0) 0 DATA_SRC_PORT DATA_DST_PORT,
                  rate_type = rty, rate = r, rate_f_delta = 0, std_rate_f_delta = 0,
                  tv_sendStart = TV0, tv_push = TV0, m_tv = times0,
                  is_path_released = False, m_is_stats_logged = False, controller_xid = 0, m_delete_counter = 0\<rparr>;
                m = (multicastState_reset now m)\<lparr>seq_cur := 0\<rparr>
            in case std_delta rty r data_payload_len of
                 None \<Rightarrow> Inr None
               | Some d \<Rightarrow> Inr (Some (m\<lparr>std_rate_f_delta := d, rate_f_delta := d\<rparr>)))))"

subsection \<open>The end of the transmission\<close>

text \<open>The estimated last sequence number for a receiver whose first one was \<open>first\<close>.\<close>

definition seq_end_for :: "seqnum \<Rightarrow> seqnum \<Rightarrow> seqnum \<Rightarrow> seqnum" where
  "seq_end_for cur smax first =
     (let round = (if cur mod smax \<le> first then cur div smax else cur div smax + 1)
      in round * smax + first)"

definition updateSeqEnd :: "('s, nat) skiplist_ops \<Rightarrow> 's MulticastState \<Rightarrow> nat \<Rightarrow> 's MulticastState res" where
  "updateSeqEnd S m i =
     (if m_seq_max m = 0 then Inl DivByZero
      else if i \<ge> length (sender_heap m) then Inl UseAfterFree
      else (let sd = sender_heap m ! i;
                e = seq_end_for (seq_cur m) (m_seq_max m) (msf sd);
                m = m\<lparr>sender_heap := (sender_heap m)[i := sd\<lparr>seqEnd := e\<rparr>]\<rparr>;
                m = (case sk_insert S i (sender_end_seq_pq_p m) of None \<Rightarrow> m
                     | Some pq \<Rightarrow> m\<lparr>sender_end_seq_pq_p := pq\<rparr>);
                m = (if seq_end_max m < e then m\<lparr>seq_end_max := e\<rparr> else m)
            in Inr (if n_init m = n_first_seq m then m\<lparr>seq_end := seq_end_max m\<rparr> else m)))"

subsection \<open>Packets and patches\<close>

definition data_bytes :: "'s MulticastState \<Rightarrow> seqnum \<Rightarrow> bytes_t" where
  "data_bytes m seq = (if seq + 1 = m_seq_max m then m_byte_payload_min m else m_byte_payload m)"

definition payload_bytes :: "'s MulticastState \<Rightarrow> seqnum \<Rightarrow> bytes_t" where
  "payload_bytes m seq =
     (if seq = 0 then of_nat DATA_HDRLEN + data_bytes m seq + of_nat BCDMETADATA_LEN
      else of_nat DATA_HDRLEN + data_bytes m seq)"

text \<open>\<^verbatim>\<open>createData\<close> at offset \<open>off\<close> of a buffer, from position \<open>pos\<close> of the file: the buffer, the new
  position and the length.\<close>

definition createData :: "byte list \<Rightarrow> nat \<Rightarrow> 's MulticastState \<Rightarrow> byte list \<Rightarrow> nat \<Rightarrow> seqnum
    \<Rightarrow> byte list \<times> nat \<times> bytes_t" where
  "createData buf off m file pos seq =
     (case createDataFromFile buf off (m_bcd_id m) seq (data_bytes m seq) file pos of (buf, pos, _) \<Rightarrow>
        (if seq = 0
         then createBcdMetadata buf (off + unat (payload_bytes m seq - of_nat BCDMETADATA_LEN)) (m_data_size m)
                (iq_app_id (m_msgIntQ m))
         else buf, pos, payload_bytes m seq))"

record my_elem =
  e_bcd_id :: BcdID
  e_pt :: PatchTuple
  e_tv_init :: timeval
  e_tv_patchReqRecv :: timeval

definition createPatchTupleRingElement :: "BcdID \<Rightarrow> PatchTuple \<Rightarrow> timeval \<Rightarrow> timeval \<Rightarrow> my_elem" where
  "createPatchTupleRingElement bid pt tv now =
     \<lparr>e_bcd_id = bid, e_pt = pt, e_tv_init = tv, e_tv_patchReqRecv = now\<rparr>"

text \<open>The inner loop of \<^verbatim>\<open>processPatchTuple\<close>, over the sequence numbers of one tuple.\<close>

partial_function (option) patch_seqs :: "'q queue_ops \<Rightarrow> timeval \<Rightarrow> 's MulticastState \<Rightarrow> byte list \<Rightarrow> 'q
    \<Rightarrow> nat \<Rightarrow> PatchTuple \<Rightarrow> ('q \<times> nat \<times> PatchTuple) res option" where
  "patch_seqs Q now m file q pos pt =
     (if stt_seq pt < end_seq pt then
        (case createData (replicate 9216 0) 0 m file pos (stt_seq pt) of (buf, pos, len) \<Rightarrow>
          (case insertMsg2SendQ Q q (m_bcd_id m) MSG_PATCH_DATA (Some buf) (ucast (ucast len :: u16)) False False now of
             None \<Rightarrow> None
           | Some (Inl e) \<Rightarrow> Some (Inl e)
           | Some (Inr (q, ret)) \<Rightarrow>
               if ret = 0 then Some (Inr (q, pos, pt))
               else patch_seqs Q now m file q pos (pt\<lparr>stt_seq := stt_seq pt + 1\<rparr>)))
      else Some (Inr (q, pos, pt)))"

text \<open>The outer loop, over the ring: the element at its tail is the oldest.\<close>

partial_function (option) processPatchTuple :: "'q queue_ops \<Rightarrow> timeval \<Rightarrow> (string \<rightharpoonup> byte list) \<Rightarrow> my_elem list
    \<Rightarrow> 'q \<Rightarrow> (BcdID \<rightharpoonup> 's MulticastState) \<Rightarrow> (my_elem list \<times> 'q \<times> (BcdID \<rightharpoonup> 's MulticastState)) res option" where
  "processPatchTuple Q now files ring q ms =
     (if ring = [] \<or> APR_QUEUE_CAPACITY - 100 \<le> apr_queue_size Q q then Some (Inr (ring, q, ms))
      else (let elem = last ring in
        case ms (e_bcd_id elem) of None \<Rightarrow> Some (Inl NullDeref)
        | Some m \<Rightarrow> (case files (m_bcd_filename m) of None \<Rightarrow> Some (Inl NullDeref)
          | Some file \<Rightarrow> (case m_fd_patch m of None \<Rightarrow> Some (Inl NullDeref)
            | Some _ \<Rightarrow>
              (case patch_seqs Q now m file q (unat (stt_seq (e_pt elem) * m_byte_payload m)) (e_pt elem) of
                 None \<Rightarrow> None
               | Some (Inl e) \<Rightarrow> Some (Inl e)
               | Some (Inr (q, pos, pt)) \<Rightarrow>
                   (let ms = ms(e_bcd_id elem \<mapsto> m\<lparr>m_fd_patch := Some pos\<rparr>)
                    in if stt_seq pt = end_seq pt then processPatchTuple Q now files (butlast ring) q ms
                       else Some (Inr (butlast ring @ [elem\<lparr>e_pt := pt\<rparr>], q, ms))))))))"

definition deleteMulticastState :: "'s MulticastState \<Rightarrow> (string \<rightharpoonup> byte list) \<Rightarrow> (string \<rightharpoonup> byte list)" where
  "deleteMulticastState m files = files(m_bcd_filename m := None)"

text \<open>What \<^verbatim>\<open>multicastState_stats\<close> changes, and the spans of time it logs.\<close>

definition multicastState_stats :: "'s MulticastState \<Rightarrow> 's MulticastState \<times> timeval list" where
  "multicastState_stats m =
     (if m_is_stats_logged m then (m, [])
      else (let t = m_tv m in (m\<lparr>m_is_stats_logged := True\<rparr>,
        [timersub (tv_last_data t) (tv_first_data t),
         timersub (tv_last_first_seq t) (tv_first_first_seq_distinct_rack t),
         timersub (tv_last_all_done t) (tv_first_all_done_distinct_rack t),
         timersub (tv_attempt_finish t) (tv_first_data t),
         timersub (tv_last_data t) (tv_attempt_finish t),
         timersub (tv_last_all_done t) (tv_first_data t),
         timersub (tv_path_approve t) (tv_path_request t),
         timersub (tv_path_release t) (tv_path_approve t)])))"

subsection \<open>The end covers a whole round\<close>

lemma next_multiple:
  fixes c s f :: nat
  assumes "0 < s" "f < s"
  defines "e \<equiv> (if c mod s \<le> f then c div s else c div s + 1) * s + f"
  shows "e mod s = f" "c \<le> e" "e < c + s" "p < c \<Longrightarrow> p mod s = f \<Longrightarrow> p + s \<le> e"
proof -
  have c: "c = c div s * s + c mod s" by simp
  have m: "c mod s < s" using assms by simp
  show 1: "e mod s = f" using assms by (simp add: e_def)
  show le: "c \<le> e"
  proof (cases "c mod s \<le> f")
    case True
    then have "e = c div s * s + f" by (simp add: e_def)
    with c True show ?thesis by linarith
  next
    case False
    then have "e = c div s * s + s + f" by (simp add: e_def algebra_simps)
    with c m show ?thesis by linarith
  qed
  show "e < c + s"
  proof (cases "c mod s \<le> f")
    case True
    then have "e = c div s * s + f" by (simp add: e_def)
    with c assms(2) show ?thesis by linarith
  next
    case False
    then have "e = c div s * s + s + f" by (simp add: e_def algebra_simps)
    with c False show ?thesis by linarith
  qed
  assume p: "p < c" "p mod s = f"
  then have "p < e" "p mod s = e mod s" using le 1 by auto
  then have "s dvd e - p" using mod_eq_dvd_iff_nat [of p e s] by simp
  then have "s \<le> e - p" using \<open>p < e\<close> by (intro dvd_imp_le) auto
  then show "p + s \<le> e" using \<open>p < e\<close> by linarith
qed

lemma seq_end_for_unat:
  assumes "(unat cur div unat smax + 1) * unat smax + unat f < 4294967296"
  shows "unat (seq_end_for cur smax f)
    = (if unat cur mod unat smax \<le> unat f then unat cur div unat smax else unat cur div unat smax + 1) * unat smax + unat f"
proof (cases "unat smax = 0")
  case True
  then have "smax = 0" by (simp add: unat_eq_0)
  then show ?thesis by (simp add: seq_end_for_def Let_def)
next
  case False
  define d where "d = unat cur div unat smax"
  have "d \<le> unat cur" by (simp add: d_def)
  have b: "(d + 1) * unat smax + unat f < 4294967296" using assms by (simp add: d_def)
  have "d + 1 \<le> (d + 1) * unat smax" using False mult_le_mono2 [of 1 "unat smax" "d + 1"] by simp
  then have d1: "d + 1 < 4294967296" using b by linarith
  have le: "cur mod smax \<le> f \<longleftrightarrow> unat cur mod unat smax \<le> unat f"
    by (simp add: word_le_nat_alt)
  have "d * unat smax \<le> (d + 1) * unat smax" by simp
  then have s1: "d * unat smax + unat f < 4294967296" using b by linarith
  have u1: "unat (cur div smax + 1) = d + 1"
    using d1 by (subst unat_add_small) (simp_all add: d_def)
  show ?thesis
  proof (cases "cur mod smax \<le> f")
    case True
    have m: "unat (cur div smax * smax) = d * unat smax"
      using s1 by (subst unat_mult_small) (simp_all add: d_def)
    show ?thesis using True le s1 m by (simp add: seq_end_for_def Let_def d_def unat_add_small)
  next
    case False
    have m: "unat ((cur div smax + 1) * smax) = (d + 1) * unat smax"
      using b u1 by (subst unat_mult_small) simp_all
    have "seq_end_for cur smax f = (cur div smax + 1) * smax + f"
      using False by (simp add: seq_end_for_def Let_def)
    then show ?thesis using False le b m by (simp add: d_def unat_add_small del: semiring_normalization_rules)
  qed
qed

text \<open>C7: The end of the transmission.  When the first sequence number of a receiver arrives, the end set for
  it is the first position from now on that is congruent to it, so it is less than a round away, and from
  any position at which the receiver can have seen its first packet a whole round is sent.  The end of the
  transmission is at least that, it only grows, it is final when all receivers have answered, and the
  receiver is put into the queue of ends once.\<close>

theorem updateSeqEnd_covers:
  assumes "skiplist S elems" and "i < length (sender_heap m)" and "unat (m_seq_max m) > 0"
    and "unat (msf (sender_heap m ! i)) < unat (m_seq_max m)"
    and "(unat (seq_cur m) div unat (m_seq_max m) + 1) * unat (m_seq_max m) + unat (msf (sender_heap m ! i)) < 2 ^ 32"
  shows "\<exists>m'. updateSeqEnd S m i = Inr m'
    \<and> (let e = unat (seqEnd (sender_heap m' ! i)) in
        e mod unat (m_seq_max m) = unat (msf (sender_heap m ! i))
      \<and> unat (seq_cur m) \<le> e \<and> e < unat (seq_cur m) + unat (m_seq_max m)
      \<and> (\<forall>p < unat (seq_cur m). p mod unat (m_seq_max m) = unat (msf (sender_heap m ! i))
          \<longrightarrow> p + unat (m_seq_max m) \<le> e)
      \<and> e \<le> unat (seq_end_max m'))
    \<and> unat (seq_end_max m) \<le> unat (seq_end_max m')
    \<and> (n_init m = n_first_seq m \<longrightarrow> seq_end m' = seq_end_max m')
    \<and> mset (elems (sender_end_seq_pq_p m')) = add_mset i (mset (elems (sender_end_seq_pq_p m)))"
proof -
  let ?e = "seq_end_for (seq_cur m) (m_seq_max m) (msf (sender_heap m ! i))"
  have "(unat (seq_cur m) div unat (m_seq_max m) + 1) * unat (m_seq_max m) + unat (msf (sender_heap m ! i)) < 4294967296"
    using assms(5) by simp
  note u = seq_end_for_unat [OF this]
  note n = next_multiple [OF assms(3,4), where c = "unat (seq_cur m)", folded u]
  obtain pq xs ys where pq: "sk_insert S i (sender_end_seq_pq_p m) = Some pq"
    "elems (sender_end_seq_pq_p m) = xs @ ys" "elems pq = xs @ i # ys"
    using skiplist.insert_law [OF assms(1), of i "sender_end_seq_pq_p m"] by blast
  have nz: "m_seq_max m \<noteq> 0" using assms(3) by auto
  show ?thesis
    using n nz assms(2) pq
    by (auto simp: updateSeqEnd_def Let_def word_less_nat_alt not_less word_le_nat_alt)
qed

text \<open>A multicast whose memory is all zeros, for examples.\<close>

definition zero_id :: BcdID where
  "zero_id = \<lparr>app_id = \<lparr>msb = 0, lsb = 0\<rparr>, data_id = 0\<rparr>"

definition zero_multicast :: "'s \<Rightarrow> 's MulticastState" where
  "zero_multicast s = \<lparr>m_bcd_id = zero_id, sender_end_seq_pq_p = s, sender_end_seq_arr_p = [],
     sender_end_seq_arr_idx_start = 0, sender_end_seq_arr_idx_end = 0, sender_addr_hash_p = Map.empty,
     sender_heap = [], m_msgPshQ = \<lparr>fan_out = 0, fan_out_effective = 0, slaves = []\<rparr>,
     m_msgIntQ = \<lparr>master_addr = [], executor_id = 0, masterinaddr = 0, iq_app_id = []\<rparr>, m_msgWrtQ = 0,
     m_data_size = 0, m_seq_max = 0, m_byte_payload = 0, m_byte_payload_min = 0, m_bcd_filename = [],
     m_fd = None, m_fd_patch = None, bcd_state = BCDSTATE_DEAD, n_init = 0, n_first_seq = 0, n_all_done = 0,
     is_first_seq_distinct_rack = False, is_all_done_distinct_rack = False, is_distinct_rack = False,
     is_tv_last_data = 0, seq_end = 0, seq_end_max = 0, seq_cur = 0, n_byte = 0, n_packet = 0, n_byte_total = 0,
     n_packet_total = 0, n_byte_attempt = 0, n_packet_attempt = 0, n_patch_total = 0, eth_hdr = [], ip_hdr = [],
     udp_hdr = [], rate_type = RATE_UNKNOWN, rate = 0, rate_f_delta = 0, std_rate_f_delta = 0, tv_sendStart = TV0,
     tv_push = TV0, m_tv = times0, is_path_released = False, m_is_stats_logged = False, controller_xid = 0,
     m_delete_counter = 0\<rparr>"

theorem updateSeqEnd_covers_witness:
  "\<exists>m' :: nat list MulticastState. updateSeqEnd (cmp_skiplist (\<lambda>_ _. 1))
      ((zero_multicast [])\<lparr>m_seq_max := 10, seq_cur := 17, sender_heap := [(createSenderState 0 0 5 zero_id None TV0)\<lparr>msf := 3\<rparr>]\<rparr>) 0 = Inr m'
    \<and> unat (seq_end_max m') \<ge> 23"
proof -
  let ?m = "(zero_multicast [])\<lparr>m_seq_max := 10, seq_cur := 17,
      sender_heap := [(createSenderState 0 0 5 zero_id None TV0)\<lparr>msf := 3\<rparr>]\<rparr> :: nat list MulticastState"
  have "\<exists>m'. updateSeqEnd (cmp_skiplist (\<lambda>_ _. 1)) ?m 0 = Inr m'
      \<and> (let e = unat (seqEnd (sender_heap m' ! 0)) in e mod 10 = 3 \<and> 17 \<le> e \<and> e < 27
        \<and> (\<forall>p < 17. p mod 10 = 3 \<longrightarrow> p + 10 \<le> e) \<and> e \<le> unat (seq_end_max m'))"
    using updateSeqEnd_covers [OF sl.skiplist_axioms [of "\<lambda>_ _. 1"], of 0 ?m]
    by (force simp: Let_def)
  then obtain m' where m': "updateSeqEnd (cmp_skiplist (\<lambda>_ _. 1)) ?m 0 = Inr m'"
    "\<forall>p < 17. p mod 10 = 3 \<longrightarrow> p + 10 \<le> unat (seqEnd (sender_heap m' ! 0))"
    "unat (seqEnd (sender_heap m' ! 0)) \<le> unat (seq_end_max m')"
    by (auto simp: Let_def)
  have "13 + 10 \<le> unat (seqEnd (sender_heap m' ! 0))" by (rule m'(2) [rule_format]) simp_all
  with m' show ?thesis by auto
qed

subsection \<open>Packets carry the file\<close>

text \<open>The multicast \<open>m\<close> sends the data \<open>xs\<close> in packets of \<open>P\<close> bytes.\<close>

definition sends :: "'s MulticastState \<Rightarrow> byte list \<Rightarrow> nat \<Rightarrow> bool" where
  "sends m xs P \<longleftrightarrow> xs \<noteq> [] \<and> 0 < P \<and> P < 65536 \<and> n_packets (length xs) P < 4294967296
     \<and> m_byte_payload m = of_nat P \<and> m_byte_payload_min m = of_nat (last_bytes (length xs) P)
     \<and> m_seq_max m = of_nat (n_packets (length xs) P) \<and> m_data_size m = int (length xs)"

text \<open>The position in the file from which part \<open>s\<close> is read; the code starts over at the end.\<close>

definition at_part :: "byte list \<Rightarrow> nat \<Rightarrow> nat \<Rightarrow> nat \<Rightarrow> bool" where
  "at_part xs P s pos \<longleftrightarrow> pos = s * P \<or> s = 0 \<and> pos = length xs"

lemma data_bytes_chunk:
  assumes "sends m xs P" "s < n_packets (length xs) P"
  shows "data_bytes m (of_nat s) = of_nat (length (chunk P xs s))" "length (chunk P xs s) \<le> P" "chunk P xs s \<noteq> []"
proof -
  have a: "xs \<noteq> []" "0 < P" "n_packets (length xs) P < 4294967296" using assms(1) by (auto simp: sends_def)
  then have "0 < length xs" by simp
  note c = packets_cover [OF this a(2)]
  have l: "0 < length (chunk P xs s)" "length (chunk P xs s) \<le> P"
    using length_chunk [OF a(1,2) assms(2)] c a(2) by (simp_all split: if_splits)
  then show "length (chunk P xs s) \<le> P" "chunk P xs s \<noteq> []" by auto
  have "(of_nat s + 1 :: u32) = of_nat (n_packets (length xs) P) \<longleftrightarrow> s + 1 = n_packets (length xs) P"
  proof -
    have "(of_nat (s + 1) :: u32) = of_nat (n_packets (length xs) P) \<longleftrightarrow> s + 1 = n_packets (length xs) P"
      by (rule of_nat_eq_u32) (use assms(2) a(3) in linarith)+
    then show ?thesis by (simp add: add.commute)
  qed
  then show "data_bytes m (of_nat s) = of_nat (length (chunk P xs s))"
    using assms(1) length_chunk [OF a(1,2) assms(2)] by (simp add: data_bytes_def sends_def)
qed

lemma next_pos:
  assumes "sends m xs P" "s < n_packets (length xs) P"
  shows "s * P + length (chunk P xs s) = (if s + 1 = n_packets (length xs) P then length xs else (s + 1) * P)"
proof -
  have a: "xs \<noteq> []" "0 < P" using assms(1) by (auto simp: sends_def)
  then have "0 < length xs" by simp
  note c = packets_cover [OF this a(2)]
  show ?thesis
  proof (cases "s + 1 = n_packets (length xs) P")
    case True
    then have "s = n_packets (length xs) P - 1" by simp
    then have "s * P + last_bytes (length xs) P = length xs" using c(2) by simp
    then show ?thesis using length_chunk [OF a assms(2)] True by simp
  next
    case False
    then show ?thesis using length_chunk [OF a assms(2)] by simp
  qed
qed

lemma createData_spec:
  assumes m: "sends m xs P" and s: "s < n_packets (length xs) P" and pos: "at_part xs P s pos"
    and room: "off + 32 + P + 72 \<le> length buf"
  shows "createData buf off m xs pos (of_nat s)
    = (poke off (packet_of (m_bcd_id m) (iq_app_id (m_msgIntQ m)) xs P s) buf,
       s * P + length (chunk P xs s),
       of_nat (length (packet_of (m_bcd_id m) (iq_app_id (m_msgIntQ m)) xs P s)))"
proof -
  let ?c = "chunk P xs s"
  note d = data_bytes_chunk [OF m s]
  have P: "P < 65536" "0 < P" "n_packets (length xs) P < 4294967296" using m by (auto simp: sends_def)
  have u: "unat (data_bytes m (of_nat s)) = length ?c" using d P by (simp add: unat_of_nat_u32)
  let ?h = "enc_DataHdr \<lparr>dh_bcd_id = m_bcd_id m, seq_num = of_nat s, dh_len = of_nat (length ?c)\<rparr>"
  let ?b1 = "poke off (?h @ ?c) buf"
  have "take (length (take P ys)) ys = take P ys" for ys :: "byte list"
    by (cases "P \<le> length ys") simp_all
  then have r0: "take (length ?c) (drop (s * P) xs) = ?c" by (simp only: chunk_def)
  have b1: "poke (off + 32) ?c (poke off ?h buf) = ?b1"
    using room d(2) by (subst poke_poke_adj) simp_all
  have e: "poke (off + 32) [] b = b" if "off + 32 \<le> length b" for b :: "byte list"
    using that by (simp add: poke_def)
  have f: "createDataFromFile buf off (m_bcd_id m) (of_nat s) (data_bytes m (of_nat s)) xs pos
      = (?b1, s * P + length ?c, of_nat DATA_HDRLEN + of_nat (length ?c))"
  proof (cases "pos = s * P")
    case True
    then show ?thesis
      using room d u r0 b1 by (simp add: createDataFromFile_def Let_def createDataHdr_eq fread_def const_defs)
  next
    case False
    then have z: "s = 0" "pos = length xs" using pos by (auto simp: at_part_def)
    then have "take (length ?c) xs = ?c" using r0 by simp
    then show ?thesis
      using room d u b1 z by (simp add: createDataFromFile_def Let_def createDataHdr_eq fread_def const_defs e)
  qed
  have sz: "(of_nat s :: u32) = 0 \<longleftrightarrow> s = 0"
    using s P by (auto simp: word_of_nat_eq_0_iff dest: nat_dvd_not_less)
  have pb: "payload_bytes m (of_nat s) = of_nat (length (packet_of (m_bcd_id m) (iq_app_id (m_msgIntQ m)) xs P s))"
    using sz d(1) by (cases "s = 0") (auto simp: payload_bytes_def packet_of_def const_defs)
  show ?thesis
  proof (cases "s = 0")
    case False
    then show ?thesis using f sz pb by (simp add: createData_def packet_of_def)
  next
    case True
    have "payload_bytes m 0 - of_nat BCDMETADATA_LEN = of_nat (32 + length ?c)"
      using d(1) True by (simp add: payload_bytes_def const_defs)
    then have "unat (payload_bytes m 0 - of_nat BCDMETADATA_LEN) = 32 + length ?c"
      using d(2) P(1) by (simp only: unat_of_nat_u32)
    moreover have "createBcdMetadata ?b1 (off + (32 + length ?c)) (int (length xs)) (iq_app_id (m_msgIntQ m))
        = poke off (?h @ ?c @ enc_BcdMetadata (int (length xs)) (iq_app_id (m_msgIntQ m))) buf"
      using room d(2) by (simp add: createBcdMetadata_eq poke_poke_adj)
    moreover have "m_data_size m = int (length xs)" using m by (simp add: sends_def)
    ultimately show ?thesis using f pb True by (simp add: createData_def packet_of_def)
  qed
qed

subsection \<open>A new multicast\<close>

lemma packet_counts:
  assumes "0 < P" "P < 65536"
  shows "(if (word_of_int (int L mod int P) :: u32) = 0 then word_of_int (int L div int P)
      else word_of_int (int L div int P) + 1) = (of_nat (n_packets L P) :: u32)"
    and "(if (word_of_int (int L mod int P) :: u32) = 0 then of_nat P
      else word_of_int (int L mod int P)) = (of_nat (last_bytes L P) :: u32)"
proof -
  have lt: "L mod P < 4294967296" using assms mod_less_divisor [OF assms(1), of L] by linarith
  have m: "(word_of_int (int L mod int P) :: u32) = of_nat (L mod P)"
    and d: "(word_of_int (int L div int P) :: u32) = of_nat (L div P)"
    by (simp_all flip: zmod_int zdiv_int)
  show "(if (word_of_int (int L mod int P) :: u32) = 0 then word_of_int (int L div int P)
      else word_of_int (int L div int P) + 1) = (of_nat (n_packets L P) :: u32)"
    unfolding m d of_nat_zero_u32 [OF lt] by (simp add: n_packets_def)
  show "(if (word_of_int (int L mod int P) :: u32) = 0 then of_nat P
      else word_of_int (int L mod int P)) = (of_nat (last_bytes L P) :: u32)"
    unfolding m of_nat_zero_u32 [OF lt] by (simp add: last_bytes_def)
qed

text \<open>The headers in front of every packet: Ethernet for IP, IP for UDP without options, UDP.\<close>

definition headers_ok :: "'s MulticastState \<Rightarrow> bool" where
  "headers_ok m \<longleftrightarrow> length (eth_hdr m) = 14 \<and> peek 12 2 (eth_hdr m) = [8, 0] \<and> length (ip_hdr m) = 20
     \<and> ip_hdr m ! 0 = 0x45 \<and> ip_hdr m ! 9 = IPPROTO_UDP
     \<and> udp_hdr m = initUDPHeader (replicate UDP_HDRLEN 0) 0 DATA_SRC_PORT DATA_DST_PORT"

text \<open>C25: \<^verbatim>\<open>createBcdState\<close> on a file that is not empty yields a multicast that is dead and has sent
  nothing, whose packet count, packet size and size of the last packet cut exactly this file: all
  bytes, no empty packet, the last one of 1 to \<open>P\<close> bytes.  Its IP header is that of the multicast group.\<close>

theorem createBcdState_sends:
  assumes "xs \<noteq> []" and "0 < P" "P < 65536" and "n_packets (length xs) P < 2 ^ 32" and "rty \<noteq> RATE_UNKNOWN"
    and "length eth = 14" "peek 12 2 eth = [8, 0]"
  shows "\<exists>m. createBcdState S eth host (of_nat P) now bid iq wq rty r (Some xs) = Inr (Some m)
    \<and> sends m xs P \<and> m_bcd_id m = bid \<and> m_msgIntQ m = iq \<and> bcd_state m = BCDSTATE_DEAD \<and> seq_cur m = 0
    \<and> seq_end m = SEQNUM_MAX \<and> sender_end_seq_pq_p m = sk_init S \<and> n_init m = 0 \<and> sender_heap m = []
    \<and> m_fd m = Some 0 \<and> headers_ok m \<and> peek 16 4 (ip_hdr m) = [238, 238, 238, le_enc 4 host ! 3]
    \<and> (0 < r \<longrightarrow> 0 < rate_f_delta m)"
proof -
  have P: "unat (of_nat P :: u32) = P" "(of_nat P :: u32) \<noteq> 0"
    using assms by (simp_all add: unat_of_nat_u32 of_nat_zero_u32)
  obtain ip where ip: "initIPHeader (replicate IP4_HDRLEN 0) host IPPROTO_UDP = Inr ip" "length ip = 20" "ip ! 0 = 0x45" "ip ! 9 = IPPROTO_UDP"
    "peek 16 4 ip = [238, 238, 238, le_enc 4 host ! 3]"
    using initIPHeader_fields [of "replicate IP4_HDRLEN 0" host IPPROTO_UDP] by (auto simp: IP4_HDRLEN_def)
  obtain d where d: "std_delta rty r (of_nat P) = Some d" "0 < r \<Longrightarrow> 0 < d"
    using assms(2,5) P(1) by (cases rty) (auto simp: std_delta_def)
  note c = packet_counts [OF assms(2,3), of "length xs"]
  show ?thesis
    using assms P(2) ip d c
    by (simp add: createBcdState_def Let_def multicastState_reset_def sends_def headers_ok_def P(1))
qed

theorem createBcdState_sends_witness:
  "\<exists>m. createBcdState (cmp_skiplist (\<lambda>_ _. 1)) (replicate 12 0 @ [8, 0]) 0x2a00000a (of_nat 2) TV0 zero_id
      \<lparr>master_addr = [], executor_id = -1, masterinaddr = 0, iq_app_id = []\<rparr> 0 RATE_GBPS 1 (Some [1, 2, 3, 4, 5]) = Inr (Some m)
    \<and> m_seq_max m = 3 \<and> m_byte_payload_min m = 1 \<and> 0 < rate_f_delta m"
  using createBcdState_sends [where xs = "[1, 2, 3, 4, 5]" and P = 2 and rty = RATE_GBPS and S = "cmp_skiplist (\<lambda>_ _. 1)"
      and eth = "replicate 12 0 @ [8, 0]" and host = "0x2a00000a" and now = TV0 and bid = zero_id and wq = 0 and r = 1
      and iq = "\<lparr>master_addr = [], executor_id = -1, masterinaddr = 0, iq_app_id = []\<rparr>"]
  by (auto simp: peek_def sends_def n_packets_def last_bytes_def)

subsection \<open>Patches\<close>

text \<open>The packet of part \<open>s\<close>, and the message that carries it as a patch.\<close>

definition part_packet :: "'s MulticastState \<Rightarrow> byte list \<Rightarrow> nat \<Rightarrow> byte list" where
  "part_packet m xs s = packet_of (m_bcd_id m) (iq_app_id (m_msgIntQ m)) xs (unat (m_byte_payload m)) s"

definition patch_token :: "timeval \<Rightarrow> 's MulticastState \<Rightarrow> byte list \<Rightarrow> nat \<Rightarrow> MsgToken \<Rightarrow> bool" where
  "patch_token now m xs s mt \<longleftrightarrow> byte_sent mt = 0
     \<and> tok_buf mt = enc_MsgHdr \<lparr>mh_bcd_id = m_bcd_id m, mh_type = MSG_PATCH_DATA,
         mh_len = 48 + of_nat (length (part_packet m xs s)) + padding_len mt, mh_tv = now\<rparr> @ part_packet m xs s"

definition patchable :: "'s MulticastState \<Rightarrow> byte list \<Rightarrow> bool" where
  "patchable m xs \<longleftrightarrow> sends m xs (unat (m_byte_payload m)) \<and> unat (m_byte_payload m) \<le> 8700
     \<and> length xs < 2 ^ 32"

lemma sends_payload: "sends m xs P \<Longrightarrow> unat (m_byte_payload m) = P"
  by (simp add: sends_def unat_of_nat_u32)

lemma part_packet_length:
  "length (part_packet m xs s) \<le> unat (m_byte_payload m) + 104"
proof -
  have "length (chunk (unat (m_byte_payload m)) xs s) \<le> unat (m_byte_payload m)" by (simp add: chunk_def)
  then show ?thesis by (cases "s = 0") (simp_all add: part_packet_def packet_of_def)
qed

lemma take_poke_0: "take (length xs) (poke 0 xs buf) = xs"
  by (simp add: poke_def)

lemma patch_message:
  assumes "patchable m xs" "s < n_packets (length xs) (unat (m_byte_payload m))"
    and "at_part xs (unat (m_byte_payload m)) s pos"
  shows "\<exists>buf len mt. createData (replicate 9216 0) 0 m xs pos (of_nat s)
      = (buf, s * unat (m_byte_payload m) + length (chunk (unat (m_byte_payload m)) xs s), len)
    \<and> createMsgToken (m_bcd_id m) MSG_PATCH_DATA (Some buf) (ucast (ucast len :: u16)) False now = Inr mt
    \<and> patch_token now m xs s mt"
proof -
  let ?P = "unat (m_byte_payload m)" and ?p = "part_packet m xs s"
  have m: "sends m xs ?P" "?P \<le> 8700" using assms(1) by (simp_all add: patchable_def)
  have l: "length ?p \<le> 8804" using part_packet_length [of m xs s] m(2) by simp
  have u: "unat (ucast (ucast (of_nat (length ?p) :: u32) :: u16) :: u32) = length ?p"
    using l by (simp add: unsigned_ucast_eq unsigned_of_nat take_bit_eq_mod)
  then have w: "(ucast (ucast (of_nat (length ?p) :: u32) :: u16) :: u32) = of_nat (length ?p)"
    using l by (simp add: u32_eq_iff_unat unat_of_nat_u32)
  let ?buf = "poke 0 ?p (replicate 9216 0)"
  have c: "createData (replicate 9216 0) 0 m xs pos (of_nat s)
      = (?buf, s * ?P + length (chunk ?P xs s), of_nat (length ?p))"
    using createData_spec [OF m(1) assms(2,3), of 0 "replicate 9216 0"] m(2) by (simp add: part_packet_def)
  have "createMsgToken (m_bcd_id m) MSG_PATCH_DATA (Some ?buf) (of_nat (length ?p)) False now
      = createMsgToken (m_bcd_id m) MSG_PATCH_DATA (Some ?p) (of_nat (length ?p)) False now"
    using l u unfolding w by (subst createMsgToken_take) (simp_all add: take_poke_0)
  moreover obtain mt where "createMsgToken (m_bcd_id m) MSG_PATCH_DATA (Some ?p) (of_nat (length ?p)) False now = Inr mt"
    "tok_buf mt = enc_MsgHdr \<lparr>mh_bcd_id = m_bcd_id m, mh_type = MSG_PATCH_DATA,
       mh_len = 48 + of_nat (length ?p) + padding_len mt, mh_tv = now\<rparr> @ ?p" "byte_sent mt = 0"
    using create_token_spec [of ?p "of_nat (length ?p)" "m_bcd_id m" MSG_PATCH_DATA False now] l u unfolding w by auto
  ultimately show ?thesis using c w by (auto simp: patch_token_def)
qed

text \<open>The inner loop queues the packets of its tuple in order, as many as the queue admits, and leaves a
  tuple with the others.\<close>

context apr_queue
begin

lemma patch_seqs_spec:
  assumes "patchable m xs" "s \<le> e" "e \<le> n_packets (length xs) (unat (m_byte_payload m))"
    and "s < e \<longrightarrow> at_part xs (unat (m_byte_payload m)) s pos"
  shows "\<exists>q' pos' k mts. patch_seqs Q now m xs q pos \<lparr>stt_seq = of_nat s, end_seq = of_nat e\<rparr>
      = Some (Inr (q', pos', \<lparr>stt_seq = of_nat (s + k), end_seq = of_nat e\<rparr>))
    \<and> k = min (e - s) (101 - length (contents q)) \<and> contents q' = contents q @ mts
    \<and> list_all2 (patch_token now m xs) [s..<s + k] mts"
  using assms(2,4)
proof (induction "e - s" arbitrary: s pos q)
  case 0
  then show ?case by (subst patch_seqs.simps) simp
next
  case (Suc j)
  let ?P = "unat (m_byte_payload m)"
  have n: "n_packets (length xs) ?P < 4294967296" and m: "sends m xs ?P"
    using assms(1) by (simp_all add: patchable_def sends_def)
  have lt: "s < e" using Suc.hyps(2) by simp
  then have s: "s < n_packets (length xs) ?P" using assms(3) by simp
  have w: "(of_nat s :: u32) < of_nat e"
    using lt s assms(3) n by (simp add: word_less_nat_alt unat_of_nat_u32)
  obtain buf len mt where c: "createData (replicate 9216 0) 0 m xs pos (of_nat s)
      = (buf, s * ?P + length (chunk ?P xs s), len)"
    "createMsgToken (m_bcd_id m) MSG_PATCH_DATA (Some buf) (ucast (ucast len :: u16)) False now = Inr mt"
    "patch_token now m xs s mt"
    using patch_message [OF assms(1) s Suc.prems(2) [rule_format, OF lt], of now] by blast
  obtain q1 r where q1: "insertMsg2SendQ Q q (m_bcd_id m) MSG_PATCH_DATA (Some buf) (ucast (ucast len :: u16)) False False now
      = Some (Inr (q1, r))" "if length (contents q) < 101 then r = 0xff \<and> contents q1 = contents q @ [mt]
        else r = 0 \<and> contents q1 = contents q"
    using insert_cases [OF c(2), of q False] by (auto simp: APR_QUEUE_CAPACITY_def)
  have ff: "(0xff :: u8) \<noteq> 0" by code_simp
  show ?case
  proof (cases "length (contents q) < 101")
    case False
    then have "patch_seqs Q now m xs q pos \<lparr>stt_seq = of_nat s, end_seq = of_nat e\<rparr>
        = Some (Inr (q1, s * ?P + length (chunk ?P xs s), \<lparr>stt_seq = of_nat s, end_seq = of_nat e\<rparr>))"
      using w c(1) q1 by (subst patch_seqs.simps) simp
    with False q1(2) show ?thesis
      by (intro exI [of _ q1] exI [of _ "s * ?P + length (chunk ?P xs s)"] exI [of _ 0] exI [of _ "[]"]) simp
  next
    case True
    then have step: "patch_seqs Q now m xs q pos \<lparr>stt_seq = of_nat s, end_seq = of_nat e\<rparr>
        = patch_seqs Q now m xs q1 (s * ?P + length (chunk ?P xs s)) \<lparr>stt_seq = of_nat (Suc s), end_seq = of_nat e\<rparr>"
      using w c(1) q1 ff by (subst patch_seqs.simps) (simp add: add.commute)
    have nx: "Suc s < e \<longrightarrow> at_part xs ?P (Suc s) (s * ?P + length (chunk ?P xs s))"
      using next_pos [OF m s] assms(3) by (simp add: at_part_def)
    have le: "Suc s \<le> e" using lt by simp
    have j: "j = e - Suc s" using Suc.hyps(2) by simp
    obtain q' pos' k mts where ih: "patch_seqs Q now m xs q1 (s * ?P + length (chunk ?P xs s))
          \<lparr>stt_seq = of_nat (Suc s), end_seq = of_nat e\<rparr>
        = Some (Inr (q', pos', \<lparr>stt_seq = of_nat (Suc s + k), end_seq = of_nat e\<rparr>))"
      "k = min (e - Suc s) (101 - length (contents q1))" "contents q' = contents q1 @ mts"
      "list_all2 (patch_token now m xs) [Suc s..<Suc s + k] mts"
      using Suc.hyps(1) [OF j le nx, of q1] by blast
    have "[s..<s + Suc k] = s # [Suc s..<Suc s + k]" by (simp add: upt_conv_Cons)
    then have "list_all2 (patch_token now m xs) [s..<s + Suc k] (mt # mts)" using ih(4) c(3) by simp
    moreover have "Suc k = min (e - s) (101 - length (contents q))" using ih(2) q1(2) True lt by simp
    moreover have "contents q' = contents q @ mt # mts" using ih(3) q1(2) True by simp
    moreover have "patch_seqs Q now m xs q pos \<lparr>stt_seq = of_nat s, end_seq = of_nat e\<rparr>
        = Some (Inr (q', pos', \<lparr>stt_seq = of_nat (s + Suc k), end_seq = of_nat e\<rparr>))"
      using step ih(1) by (simp only: add_Suc add_Suc_right)
    ultimately show ?thesis by blast
  qed
qed

end

text \<open>What a ring of requests asks for, the oldest first.\<close>

definition wanted :: "my_elem list \<Rightarrow> (BcdID \<times> nat) list" where
  "wanted ring = concat (map (\<lambda>e. map (Pair (e_bcd_id e)) [unat (stt_seq (e_pt e))..<unat (end_seq (e_pt e))]) (rev ring))"

definition elem_ok :: "(string \<rightharpoonup> byte list) \<Rightarrow> (BcdID \<rightharpoonup> 's MulticastState) \<Rightarrow> my_elem \<Rightarrow> bool" where
  "elem_ok files ms e \<longleftrightarrow> (\<exists>m xs. ms (e_bcd_id e) = Some m \<and> files (m_bcd_filename m) = Some xs \<and> m_fd_patch m \<noteq> None
     \<and> patchable m xs \<and> stt_seq (e_pt e) \<le> end_seq (e_pt e)
     \<and> unat (end_seq (e_pt e)) \<le> n_packets (length xs) (unat (m_byte_payload m)))"

definition patch_of :: "timeval \<Rightarrow> (string \<rightharpoonup> byte list) \<Rightarrow> (BcdID \<rightharpoonup> 's MulticastState) \<Rightarrow> BcdID \<times> nat \<Rightarrow> MsgToken \<Rightarrow> bool" where
  "patch_of now files ms x mt \<longleftrightarrow> (\<exists>m xs. ms (fst x) = Some m \<and> files (m_bcd_filename m) = Some xs
     \<and> patch_token now m xs (snd x) mt)"

lemma wanted_snoc: "wanted (ring @ [e])
    = map (Pair (e_bcd_id e)) [unat (stt_seq (e_pt e))..<unat (end_seq (e_pt e))] @ wanted ring"
  by (simp add: wanted_def)

lemma patch_fd_update [simp]:
  "patchable (m\<lparr>m_fd_patch := p\<rparr>) xs = patchable m xs" "patch_token now (m\<lparr>m_fd_patch := p\<rparr>) xs s mt = patch_token now m xs s mt"
  by (simp_all add: patchable_def sends_def patch_token_def part_packet_def)

lemma patch_of_update:
  "ms b = Some m \<Longrightarrow> patch_of now files (ms(b \<mapsto> m\<lparr>m_fd_patch := p\<rparr>)) = patch_of now files ms"
  by (intro ext) (auto simp: patch_of_def)

lemma elem_ok_update:
  "ms b = Some m \<Longrightarrow> elem_ok files ms e \<Longrightarrow> elem_ok files (ms(b \<mapsto> m\<lparr>m_fd_patch := Some p\<rparr>)) e"
  by (auto simp: elem_ok_def)

lemma patch_pos:
  assumes "patchable m xs" "s < n_packets (length xs) (unat (m_byte_payload m))"
  shows "unat ((of_nat s :: u32) * m_byte_payload m) = s * unat (m_byte_payload m)"
proof -
  have a: "sends m xs (unat (m_byte_payload m))" "length xs < 4294967296" using assms(1) by (simp_all add: patchable_def)
  then have n: "xs \<noteq> []" "0 < unat (m_byte_payload m)" "n_packets (length xs) (unat (m_byte_payload m)) < 4294967296"
    by (simp_all add: sends_def)
  then have "0 < length xs" by simp
  note c = packets_cover [OF this n(2)]
  have "s * unat (m_byte_payload m) \<le> (n_packets (length xs) (unat (m_byte_payload m)) - 1) * unat (m_byte_payload m)"
    using assms(2) by (intro mult_le_mono1) simp
  then have "s * unat (m_byte_payload m) < 4294967296" using c(2) a(2) by linarith
  then show ?thesis
    using assms(2) n(3) by (subst unat_mult_small) (simp_all add: unat_of_nat_u32)
qed

context apr_queue
begin

lemma processPatchTuple_spec:
  assumes "\<forall>e \<in> set ring. elem_ok files ms e"
  shows "\<exists>ring' q' ms' mts. processPatchTuple Q now files ring q ms = Some (Inr (ring', q', ms'))
    \<and> wanted ring = take (length mts) (wanted ring) @ wanted ring'
    \<and> contents q' = contents q @ mts \<and> list_all2 (patch_of now files ms) (take (length mts) (wanted ring)) mts
    \<and> (ring' = [] \<or> 100 \<le> length (contents q')) \<and> (\<forall>e \<in> set ring'. elem_ok files ms' e)"
  using assms
proof (induction ring arbitrary: q ms rule: rev_induct)
  case Nil
  then show ?case by (subst processPatchTuple.simps) (simp add: wanted_def)
next
  case (snoc e ring)
  show ?case
  proof (cases "100 \<le> length (contents q)")
    case True
    then show ?thesis using snoc.prems
      by (subst processPatchTuple.simps) (simp add: size_law APR_QUEUE_CAPACITY_def)
  next
    case False
    obtain m xs pp where ok: "ms (e_bcd_id e) = Some m" "files (m_bcd_filename m) = Some xs" "m_fd_patch m = Some pp"
      "patchable m xs" "stt_seq (e_pt e) \<le> end_seq (e_pt e)"
      "unat (end_seq (e_pt e)) \<le> n_packets (length xs) (unat (m_byte_payload m))"
      using snoc.prems by (auto simp: elem_ok_def)
    let ?s = "unat (stt_seq (e_pt e))" and ?e = "unat (end_seq (e_pt e))" and ?P = "unat (m_byte_payload m)"
    have pt: "e_pt e = \<lparr>stt_seq = of_nat ?s, end_seq = of_nat ?e\<rparr>" by (cases "e_pt e") simp
    have se: "?s \<le> ?e" using ok(5) by (simp add: word_le_nat_alt)
    have pos: "?s < ?e \<longrightarrow> at_part xs ?P ?s (unat (stt_seq (e_pt e) * m_byte_payload m))"
      using patch_pos [OF ok(4), of ?s] ok(6) by (auto simp: at_part_def)
    obtain q1 pos' k mts where r: "patch_seqs Q now m xs q (unat (stt_seq (e_pt e) * m_byte_payload m)) (e_pt e)
        = Some (Inr (q1, pos', \<lparr>stt_seq = of_nat (?s + k), end_seq = of_nat ?e\<rparr>))"
      "k = min (?e - ?s) (101 - length (contents q))" "contents q1 = contents q @ mts"
      "list_all2 (patch_token now m xs) [?s..<?s + k] mts"
      using patch_seqs_spec [OF ok(4) se ok(6) pos, of now q, folded pt] by blast
    let ?ms = "ms(e_bcd_id e \<mapsto> m\<lparr>m_fd_patch := Some pos'\<rparr>)"
    have k: "k \<le> ?e - ?s" "length mts = k" using r(2,4) by (auto dest: list_all2_lengthD)
    have done1: "list_all2 (patch_of now files ms) (map (Pair (e_bcd_id e)) [?s..<?s + k]) mts"
      using r(4) ok(1,2) by (simp add: list.rel_map patch_of_def list_all2_mono)
    have small: "?s + k < 4294967296"
      using k(1) se unat_u32_lt [of "end_seq (e_pt e)"] by linarith
    have stop: "(of_nat (?s + k) :: u32) = of_nat ?e \<longleftrightarrow> ?s + k = ?e"
      by (rule of_nat_eq_u32) (simp_all add: small)
    have step: "processPatchTuple Q now files (ring @ [e]) q ms =
       (if ?s + k = ?e then processPatchTuple Q now files ring q1 ?ms
        else Some (Inr (ring @ [e\<lparr>e_pt := \<lparr>stt_seq = of_nat (?s + k), end_seq = of_nat ?e\<rparr>\<rparr>], q1, ?ms)))"
      using False ok r(1) stop
      by (subst processPatchTuple.simps) (simp add: size_law APR_QUEUE_CAPACITY_def Let_def)
    have oks: "\<forall>e \<in> set ring. elem_ok files ?ms e" using snoc.prems ok(1) by (simp add: elem_ok_update)
    show ?thesis
    proof (cases "?s + k = ?e")
      case True
      obtain ring' q' ms' mts' where ih: "processPatchTuple Q now files ring q1 ?ms = Some (Inr (ring', q', ms'))"
        "wanted ring = take (length mts') (wanted ring) @ wanted ring'" "contents q' = contents q1 @ mts'"
        "list_all2 (patch_of now files ?ms) (take (length mts') (wanted ring)) mts'"
        "ring' = [] \<or> 100 \<le> length (contents q')" "\<forall>e \<in> set ring'. elem_ok files ms' e"
        using snoc.IH [OF oks, of q1] by blast
      have w: "wanted (ring @ [e]) = map (Pair (e_bcd_id e)) [?s..<?s + k] @ wanted ring"
        unfolding True by (rule wanted_snoc)
      have "take (length (mts @ mts')) (wanted (ring @ [e]))
          = map (Pair (e_bcd_id e)) [?s..<?s + k] @ take (length mts') (wanted ring)"
        unfolding w using k(2) by simp
      then show ?thesis
        using step True ih done1 w r(3) ok(1) patch_of_update [of ms "e_bcd_id e" m now files "Some pos'"]
        by (intro exI [of _ ring'], intro exI [of _ q'], intro exI [of _ ms'], intro exI [of _ "mts @ mts'"])
          (simp add: list_all2_appendI)
    next
      case False
      have b: "length mts = k" by (rule k(2))
      have sp: "[?s..<?e] = [?s..<?s + k] @ [?s + k..<?e]"
        using upt_add_eq_append [of ?s "?s + k" "?e - (?s + k)"] k(1) se by simp
      have uk: "unat (stt_seq (e_pt e) + of_nat k) = ?s + k" using unat_of_nat_u32 [OF small] by simp
      let ?e' = "e\<lparr>e_pt := \<lparr>stt_seq = of_nat (?s + k), end_seq = of_nat ?e\<rparr>\<rparr>"
      have w': "wanted (ring @ [?e']) = map (Pair (e_bcd_id e)) [?s + k..<?e] @ wanted ring"
        using uk by (simp add: wanted_snoc)
      have w: "wanted (ring @ [e]) = map (Pair (e_bcd_id e)) [?s..<?s + k] @ wanted (ring @ [?e'])"
        unfolding w' wanted_snoc sp by (simp add: uk)
      have "elem_ok files ?ms ?e'"
        using ok k(1) se uk by (auto simp: elem_ok_def word_le_nat_alt)
      moreover have "100 \<le> length (contents q1)" using False r(2,3) se b by simp
      ultimately show ?thesis
        using step False oks done1 r(3) b w
        by (intro exI [of _ "ring @ [?e']"], intro exI [of _ q1], intro exI [of _ ?ms], intro exI [of _ mts]) (simp add: fun_upd_def)
    qed
  qed
qed

end

text \<open>C26: \<^verbatim>\<open>processPatchTuple\<close> always returns, and works the requests off in order without losing or repeating one.
  What the ring asks for, oldest request first, is split: the messages appended to the queue carry exactly a first
  part of it, packet by packet with the same bytes as on the fast path, and the new ring asks for exactly the rest,
  with an element that was worked off in part cut at the right place.  The function stops only because nothing is asked
  for any more or the queue is half full.\<close>

theorem processPatchTuple_serves:
  assumes "apr_queue Q contents" and "\<forall>e \<in> set ring. elem_ok files ms e"
  shows "\<exists>ring' q' ms' mts. processPatchTuple Q now files ring q ms = Some (Inr (ring', q', ms'))
    \<and> wanted ring = take (length mts) (wanted ring) @ wanted ring'
    \<and> contents q' = contents q @ mts \<and> list_all2 (patch_of now files ms) (take (length mts) (wanted ring)) mts
    \<and> (ring' = [] \<or> 100 \<le> length (contents q')) \<and> (\<forall>e \<in> set ring'. elem_ok files ms' e)"
  by (rule apr_queue.processPatchTuple_spec [OF assms])

definition example_elem :: my_elem where
  "example_elem = createPatchTupleRingElement zero_id \<lparr>stt_seq = 1, end_seq = 3\<rparr> TV0 TV0"

theorem processPatchTuple_serves_witness:
  "\<exists>q' ms'. processPatchTuple list_queue TV0 [''f'' \<mapsto> [1, 2, 3, 4, 5]] [example_elem] []
      [zero_id \<mapsto> (zero_multicast [] :: nat list MulticastState)\<lparr>m_bcd_filename := ''f'', m_fd_patch := Some 0,
         m_byte_payload := 2, m_byte_payload_min := 1, m_seq_max := 3, m_data_size := 5\<rparr>]
      = Some (Inr ([], q', ms')) \<and> length q' = 2"
proof -
  let ?m = "(zero_multicast [] :: nat list MulticastState)\<lparr>m_bcd_filename := ''f'', m_fd_patch := Some 0,
         m_byte_payload := 2, m_byte_payload_min := 1, m_seq_max := 3, m_data_size := 5\<rparr>"
  let ?ms = "[zero_id \<mapsto> ?m]" and ?fs = "[''f'' \<mapsto> [1, 2, 3, 4, 5]]"
  have "elem_ok ?fs ?ms example_elem"
    by (simp add: elem_ok_def example_elem_def createPatchTupleRingElement_def patchable_def sends_def n_packets_def last_bytes_def)
  then obtain ring' q' ms' mts where r: "processPatchTuple list_queue TV0 ?fs [example_elem] [] ?ms = Some (Inr (ring', q', ms'))"
    "wanted [example_elem] = take (length mts) (wanted [example_elem]) @ wanted ring'" "q' = mts"
    "list_all2 (patch_of TV0 ?fs ?ms) (take (length mts) (wanted [example_elem])) mts"
    "ring' = [] \<or> 100 \<le> length q'"
    using processPatchTuple_serves [OF lq.apr_queue_axioms, of "[example_elem]" ?fs ?ms TV0 "[]"] by auto
  have w: "length (wanted [example_elem]) = 2"
    by (simp add: wanted_def example_elem_def createPatchTupleRingElement_def)
  have le: "length mts \<le> 2" using list_all2_lengthD [OF r(4)] w by simp
  then have nil: "ring' = []" using r(3,5) by simp
  have "length (wanted [example_elem]) = min 2 (length mts) + length (wanted ring')"
    by (subst r(2)) (simp add: w)
  then have "length mts = 2" using w nil le by (simp add: wanted_def)
  with nil r(1,3) show ?thesis by auto
qed

end
