(* ===== verification/Agent.thy ===== *)
theory Agent
  imports Frame Dll Recver Multicast
begin

text \<open>
  The state that the threads of the agent share (\<^verbatim>\<open>global.c\<close>, \<^verbatim>\<open>initSharedDataStructures\<close>),
  and the states of its sockets and applications with the functions of \<^verbatim>\<open>hero.c\<close> that create and
  delete them.  Pointers to sockets, connections and applications are addresses in maps; receivers and
  multicasts are known by their \<open>BcdID\<close>, the key under which the code looks them up.  APR hash tables
  are maps, APR rings and the agent's lists are lists (see \<open>Dll\<close>).  Memory from \<^verbatim>\<open>malloc\<close> that the code does not
  initialise is zero.
\<close>

subsection \<open>Sequencing\<close>

text \<open>A step of a thread may not return, may stop the process, or gives the next state.\<close>

definition ro_bind :: "'a res option \<Rightarrow> ('a \<Rightarrow> 'b res option) \<Rightarrow> 'b res option" where
  "ro_bind x f = (case x of None \<Rightarrow> None | Some (Inl e) \<Rightarrow> Some (Inl e) | Some (Inr y) \<Rightarrow> f y)"

definition ro_deref :: "'a option \<Rightarrow> ('a \<Rightarrow> 'b res option) \<Rightarrow> 'b res option" where
  "ro_deref p f = (case p of None \<Rightarrow> Some (Inl NullDeref) | Some x \<Rightarrow> f x)"

definition ro_assert :: "bool \<Rightarrow> 'b res option \<Rightarrow> 'b res option" where
  "ro_assert b k = (if b then k else Some (Inl AssertFailed))"

fun ro_fold :: "('x \<Rightarrow> 's \<Rightarrow> 's res option) \<Rightarrow> 'x list \<Rightarrow> 's \<Rightarrow> 's res option" where
  "ro_fold f [] s = Some (Inr s)"
| "ro_fold f (x # xs) s = ro_bind (f x s) (ro_fold f xs)"

lemma ro_bind_simps [simp]:
  "ro_bind None f = None" "ro_bind (Some (Inl e)) f = Some (Inl e)" "ro_bind (Some (Inr y)) f = f y"
  by (simp_all add: ro_bind_def)

lemma ro_deref_simps [simp]: "ro_deref None f = Some (Inl NullDeref)" "ro_deref (Some x) f = f x"
  by (simp_all add: ro_deref_def)

lemma ro_assert_simps [simp]: "ro_assert True k = k" "ro_assert False k = Some (Inl AssertFailed)"
  by (simp_all add: ro_assert_def)

lemma ro_bind_Inr_iff: "ro_bind x f = Some (Inr z) \<longleftrightarrow> (\<exists>y. x = Some (Inr y) \<and> f y = Some (Inr z))"
  by (auto simp: ro_bind_def split: option.splits sum.splits)

lemma ro_deref_Inr_iff: "ro_deref p f = Some (Inr z) \<longleftrightarrow> (\<exists>x. p = Some x \<and> f x = Some (Inr z))"
  by (cases p) auto

lemma ro_assert_Inr_iff: "ro_assert b k = Some (Inr z) \<longleftrightarrow> b \<and> k = Some (Inr z)"
  by (simp add: ro_assert_def)

lemmas ro_iffs = ro_bind_Inr_iff ro_deref_Inr_iff ro_assert_Inr_iff

text \<open>What every step of a fold keeps, the fold keeps.\<close>

lemma ro_fold_invariant:
  assumes "\<And>x s s'. x \<in> set xs \<Longrightarrow> I s \<Longrightarrow> f x s = Some (Inr s') \<Longrightarrow> I s'"
    and "I s" and "ro_fold f xs s = Some (Inr s')"
  shows "I s'"
  using assms
proof (induction xs arbitrary: s)
  case Nil
  then show ?case by simp
next
  case (Cons x xs)
  from Cons.prems(3) obtain t where t: "f x s = Some (Inr t)" "ro_fold f xs t = Some (Inr s')"
    by (auto simp: ro_bind_Inr_iff)
  have "I t" using Cons.prems(1) [of x s t] Cons.prems(2) t(1) by simp
  show ?case
    by (rule Cons.IH [OF _ \<open>I t\<close> t(2)]) (use Cons.prems(1) in \<open>auto\<close>)
qed

subsection \<open>Sockets and applications\<close>

datatype FdType = IFACE_UDS | CTRL_RECV_TCP | CTRL_SEND_TCP | PIPE_N2C_RECV | PIPE_I2C_RECV
  | PIPE_C2I_UDS | PIPE_C_SEND2I_UDS

record LocalSocketState =
  ls_id :: int
  ls_msgIntQ :: MsgIntQ
  ls_app_p :: "nat option"
  ls_bcd_id :: BcdID
  reading :: bool

record RecvSocketState =
  server_addr :: in_addr
  rs_nic_name :: string
  rs_ip_address :: string

datatype sock_state = NoState | LocalSock (the_lsock: LocalSocketState) | RecvSock (the_rsock: RecvSocketState)

record 'q FdState =
  fd :: int
  fd_type :: FdType
  state_p :: sock_state
  is_trashed :: bool
  tv_trashed :: timeval
  fd_rbuf :: rbuf
  fd_sendQueue_p :: "'q option"
  fd_remainMsgToken_p :: "MsgToken option"

record 'q SendSocketState =
  ss_socket :: int
  ss_client_addr :: in_addr
  ss_rbuf :: rbuf
  ss_sendQueue_p :: 'q
  ss_remainMsgToken_p :: "MsgToken option"
  ringPatchTuple :: "my_elem list"

record AppState =
  as_app_id :: AppID
  as_app_id_str :: string
  bcd_dir_str :: string
  as_master_addr :: string
  uds_hash :: "int \<rightharpoonup> nat"
  bcd_sender_hash :: "BcdID set"

text \<open>A command for the send thread: the connection whose queue it is for, and the token.\<close>

record cmd_elem =
  cmd_bcd_id :: BcdID
  cmd_sendQueue_p :: nat
  cmd_mt_p :: MsgToken

subsection \<open>The shared state\<close>

text \<open>\<open>sv_app_p2\<close> is the variable \<^verbatim>\<open>app_p2\<close> of the service thread, which keeps its value from one message
  to the next; \<open>None\<close> is its uninitialised value.\<close>

record config =
  hostinaddress_ctrl :: in_addr
  hostinaddress_data :: in_addr
  hostethhdr_data :: "byte list"
  data_payload_len :: bytes_t
  seq_zero_notify :: bool
  connect_controller :: bool
  first_first_seq_fullrate :: bool
  attempt_scale :: real
  nm_burst :: nat
  cf_rate_type :: RateType
  rate_f :: real
  ctrl_nic_name :: string

record ('q, 's, 'u) agent =
  hashRecver :: "BcdID \<rightharpoonup> RecverState"
  hashMulticast :: "BcdID \<rightharpoonup> 's MulticastState"
  hashApp :: "AppID \<rightharpoonup> nat"
  app_heap :: "nat \<rightharpoonup> AppState"
  fds_heap :: "nat \<rightharpoonup> 'q FdState"
  ssock_heap :: "nat \<rightharpoonup> 'q SendSocketState"
  next_addr :: nat
  lsockList :: "nat list"
  rsockList :: "nat list"
  ssockList :: "nat list"
  ringCmd :: "cmd_elem list"
  queuePush_p :: 'u
  activeMulticast_p :: "BcdID option"
  localSocketID :: int
  sv_app_p2 :: "nat option"
  files :: "string \<rightharpoonup> byte list"
  dirs :: "string set"
  pipe_n2c :: "byte list"
  pipe_c2i :: "byte list"
  pipe_c_send2i :: "byte list"
  pipe_i2c :: "byte list"
  need_release_path :: bool
  am_txring_head :: nat
  am_txring_tail_last :: nat

definition initSharedDataStructures :: "('u, BcdID) skiplist_ops \<Rightarrow> ('q, 's, 'u) agent" where
  "initSharedDataStructures U =
     \<lparr>hashRecver = Map.empty, hashMulticast = Map.empty, hashApp = Map.empty, app_heap = Map.empty,
      fds_heap = Map.empty, ssock_heap = Map.empty, next_addr = 0, lsockList = [], rsockList = [], ssockList = [],
      ringCmd = [], queuePush_p = sk_init U, activeMulticast_p = None, localSocketID = 0, sv_app_p2 = None,
      files = Map.empty, dirs = {}, pipe_n2c = [], pipe_c2i = [], pipe_c_send2i = [], pipe_i2c = [],
      need_release_path = False, am_txring_head = 0, am_txring_tail_last = 0\<rparr>"

subsection \<open>Creating\<close>

definition createFdState :: "'q queue_ops \<Rightarrow> int \<Rightarrow> FdType \<Rightarrow> sock_state \<Rightarrow> 'q FdState" where
  "createFdState Q f ty st =
     \<lparr>fd = f, fd_type = ty, state_p = st, is_trashed = False, tv_trashed = TV0, fd_rbuf = rbuf_init,
      fd_sendQueue_p = (if ty = CTRL_RECV_TCP \<or> ty = IFACE_UDS
        then Some (apr_queue_create Q APR_QUEUE_CAPACITY) else None),
      fd_remainMsgToken_p = None\<rparr>"

definition NULL_INTQ :: MsgIntQ where
  "NULL_INTQ = \<lparr>master_addr = replicate IP_ADDR_LEN 0, executor_id = 0, masterinaddr = 0,
     iq_app_id = replicate APPID_LEN 0\<rparr>"

definition createLocalSocketState :: "'q queue_ops \<Rightarrow> int \<Rightarrow> int \<Rightarrow> 'q FdState" where
  "createLocalSocketState Q f i = createFdState Q f IFACE_UDS
     (LocalSock \<lparr>ls_id = i, ls_msgIntQ = NULL_INTQ, ls_app_p = None,
        ls_bcd_id = mh_bcd_id NULL_HDR, reading = False\<rparr>)"

text \<open>\<^verbatim>\<open>createRecvSocketState\<close>: \<open>addr\<close> is the result of \<^verbatim>\<open>gethostbyname\<close>, \<open>f\<close> the connected
  socket, \<open>None\<close> when any of the calls fails.\<close>

definition createRecvSocketState :: "'q queue_ops \<Rightarrow> in_addr option \<Rightarrow> int option \<Rightarrow> string \<Rightarrow> string
    \<Rightarrow> 'q FdState res" where
  "createRecvSocketState Q addr f ip nic = (case addr of None \<Rightarrow> Inl Exited
     | Some a \<Rightarrow> (case f of None \<Rightarrow> Inl Exited
       | Some f \<Rightarrow> Inr (createFdState Q f CTRL_RECV_TCP
           (RecvSock \<lparr>server_addr = a, rs_nic_name = nic, rs_ip_address = ip\<rparr>))))"

definition createSendSocketState :: "'q queue_ops \<Rightarrow> int \<Rightarrow> in_addr \<Rightarrow> 'q SendSocketState" where
  "createSendSocketState Q sock addr =
     \<lparr>ss_socket = sock, ss_client_addr = addr, ss_rbuf = rbuf_init,
      ss_sendQueue_p = apr_queue_create Q APR_QUEUE_CAPACITY, ss_remainMsgToken_p = None,
      ringPatchTuple = []\<rparr>"

text \<open>\<^verbatim>\<open>createAppState\<close>: the directory of the application is made; \<open>log_ok\<close> says that its log file
  could be opened.\<close>

definition createAppState :: "bool \<Rightarrow> bool \<Rightarrow> string set \<Rightarrow> AppID \<Rightarrow> byte list \<Rightarrow> byte list
    \<Rightarrow> (AppState \<times> string set) res" where
  "createAppState mkdir_ok log_ok ds aid app master =
     (let dir = AppIdtoDir aid; ds = createDir mkdir_ok ds dir
      in if log_ok
         then Inr (\<lparr>as_app_id = aid, as_app_id_str = c_string app, bcd_dir_str = dir,
            as_master_addr = c_string master, uds_hash = Map.empty, bcd_sender_hash = {}\<rparr>, ds)
         else Inl Aborted)"

definition createCmd :: "nat \<Rightarrow> BcdID \<Rightarrow> msg_type \<Rightarrow> byte list option \<Rightarrow> bytes_t \<Rightarrow> bool \<Rightarrow> timeval
    \<Rightarrow> cmd_elem res" where
  "createCmd q bid ty payload plen padding now =
     rbind (createMsgToken bid ty payload plen padding now) (\<lambda>mt.
       Inr \<lparr>cmd_bcd_id = bid, cmd_sendQueue_p = q, cmd_mt_p = mt\<rparr>)"

subsection \<open>Deleting\<close>

definition trashFdState :: "timeval \<Rightarrow> 'q FdState \<Rightarrow> 'q FdState res" where
  "trashFdState now f = assert_c (\<not> is_trashed f) (Inr (f\<lparr>is_trashed := True, tv_trashed := now\<rparr>))"

text \<open>The tokens that are freed with a connection of the send thread: those of its queue, and the one that was sent in
  part.\<close>

definition deleteMsgToken :: "MsgToken option \<Rightarrow> MsgToken list \<Rightarrow> MsgToken list" where
  "deleteMsgToken mt toks = (case mt of None \<Rightarrow> toks | Some t \<Rightarrow> toks @ [t])"

definition deleteSendSocketState :: "'q queue_ops \<Rightarrow> nat option \<Rightarrow> ('q, 's, 'u) agent
    \<Rightarrow> (('q, 's, 'u) agent \<times> MsgToken list) res option" where
  "deleteSendSocketState Q p a = (case p of None \<Rightarrow> Some (Inr (a, []))
     | Some x \<Rightarrow> ro_deref (ssock_heap a x) (\<lambda>s.
         (case deleteSendQueue Q (ss_sendQueue_p s) [] of None \<Rightarrow> None
          | Some (_, toks) \<Rightarrow> Some (Inr (a\<lparr>ssock_heap := (ssock_heap a)(x := None)\<rparr>,
              deleteMsgToken (ss_remainMsgToken_p s) toks)))))"

lemma deleteSendSocketState_frees:
  assumes "apr_queue Q contents" "ssock_heap a x = Some s"
  shows "deleteSendSocketState Q (Some x) a = Some (Inr (a\<lparr>ssock_heap := (ssock_heap a)(x := None)\<rparr>,
      contents (ss_sendQueue_p s) @ (case ss_remainMsgToken_p s of None \<Rightarrow> [] | Some t \<Rightarrow> [t])))"
  using apr_queue.deleteSendQueue_all [OF assms(1), of "ss_sendQueue_p s" "[]"] assms(2)
  by (auto simp: deleteSendSocketState_def deleteMsgToken_def split: option.split)

text \<open>\<^verbatim>\<open>deleteAppState\<close> closes the files of the application's multicasts and removes its directory with
  everything in it; the application stays in the table of applications.\<close>

definition close_multicast :: "'s MulticastState \<Rightarrow> 's MulticastState" where
  "close_multicast m = m\<lparr>m_fd := closeFile (m_fd m), m_fd_patch := closeFile (m_fd_patch m)\<rparr>"

definition in_dir :: "string \<Rightarrow> string \<Rightarrow> bool" where
  "in_dir d f \<longleftrightarrow> take (length d) f = d"

definition deleteAppState :: "nat \<Rightarrow> ('q, 's, 'u) agent \<Rightarrow> ('q, 's, 'u) agent res" where
  "deleteAppState a g = deref (app_heap g a) (\<lambda>app.
     Inr (g\<lparr>app_heap := (app_heap g)(a \<mapsto> app\<lparr>uds_hash := Map.empty, bcd_sender_hash := {}\<rparr>),
        hashMulticast := (\<lambda>b. if b \<in> bcd_sender_hash app then map_option close_multicast (hashMulticast g b)
                               else hashMulticast g b),
        files := (if bcd_dir_str app \<in> dirs g
          then (\<lambda>f. if in_dir (bcd_dir_str app) f then None else files g f) else files g),
        dirs := deleteDir (dirs g) (bcd_dir_str app)\<rparr>))"

definition deleteUDSState :: "LocalSocketState \<Rightarrow> ('q, 's, 'u) agent \<Rightarrow> ('q, 's, 'u) agent res" where
  "deleteUDSState ls g = deref (ls_app_p ls) (\<lambda>a. deref (app_heap g a) (\<lambda>app.
     let app = app\<lparr>uds_hash := (uds_hash app)(ls_id ls := None)\<rparr>;
         g = g\<lparr>app_heap := (app_heap g)(a \<mapsto> app)\<rparr>
     in if dom (uds_hash app) = {} then deleteAppState a g else Inr g))"

definition deleteFdState :: "'q queue_ops \<Rightarrow> nat \<Rightarrow> ('q, 's, 'u) agent \<Rightarrow> ('q, 's, 'u) agent res option" where
  "deleteFdState Q a g = (case fds_heap g a of None \<Rightarrow> Some (Inl NullDeref)
     | Some f \<Rightarrow>
        if \<not> is_trashed f then Some (Inl AssertFailed)
        else (case (case (fd_type f, state_p f) of
                 (IFACE_UDS, LocalSock ls) \<Rightarrow> deleteUDSState ls g
               | _ \<Rightarrow> Inr g) of
             Inl e \<Rightarrow> Some (Inl e)
           | Inr g \<Rightarrow> (case (case fd_sendQueue_p f of None \<Rightarrow> Some []
                 | Some q \<Rightarrow> map_option snd (deleteSendQueue Q q [])) of
               None \<Rightarrow> None
             | Some _ \<Rightarrow> Some (Inr (g\<lparr>fds_heap := (fds_heap g)(a := None)\<rparr>)))))"

subsection \<open>What the threads share\<close>

text \<open>The search through the connections to masters for an address, which three threads do.\<close>

primrec find_rsock :: "(nat \<rightharpoonup> 'q FdState) \<Rightarrow> string \<Rightarrow> nat list \<Rightarrow> nat option res" where
  "find_rsock h ip [] = Inr None"
| "find_rsock h ip (a # as) = (case h a of None \<Rightarrow> Inl UseAfterFree
     | Some f \<Rightarrow> if fd_type f = CTRL_RECV_TCP
         then (case state_p f of
             RecvSock s \<Rightarrow> if ip = rs_ip_address s then Inr (Some a) else find_rsock h ip as
           | _ \<Rightarrow> Inl NullDeref)
         else find_rsock h ip as)"

text \<open>Connecting to a master: \<open>conn\<close> gives what \<^verbatim>\<open>gethostbyname\<close> and \<^verbatim>\<open>connect\<close> give for an
  address.\<close>

definition connect_master :: "'q queue_ops \<Rightarrow> (string \<Rightarrow> in_addr option \<times> int option) \<Rightarrow> config \<Rightarrow> string
    \<Rightarrow> ('q, 's, 'u) agent \<Rightarrow> (nat \<times> ('q, 's, 'u) agent) res" where
  "connect_master Q conn cf ip g =
     rbind (find_rsock (fds_heap g) ip (rsockList g)) (\<lambda>found. case found of
         Some a \<Rightarrow> Inr (a, g)
       | None \<Rightarrow> rbind (createRecvSocketState Q (fst (conn ip)) (snd (conn ip)) ip (ctrl_nic_name cf)) (\<lambda>f.
           let a = next_addr g
           in Inr (a, g\<lparr>fds_heap := (fds_heap g)(a \<mapsto> f), next_addr := a + 1, rsockList := rsockList g @ [a]\<rparr>)))"

text \<open>Queueing a priority message on a connection; every caller aborts when the queue is full.\<close>

definition fds_send :: "'q queue_ops \<Rightarrow> timeval \<Rightarrow> nat \<Rightarrow> BcdID \<Rightarrow> msg_type \<Rightarrow> byte list option
    \<Rightarrow> ('q, 's, 'u) agent \<Rightarrow> ('q, 's, 'u) agent res option" where
  "fds_send Q now a bid ty payload g =
     (case fds_heap g a of None \<Rightarrow> Some (Inl UseAfterFree)
      | Some f \<Rightarrow> ro_deref (fd_sendQueue_p f) (\<lambda>q.
          ro_bind (insertMsg2SendQ Q q bid ty payload
              (case payload of None \<Rightarrow> 0 | Some p \<Rightarrow> of_nat (length p)) False True now) (\<lambda>(q, ret).
            if ret = 0 then Some (Inl Aborted)
            else Some (Inr (g\<lparr>fds_heap := (fds_heap g)(a \<mapsto> f\<lparr>fd_sendQueue_p := Some q\<rparr>)\<rparr>)))))"

text \<open>The memory image of a \<^verbatim>\<open>MsgIntQ\<close>, which goes through a pipe, and the image of a reply to a
  reader.\<close>

definition intQ_bytes :: "MsgIntQ \<Rightarrow> byte list" where
  "intQ_bytes m = master_addr m @ le_enc 4 (word_of_int (executor_id m) :: u32) @ le_enc 4 (masterinaddr m)
     @ iq_app_id m"

definition intQ_of :: "byte list \<Rightarrow> MsgIntQ" where
  "intQ_of bs = \<lparr>master_addr = peek 0 IP_ADDR_LEN bs, executor_id = to_s32 (le_dec (peek 16 4 bs)),
     masterinaddr = le_dec (peek 20 4 bs), iq_app_id = peek 24 APPID_LEN bs\<rparr>"

definition readRpl_bytes :: "u32 \<Rightarrow> databyte \<Rightarrow> databyte \<Rightarrow> databyte \<Rightarrow> byte list" where
  "readRpl_bytes code start jump sz = le_enc 4 (htonl code) @ replicate 4 0
     @ le_enc 8 (htobe64 (word_of_int start)) @ le_enc 8 (htobe64 (word_of_int jump))
     @ le_enc 8 (htobe64 (word_of_int sz))"

definition code_bytes :: "u32 \<Rightarrow> byte list" where
  "code_bytes code = le_enc 4 (htonl code)"

text \<open>\<^verbatim>\<open>main\<close> after \<^verbatim>\<open>initSharedDataStructures\<close>: the reading ends of the four pipes are put into the lists
  of the threads that read them; \<open>p1\<close> to \<open>p4\<close> are their descriptors.\<close>

definition main_pipes :: "'q queue_ops \<Rightarrow> int \<Rightarrow> int \<Rightarrow> int \<Rightarrow> int \<Rightarrow> ('q, 's, 'u) agent \<Rightarrow> ('q, 's, 'u) agent" where
  "main_pipes Q p1 p2 p3 p4 g =
     (let n = next_addr g
      in g\<lparr>fds_heap := (fds_heap g)(n \<mapsto> createFdState Q p1 PIPE_N2C_RECV NoState,
             n + 1 \<mapsto> createFdState Q p2 PIPE_I2C_RECV NoState,
             n + 2 \<mapsto> createFdState Q p3 PIPE_C2I_UDS NoState,
             n + 3 \<mapsto> createFdState Q p4 PIPE_C_SEND2I_UDS NoState),
           next_addr := n + 4, rsockList := rsockList g @ [n, n + 1], lsockList := lsockList g @ [n + 2, n + 3]\<rparr>)"

subsection \<open>Files\<close>

text \<open>Access through an open file: one that was removed has no name any more, and what is written to it
  is lost with its last descriptor.\<close>

definition file_of :: "('q, 's, 'u) agent \<Rightarrow> string \<Rightarrow> byte list" where
  "file_of g fn = (case files g fn of None \<Rightarrow> [] | Some bs \<Rightarrow> bs)"

definition put_file :: "string \<Rightarrow> byte list \<Rightarrow> ('q, 's, 'u) agent \<Rightarrow> ('q, 's, 'u) agent" where
  "put_file fn bs g = (if files g fn = None then g else g\<lparr>files := (files g)(fn \<mapsto> bs)\<rparr>)"

subsection \<open>What a read gives\<close>

datatype recv_result = Got "byte list" | Shut | Again | Failed

text \<open>\<^verbatim>\<open>read\<close> is given the free part of the receive buffer: it takes at most that many bytes, and returns 0,
  as for a closed connection, when there is no free part.\<close>

definition recv_into :: "rbuf \<Rightarrow> recv_result \<Rightarrow> recv_result" where
  "recv_into r res = (case res of
     Got bs \<Rightarrow> (let c = take (RECVBUF_LEN - unat (recv_ed_byte r)) bs in if c = [] then Shut else Got c)
   | _ \<Rightarrow> res)"

text \<open>What one pass of a control thread meets: the time, the result of \<^verbatim>\<open>select\<close> (failing with an
  error that is ignored or not), the descriptors it marks, what \<^verbatim>\<open>read\<close>, \<^verbatim>\<open>send\<close> and \<^verbatim>\<open>accept\<close> do.  The time is
  the same at every call of \<^verbatim>\<open>gettimeofday\<close> of the pass.\<close>

datatype select_result = TimedOut | ReadyFds | SelectFailed (ignorable: bool)

record io_env =
  io_now :: timeval
  io_select :: select_result
  io_rd :: "int \<Rightarrow> recv_result option"
  io_wr :: "int set"
  io_send :: "int \<Rightarrow> nat \<Rightarrow> byte list \<Rightarrow> int"
  io_accept :: "(int \<times> in_addr) option option"

end
