(* ===== verification/SendThread.thy ===== *)
theory SendThread
  imports Agent
begin

text \<open>
  One pass of the loop of \<^verbatim>\<open>thread_sendSocket\<close> (\<^verbatim>\<open>thread_send.c\<close>), the master's side of the control channel:
  the scan that tells receivers to stop waiting for the fast path, the ring of commands, the patches,
  new connections, and the messages of the receivers.  \<open>Q\<close> are the operations of the APR queue,
  \<open>S\<close> those of the skip list of senders; the order in which the hash table is iterated is an argument.
  Signals to the data thread only interrupt its \<^verbatim>\<open>poll\<close>.
\<close>

subsection \<open>The scan for finished receivers\<close>

text \<open>Senders whose end has been transmitted move from the priority queue to the array.\<close>

partial_function (option) scan_pop :: "('s, nat) skiplist_ops \<Rightarrow> timeval \<Rightarrow> 's MulticastState
    \<Rightarrow> 's MulticastState res option" where
  "scan_pop S now m = (case sk_peek S (sender_end_seq_pq_p m) of None \<Rightarrow> Some (Inr m)
     | Some i \<Rightarrow>
        if length (sender_heap m) \<le> i then Some (Inl UseAfterFree)
        else if seqEnd (sender_heap m ! i) \<le> seq_cur m then
          (if sender_end_seq_arr_idx_end m < length (sender_end_seq_arr_p m)
           then scan_pop S now (m\<lparr>sender_heap := (sender_heap m)[i := (sender_heap m ! i)\<lparr>tv_fast_done := now\<rparr>],
             sender_end_seq_pq_p := fst (sk_pop S (sender_end_seq_pq_p m)),
             sender_end_seq_arr_p := (sender_end_seq_arr_p m)[sender_end_seq_arr_idx_end m := Some i],
             sender_end_seq_arr_idx_end := sender_end_seq_arr_idx_end m + 1\<rparr>)
           else Some (Inl OutOfBounds))
        else Some (Inr m))"

text \<open>A second after that, a receiver that is not done gets \<^verbatim>\<open>MSG_FAST_DONE\<close>.\<close>

primrec scan_timeout :: "timeval \<Rightarrow> nat list \<Rightarrow> 's MulticastState \<Rightarrow> cmd_elem list
    \<Rightarrow> ('s MulticastState \<times> cmd_elem list) res" where
  "scan_timeout now [] m ring = Inr (m, ring)"
| "scan_timeout now (k # ks) m ring = (if length (sender_end_seq_arr_p m) \<le> k then Inl OutOfBounds
     else deref (sender_end_seq_arr_p m ! k) (\<lambda>i. if length (sender_heap m) \<le> i then Inl UseAfterFree
     else let sd = sender_heap m ! i
     in if tv_to_us (timersub now (tv_fast_done sd)) > FAST_DONE_TIMEOUT_MSEC * 1000 then
          rbind (if has_all_done sd then Inr ring
                 else deref (s_ssock_p sd) (\<lambda>a.
                   rbind (createCmd a (s_bcd_id sd) MSG_FAST_DONE None 0 False now) (\<lambda>c. Inr (c # ring))))
            (\<lambda>ring. scan_timeout now ks
               (m\<lparr>sender_end_seq_arr_idx_start := sender_end_seq_arr_idx_start m + 1\<rparr>) ring)
        else Inr (m, ring)))"

definition scan_multicast :: "('s, nat) skiplist_ops \<Rightarrow> timeval \<Rightarrow> BcdID \<Rightarrow> ('q, 's, 'u) agent
    \<Rightarrow> ('q, 's, 'u) agent res option" where
  "scan_multicast S now b g = (case hashMulticast g b of None \<Rightarrow> Some (Inr g)
     | Some m \<Rightarrow> ro_bind (scan_pop S now m) (\<lambda>m.
         ro_bind (Some (if bcd_state m = BCDSTATE_DEAD
             then scan_timeout now [sender_end_seq_arr_idx_start m..<sender_end_seq_arr_idx_end m] m (ringCmd g)
             else Inr (m, ringCmd g)))
           (\<lambda>(m, ring). Some (Inr (g\<lparr>hashMulticast := (hashMulticast g)(b \<mapsto> m), ringCmd := ring\<rparr>)))))"

subsection \<open>Commands, patches and connections\<close>

text \<open>Commands are taken from the end of the ring until a queue is full.\<close>

function process_cmds :: "'q queue_ops \<Rightarrow> cmd_elem list \<Rightarrow> ('q, 's, 'u) agent \<Rightarrow> ('q, 's, 'u) agent res" where
  "process_cmds Q ring g =
     (if ring = [] then Inr (g\<lparr>ringCmd := []\<rparr>)
      else (let c = last ring in case ssock_heap g (cmd_sendQueue_p c) of None \<Rightarrow> Inl UseAfterFree
        | Some s \<Rightarrow> (case apr_queue_trypush Q (ss_sendQueue_p s) (cmd_mt_p c) of (q, st) \<Rightarrow>
            let g = g\<lparr>ssock_heap := (ssock_heap g)(cmd_sendQueue_p c \<mapsto> s\<lparr>ss_sendQueue_p := q\<rparr>)\<rparr>
            in if st = APR_SUCCESS then process_cmds Q (butlast ring) g else Inr (g\<lparr>ringCmd := ring\<rparr>))))"
  by pat_completeness auto
termination by (relation "measure (\<lambda>(Q, ring, g). length ring)") auto

declare process_cmds.simps [simp del]

text \<open>The pass over the connections before \<^verbatim>\<open>select\<close>: patches become messages, and connections with
  messages are watched for writing.\<close>

definition send_select :: "'q queue_ops \<Rightarrow> timeval \<Rightarrow> nat \<Rightarrow> ('q, 's, 'u) agent \<times> int set
    \<Rightarrow> (('q, 's, 'u) agent \<times> int set) res option" where
  "send_select Q now a x = (case x of (g, ws) \<Rightarrow>
     (case ssock_heap g a of None \<Rightarrow> Some (Inl UseAfterFree)
      | Some s \<Rightarrow> ro_bind (processPatchTuple Q now (files g) (ringPatchTuple s) (ss_sendQueue_p s) (hashMulticast g))
          (\<lambda>(ring, q, ms). Some (Inr
            (g\<lparr>ssock_heap := (ssock_heap g)(a \<mapsto> s\<lparr>ringPatchTuple := ring, ss_sendQueue_p := q\<rparr>),
               hashMulticast := ms\<rparr>,
             if 0 < apr_queue_size Q q then insert (ss_socket s) ws else ws)))))"

definition send_accept :: "'q queue_ops \<Rightarrow> io_env \<Rightarrow> ('q, 's, 'u) agent \<Rightarrow> ('q, 's, 'u) agent res" where
  "send_accept Q e g = (case io_accept e of None \<Rightarrow> Inr g | Some None \<Rightarrow> Inl Aborted
     | Some (Some (sock, addr)) \<Rightarrow> (let a = next_addr g
         in Inr (g\<lparr>ssock_heap := (ssock_heap g)(a \<mapsto> createSendSocketState Q sock addr), next_addr := a + 1,
              ssockList := ssockList g @ [a]\<rparr>)))"

subsection \<open>The messages of a receiver\<close>

text \<open>\<^verbatim>\<open>MSG_PULL\<close>: a receiver that is not in the push is sent away.\<close>

definition send_pull :: "'q queue_ops \<Rightarrow> timeval \<Rightarrow> nat \<Rightarrow> BcdID \<Rightarrow> nat option \<Rightarrow> ('q, 's, 'u) agent
    \<Rightarrow> ('q, 's, 'u) agent res option" where
  "send_pull Q now a bid sp g = (case sp of Some _ \<Rightarrow> Some (Inr g)
     | None \<Rightarrow> (case ssock_heap g a of None \<Rightarrow> Some (Inl UseAfterFree)
       | Some s \<Rightarrow> ro_bind (insertMsg2SendQ Q (ss_sendQueue_p s) bid MSG_PULL_REJECT None 0 False True now)
           (\<lambda>(q, ret). if ret = 0 then Some (Inl Aborted)
              else Some (Inr (g\<lparr>ssock_heap := (ssock_heap g)(a \<mapsto> s\<lparr>ss_sendQueue_p := q\<rparr>)\<rparr>)))))"

text \<open>The bookkeeping that \<^verbatim>\<open>MSG_FIRST_SEQ\<close> and \<^verbatim>\<open>MSG_ALL_DONE\<close> share: the first one, the first from a
  different rack.\<close>

definition mark_all_done_rack :: "timeval \<Rightarrow> SenderState \<Rightarrow> 's MulticastState \<Rightarrow> 's MulticastState" where
  "mark_all_done_rack now sd m =
     (if \<not> is_all_done_distinct_rack m \<and> s_is_distinct_rack sd
      then m\<lparr>is_all_done_distinct_rack := True,
             m_tv := (m_tv m)\<lparr>tv_first_all_done_distinct_rack := now\<rparr>\<rparr> else m)"

text \<open>\<^verbatim>\<open>MSG_FIRST_SEQ\<close> on the multicast: the new state, and whether the service thread is told that all
  receivers have all data.\<close>

definition first_seq_marks :: "timeval \<Rightarrow> SenderState \<Rightarrow> 's MulticastState \<Rightarrow> 's MulticastState" where
  "first_seq_marks now sd m =
     (let m = (if n_first_seq m = 0 then m\<lparr>m_tv := (m_tv m)\<lparr>tv_first_first_seq := now\<rparr>\<rparr> else m);
          m = (if \<not> is_first_seq_distinct_rack m \<and> s_is_distinct_rack sd
               then m\<lparr>is_first_seq_distinct_rack := True,
                      m_tv := (m_tv m)\<lparr>tv_first_first_seq_distinct_rack := now\<rparr>\<rparr> else m)
      in if unat (n_first_seq m) + 1 = unat (n_init m)
         then m\<lparr>m_tv := (m_tv m)\<lparr>tv_last_first_seq := now\<rparr>\<rparr> else m)"

definition first_seq_single :: "timeval \<Rightarrow> SenderState \<Rightarrow> 's MulticastState \<Rightarrow> 's MulticastState \<times> bool" where
  "first_seq_single now sd m =
     (if m_seq_max m = 1 then
        (let m = (if n_all_done m = 0 then m\<lparr>m_tv := (m_tv m)\<lparr>tv_first_all_done := now\<rparr>\<rparr> else m);
             m = mark_all_done_rack now sd m;
             fin = (unat (n_all_done m) + 1 = unat (n_init m));
             m = (if fin then m\<lparr>m_tv := (m_tv m)\<lparr>tv_last_all_done := now\<rparr>\<rparr> else m)
         in (m\<lparr>n_all_done := n_all_done m + 1\<rparr>, fin))
      else (m, False))"

definition first_seq :: "('s, nat) skiplist_ops \<Rightarrow> timeval \<Rightarrow> nat \<Rightarrow> seqnum \<Rightarrow> nat \<Rightarrow> 's MulticastState
    \<Rightarrow> ('s MulticastState \<times> bool) res" where
  "first_seq S now a f i m =
     (if length (sender_heap m) \<le> i then Inl UseAfterFree
      else (let sd = sender_heap m ! i;
                sd = sd\<lparr>msf := f, s_ssock_p := (case s_ssock_p sd of None \<Rightarrow> Some a | Some b \<Rightarrow> Some b)\<rparr>;
                m = first_seq_marks now sd (m\<lparr>sender_heap := (sender_heap m)[i := sd]\<rparr>)
            in case first_seq_single now sd m of (m, fin) \<Rightarrow>
                 rbind (updateSeqEnd S (m\<lparr>n_first_seq := n_first_seq m + 1\<rparr>) i) (\<lambda>m. Inr (m, fin))))"

text \<open>\<^verbatim>\<open>MSG_ALL_DONE\<close>.\<close>

definition all_done :: "timeval \<Rightarrow> nat \<Rightarrow> 's MulticastState \<Rightarrow> ('s MulticastState \<times> bool) res" where
  "all_done now i m =
     (if length (sender_heap m) \<le> i then Inl UseAfterFree
      else (let sd = sender_heap m ! i
            in assert_c (\<not> has_all_done sd)
              (let m = m\<lparr>n_all_done := n_all_done m + 1,
                         sender_heap := (sender_heap m)[i := sd\<lparr>has_all_done := True\<rparr>]\<rparr>;
                   m = (if n_all_done m = 1 then m\<lparr>m_tv := (m_tv m)\<lparr>tv_first_all_done := now\<rparr>\<rparr> else m);
                   m = mark_all_done_rack now sd m;
                   fin = (n_all_done m = n_init m)
               in Inr (if fin then m\<lparr>m_tv := (m_tv m)\<lparr>tv_last_all_done := now\<rparr>\<rparr> else m, fin))))"

text \<open>\<^verbatim>\<open>MSG_PATCH_REQ\<close>: the request on the round of sequence numbers, cut into the tuples that go to
  the head of the ring, in their order, and the number of packets.\<close>

definition patch_req_norm :: "seqnum \<Rightarrow> seqnum \<Rightarrow> PatchTuple \<Rightarrow> PatchTuple" where
  "patch_req_norm smax se pt =
     (let pt = pt\<lparr>stt_seq := stt_seq pt mod smax\<rparr>
      in if end_seq pt = SEQNUM_MAX then pt\<lparr>end_seq := se mod smax\<rparr> else pt)"

definition patch_req_cut :: "seqnum \<Rightarrow> PatchTuple \<Rightarrow> PatchTuple list \<times> seqnum" where
  "patch_req_cut smax pt =
     (if stt_seq pt < end_seq pt then ([pt], end_seq pt - stt_seq pt)
      else if end_seq pt < stt_seq pt
      then (let pt1 = pt\<lparr>stt_seq := 0\<rparr>; pt2 = pt\<lparr>end_seq := smax\<rparr>
            in ([pt1, pt2], (end_seq pt1 - stt_seq pt1) + (end_seq pt2 - stt_seq pt2)))
      else ([], 0))"

definition patch_req :: "timeval \<Rightarrow> BcdID \<Rightarrow> PatchTuple \<Rightarrow> nat \<Rightarrow> 's MulticastState \<Rightarrow> my_elem list
    \<Rightarrow> ('s MulticastState \<times> my_elem list) res" where
  "patch_req now bid pt i m ring =
     (if length (sender_heap m) \<le> i then Inl UseAfterFree
      else if m_seq_max m = 0 then Inl DivByZero
      else (let sd = sender_heap m ! i
            in case patch_req_cut (m_seq_max m) (patch_req_norm (m_seq_max m) (seqEnd sd) pt) of (pts, n) \<Rightarrow>
                 Inr (m\<lparr>n_patch_total := to_s32 (word_of_int (n_patch_total m) + n)\<rparr>,
                   rev (map (\<lambda>pt. createPatchTupleRingElement bid pt (s_tv_init sd) now) pts) @ ring)))"

text \<open>The whole \<^verbatim>\<open>switch\<close>.  The first component is false for a message of an unknown multicast: the
  \<^verbatim>\<open>continue\<close> leaves it in the buffer.\<close>

definition send_msg :: "'q queue_ops \<Rightarrow> ('s, nat) skiplist_ops \<Rightarrow> timeval \<Rightarrow> nat \<Rightarrow> MsgHdr \<Rightarrow> byte list
    \<Rightarrow> ('q, 's, 'u) agent \<Rightarrow> (bool \<times> ('q, 's, 'u) agent) res option" where
  "send_msg Q S now a hdr buf g =
     (let bid = mh_bcd_id hdr in case hashMulticast g bid of None \<Rightarrow> Some (Inr (False, g))
      | Some m \<Rightarrow> (case ssock_heap g a of None \<Rightarrow> Some (Inl UseAfterFree)
        | Some s \<Rightarrow>
           (let sp = sender_addr_hash_p m (ss_client_addr s);
                tell = (\<lambda>(m, fin). g\<lparr>hashMulticast := (hashMulticast g)(bid \<mapsto> m),
                  pipe_c_send2i := pipe_c_send2i g @ (if fin then pipe_msg now (m_bcd_id m) MSG_C_SEND2I_SEQ_ALL [] else [])\<rparr>)
            in ro_bind
                 (if mh_type hdr = MSG_PULL then send_pull Q now a bid sp g
                  else if mh_type hdr = MSG_FIRST_SEQ then
                    ro_assert (sp \<noteq> None) (Some (map_sum id tell
                      (first_seq S now a (parseMsgSeqFirst (drop MSG_HDRLEN buf)) (the sp) m)))
                  else if mh_type hdr = MSG_ALL_DONE then
                    ro_assert (sp \<noteq> None) (Some (map_sum id tell (all_done now (the sp) m)))
                  else if mh_type hdr = MSG_PATCH_REQ then
                    ro_assert (sp \<noteq> None) (Some (map_sum id
                      (\<lambda>(m, ring). g\<lparr>hashMulticast := (hashMulticast g)(bid \<mapsto> m),
                         ssock_heap := (ssock_heap g)(a \<mapsto> s\<lparr>ringPatchTuple := ring\<rparr>)\<rparr>)
                      (patch_req now bid (parseMsgPatchReq (drop MSG_HDRLEN buf)) (the sp) m (ringPatchTuple s))))
                  else if sp = None then Some (Inl NullDeref) else Some (Inr g))
                 (\<lambda>g. Some (Inr (True, g))))))"

subsection \<open>The pass\<close>

definition send_receive :: "'q queue_ops \<Rightarrow> ('s, nat) skiplist_ops \<Rightarrow> timeval \<Rightarrow> nat \<Rightarrow> recv_result
    \<Rightarrow> ('q, 's, 'u) agent \<Rightarrow> (bool \<times> ('q, 's, 'u) agent) res option" where
  "send_receive Q S now a res g = (case ssock_heap g a of None \<Rightarrow> Some (Inl UseAfterFree)
     | Some s \<Rightarrow> (case recv_into (ss_rbuf s) res of
         Got c \<Rightarrow> ro_bind (frame_loop ready_ssock (\<lambda>r. send_msg Q S now a (mh r) (recv_buf r))
               (frame_read (ss_rbuf s) c) g)
             (\<lambda>(r, g). case ssock_heap g a of None \<Rightarrow> Some (Inl UseAfterFree)
                | Some s \<Rightarrow> Some (Inr (False, g\<lparr>ssock_heap := (ssock_heap g)(a \<mapsto> s\<lparr>ss_rbuf := r\<rparr>)\<rparr>)))
       | Again \<Rightarrow> Some (Inr (True, g))
       | _ \<Rightarrow> Some (Inr (False, g\<lparr>ssockList := remove1 a (ssockList g)\<rparr>))))"

text \<open>One connection after \<^verbatim>\<open>select\<close>; the boolean says that the walk over the list was left by \<^verbatim>\<open>break\<close>.\<close>

definition send_socket :: "'q queue_ops \<Rightarrow> ('s, nat) skiplist_ops \<Rightarrow> io_env \<Rightarrow> int set \<Rightarrow> nat
    \<Rightarrow> bool \<times> ('q, 's, 'u) agent \<Rightarrow> (bool \<times> ('q, 's, 'u) agent) res option" where
  "send_socket Q S e ws a x = (case x of (left, g) \<Rightarrow>
     if left then Some (Inr (left, g))
     else (case ssock_heap g a of None \<Rightarrow> Some (Inl UseAfterFree)
      | Some s \<Rightarrow> ro_bind
          (if ss_socket s \<in> ws \<and> ss_socket s \<in> io_wr e
           then ro_bind (sendMsg Q (io_send e (ss_socket s)) 0 (ss_sendQueue_p s) (ss_remainMsgToken_p s) [])
                  (\<lambda>(q, tok, _). Some (Inr (g\<lparr>ssock_heap := (ssock_heap g)
                     (a \<mapsto> s\<lparr>ss_sendQueue_p := q, ss_remainMsgToken_p := tok\<rparr>)\<rparr>)))
           else Some (Inr g))
          (\<lambda>g. case io_rd e (ss_socket s) of None \<Rightarrow> Some (Inr (False, g))
             | Some res \<Rightarrow> send_receive Q S (io_now e) a res g)))"

definition thread_sendSocket :: "'q queue_ops \<Rightarrow> ('s, nat) skiplist_ops \<Rightarrow> BcdID list \<Rightarrow> io_env
    \<Rightarrow> ('q, 's, 'u) agent \<Rightarrow> ('q, 's, 'u) agent res option" where
  "thread_sendSocket Q S order e g =
     ro_bind (ro_fold (scan_multicast S (io_now e)) order g) (\<lambda>g.
     ro_bind (Some (process_cmds Q (ringCmd g) g)) (\<lambda>g.
     ro_bind (ro_fold (send_select Q (io_now e)) (ssockList g) (g, {})) (\<lambda>(g, ws).
       case io_select e of TimedOut \<Rightarrow> Some (Inr g)
       | SelectFailed ign \<Rightarrow> if ign then Some (Inr g) else Some (Inl Aborted)
       | ReadyFds \<Rightarrow> ro_bind (Some (send_accept Q e g)) (\<lambda>g.
           ro_bind (ro_fold (send_socket Q S e ws) (ssockList g) (False, g)) (\<lambda>(_, g). Some (Inr g))))))"

subsection \<open>Properties: patch requests\<close>

text \<open>The sequence numbers from \<open>a\<close> up to, not including, \<open>e\<close> on a round of \<open>n\<close>.\<close>

definition cyc_range :: "nat \<Rightarrow> nat \<Rightarrow> nat \<Rightarrow> nat set" where
  "cyc_range n a e = (if a \<le> e then {a..<e} else {a..<n} \<union> {0..<e})"

lemma wanted_append: "wanted (xs @ ys) = wanted ys @ wanted xs"
  by (simp add: wanted_def)

lemma wanted_one: "wanted [createPatchTupleRingElement bid pt tv now]
    = map (Pair bid) [unat (stt_seq pt)..<unat (end_seq pt)]"
  by (simp add: wanted_def createPatchTupleRingElement_def)

lemma patch_req_spec:
  fixes pt :: PatchTuple and m :: "'s MulticastState"
  assumes "i < length (sender_heap m)" and "m_seq_max m \<noteq> 0"
  defines "n \<equiv> unat (m_seq_max m)" and "sd \<equiv> sender_heap m ! i"
  defines "a \<equiv> unat (stt_seq pt) mod n"
    and "e \<equiv> (if end_seq pt = SEQNUM_MAX then unat (seqEnd sd) mod n else unat (end_seq pt))"
  assumes "e \<le> n"
  shows "\<exists>m' new qs. patch_req now bid pt i m ring = Inr (m', new @ ring) \<and> wanted (new @ ring) = wanted ring @ map (Pair bid) qs
    \<and> distinct qs \<and> set qs = cyc_range n a e
    \<and> n_patch_total m' = to_s32 (word_of_int (n_patch_total m) + of_nat (length qs))
    \<and> (\<forall>x \<in> set new. e_bcd_id x = bid \<and> stt_seq (e_pt x) \<le> end_seq (e_pt x) \<and> unat (end_seq (e_pt x)) \<le> n)"
proof -
  define t where "t = patch_req_norm (m_seq_max m) (seqEnd sd) pt"
  have t: "unat (stt_seq t) = a" "unat (end_seq t) = e"
    by (simp_all add: t_def patch_req_norm_def Let_def a_def e_def n_def)
  have n: "0 < n" using assms(2) by (simp add: n_def unat_gt_0)
  have an: "a < n" using n by (simp add: a_def)
  have lt: "stt_seq t < end_seq t \<longleftrightarrow> a < e" "end_seq t < stt_seq t \<longleftrightarrow> e < a"
    by (simp_all add: word_less_nat_alt t)
  have le: "stt_seq t \<le> end_seq t \<longleftrightarrow> a \<le> e" by (simp add: word_le_nat_alt t)
  define f where "f = (\<lambda>pt. createPatchTupleRingElement bid pt (s_tv_init sd) now)"
  have fe: "e_bcd_id (f pt) = bid" "e_pt (f pt) = pt" for pt by (simp_all add: f_def createPatchTupleRingElement_def)
  have w1: "wanted [f pt] = map (Pair bid) [unat (stt_seq pt)..<unat (end_seq pt)]" for pt
    unfolding f_def by (rule wanted_one)
  obtain pts k where c: "patch_req_cut (m_seq_max m) t = (pts, k)" by (metis surj_pair)
  have r: "patch_req now bid pt i m ring
      = Inr (m\<lparr>n_patch_total := to_s32 (word_of_int (n_patch_total m) + k)\<rparr>, rev (map f pts) @ ring)"
    using assms(1,2) c by (simp add: patch_req_def Let_def sd_def t_def f_def)
  have w: "stt_seq t = of_nat a" "end_seq t = of_nat e" "m_seq_max m = of_nat n"
    by (simp_all add: n_def flip: t)
  have "\<exists>qs. wanted (rev (map f pts)) = map (Pair bid) qs \<and> distinct qs \<and> set qs = cyc_range n a e
      \<and> k = of_nat (length qs) \<and> (\<forall>pt \<in> set pts. stt_seq pt \<le> end_seq pt \<and> unat (end_seq pt) \<le> n)"
  proof -
    consider "a < e" | "e < a" | "a = e" by linarith
    then show ?thesis
    proof cases
      case 1
      have "k = of_nat (e - a)" "pts = [t]"
        using c lt le 1 by (simp_all add: patch_req_cut_def w of_nat_diff)
      then show ?thesis using 1 t w1 le \<open>e \<le> n\<close> by (intro exI [of _ "[a..<e]"]) (simp add: cyc_range_def)
    next
      case 2
      let ?t1 = "t\<lparr>stt_seq := 0\<rparr>" and ?t2 = "t\<lparr>end_seq := m_seq_max m\<rparr>"
      have k: "k = of_nat (e + (n - a))" and p: "pts = [?t1, ?t2]"
        using c lt 2 an by (auto simp: patch_req_cut_def Let_def w of_nat_diff algebra_simps)
      have "wanted (rev (map f pts)) = map (Pair bid) ([0..<e] @ [a..<n])"
        using w1 [of ?t1] w1 [of ?t2] t by (simp add: p wanted_append [of "[f ?t2]" "[f ?t1]", simplified] n_def)
      then show ?thesis using 2 an t k \<open>e \<le> n\<close>
        by (intro exI [of _ "[0..<e] @ [a..<n]"]) (auto simp: cyc_range_def p word_le_nat_alt n_def)
    next
      case 3
      then have "pts = []" "k = 0" using c lt by (auto simp: patch_req_cut_def)
      then show ?thesis using 3 by (intro exI [of _ "[]"]) (simp add: cyc_range_def wanted_def)
    qed
  qed
  then obtain qs where q: "wanted (rev (map f pts)) = map (Pair bid) qs" "distinct qs" "set qs = cyc_range n a e"
    "k = of_nat (length qs)" "\<forall>pt \<in> set pts. stt_seq pt \<le> end_seq pt \<and> unat (end_seq pt) \<le> n" by blast
  then show ?thesis
    unfolding r by (intro exI [of _ "m\<lparr>n_patch_total := to_s32 (word_of_int (n_patch_total m) + k)\<rparr>"]
      exI [of _ "rev (map f pts)"] exI [of _ qs]) (auto simp: wanted_append fe)
qed

text \<open>C30: A patch request asks for exactly the missing interval of the round.  \<^verbatim>\<open>MSG_PATCH_REQ\<close> for \<open>(a, e)\<close>, where
  \<open>e\<close> may be \<^verbatim>\<open>SEQNUM_MAX\<close> for the estimated end of the receiver, queues behind all older requests
  the sequence numbers from \<open>a mod n\<close> up to \<open>e\<close>, each once, across the end of the file when the interval wraps; the total of
  patches counts them, and every queued tuple lies inside the file.\<close>

theorem patch_req_asks:
  fixes pt :: PatchTuple and m :: "'s MulticastState"
  assumes "i < length (sender_heap m)" and "m_seq_max m \<noteq> 0"
  defines "n \<equiv> unat (m_seq_max m)" and "sd \<equiv> sender_heap m ! i"
  defines "a \<equiv> unat (stt_seq pt) mod n"
    and "e \<equiv> (if end_seq pt = SEQNUM_MAX then unat (seqEnd sd) mod n else unat (end_seq pt))"
  assumes "e \<le> n"
  shows "\<exists>m' new qs. patch_req now bid pt i m ring = Inr (m', new @ ring) \<and> wanted (new @ ring) = wanted ring @ map (Pair bid) qs
    \<and> distinct qs \<and> set qs = cyc_range n a e
    \<and> n_patch_total m' = to_s32 (word_of_int (n_patch_total m) + of_nat (length qs))
    \<and> (\<forall>x \<in> set new. e_bcd_id x = bid \<and> stt_seq (e_pt x) \<le> end_seq (e_pt x) \<and> unat (end_seq (e_pt x)) \<le> n)"
  using patch_req_spec [OF assms(1,2), of pt] assms unfolding n_def a_def e_def sd_def by blast

definition example_senders :: "nat list MulticastState" where
  "example_senders = (zero_multicast [])\<lparr>m_seq_max := 10, n_init := 2,
     sender_heap := [createSenderState 0 0 5 zero_id None TV0, createSenderState 0 1 6 zero_id None TV0]\<rparr>"

theorem patch_req_asks_witness:
  "\<exists>m' new. patch_req TV0 zero_id \<lparr>stt_seq = 18, end_seq = 3\<rparr> 0 example_senders [] = Inr (m', new)
    \<and> snd ` set (wanted new) = {0, 1, 2, 8, 9} \<and> length (wanted new) = 5"
proof -
  have p: "0 < length (sender_heap example_senders)" "m_seq_max example_senders \<noteq> 0" "unat (m_seq_max example_senders) = 10"
    by (simp_all add: example_senders_def)
  have f: "(3 :: u32) \<noteq> SEQNUM_MAX" by code_simp
  obtain m' new qs where r: "patch_req TV0 zero_id \<lparr>stt_seq = 18, end_seq = 3\<rparr> 0 example_senders [] = Inr (m', new)"
    "wanted new = map (Pair zero_id) qs" "distinct qs" "set qs = cyc_range 10 8 3"
    using patch_req_asks [OF p(1,2), of "\<lparr>stt_seq = 18, end_seq = 3\<rparr>" TV0 zero_id "[]"] f p(3)
    by (auto simp: wanted_def)
  have c: "cyc_range 10 8 3 = {0, 1, 2, 8, 9}" by (auto simp: cyc_range_def)
  have "length qs = 5" using distinct_card [OF r(3)] r(4) c by simp
  with r c show ?thesis by (auto simp: image_image)
qed

subsection \<open>Properties: the end of the fast path\<close>

definition ready_to_end :: "'s MulticastState \<Rightarrow> nat \<Rightarrow> bool" where
  "ready_to_end m i \<longleftrightarrow> seqEnd (sender_heap m ! i) \<le> seq_cur m"

definition stamp :: "timeval \<Rightarrow> nat list \<Rightarrow> SenderState list \<Rightarrow> SenderState list" where
  "stamp now is h = foldl (\<lambda>h i. h[i := (h ! i)\<lparr>tv_fast_done := now\<rparr>]) h is"

lemma stamp_seqEnd: "i < length h \<Longrightarrow> seqEnd ((h[j := (h ! j)\<lparr>tv_fast_done := now\<rparr>]) ! i) = seqEnd (h ! i)"
  by (cases "i = j") simp_all

lemma scan_pop_spec:
  assumes S: "skiplist S elems" and "\<forall>i \<in> set (elems (sender_end_seq_pq_p m)). i < length (sender_heap m)"
  shows "let ready = takeWhile (ready_to_end m) (elems (sender_end_seq_pq_p m));
      k = sender_end_seq_arr_idx_end m; arr = sender_end_seq_arr_p m
    in if k + length ready \<le> length arr \<or> ready = []
       then \<exists>pq. scan_pop S now m = Some (Inr (m\<lparr>sender_heap := stamp now ready (sender_heap m),
             sender_end_seq_pq_p := pq, sender_end_seq_arr_p := take k arr @ map Some ready @ drop (k + length ready) arr,
             sender_end_seq_arr_idx_end := k + length ready\<rparr>))
           \<and> elems pq = drop (length ready) (elems (sender_end_seq_pq_p m))
       else scan_pop S now m = Some (Inl OutOfBounds)"
  using assms(2)
proof (induction "elems (sender_end_seq_pq_p m)" arbitrary: m)
  case Nil
  then have "sk_peek S (sender_end_seq_pq_p m) = None" using skiplist.peek_law [OF S] by (simp split: list.splits)
  then have "scan_pop S now m = Some (Inr m)" by (subst scan_pop.simps) simp
  then show ?case using Nil by (cases m) (auto simp: stamp_def intro!: exI [of _ "sender_end_seq_pq_p m"])
next
  case (Cons i rest)
  let ?pq = "sender_end_seq_pq_p m" and ?k = "sender_end_seq_arr_idx_end m" and ?arr = "sender_end_seq_arr_p m"
  have e: "elems ?pq = i # rest" using Cons.hyps(2) by simp
  then have pk: "sk_peek S ?pq = Some i" using skiplist.peek_law [OF S, of ?pq] by simp
  have i: "i < length (sender_heap m)" using Cons.prems e by simp
  obtain pq1 where pq1: "sk_pop S ?pq = (pq1, Some i)" "elems pq1 = rest" using skiplist.pop_law [OF S e] by blast
  show ?case
  proof (cases "ready_to_end m i")
    case False
    then have "scan_pop S now m = Some (Inr m)" using pk i by (subst scan_pop.simps) (simp add: ready_to_end_def)
    then show ?thesis using False e
      by (cases m) (auto simp: stamp_def Let_def intro!: exI [of _ "sender_end_seq_pq_p m"])
  next
    case True
    let ?m1 = "m\<lparr>sender_heap := (sender_heap m)[i := (sender_heap m ! i)\<lparr>tv_fast_done := now\<rparr>],
      sender_end_seq_pq_p := pq1, sender_end_seq_arr_p := ?arr[?k := Some i], sender_end_seq_arr_idx_end := ?k + 1\<rparr>"
    let ?r = "takeWhile (ready_to_end m) rest"
    have step: "scan_pop S now m = (if ?k < length ?arr then scan_pop S now ?m1 else Some (Inl OutOfBounds))"
      using pk i True pq1(1) by (subst scan_pop.simps) (simp add: ready_to_end_def)
    have same: "ready_to_end ?m1 j \<longleftrightarrow> ready_to_end m j" if "j \<in> set rest" for j
      using Cons.prems e that stamp_seqEnd [of j "sender_heap m" i now] by (simp add: ready_to_end_def)
    have tw: "takeWhile (ready_to_end ?m1) rest = ?r" using same by (intro takeWhile_cong) simp_all
    have ih: "let ready = takeWhile (ready_to_end ?m1) (elems (sender_end_seq_pq_p ?m1));
        k = sender_end_seq_arr_idx_end ?m1; arr = sender_end_seq_arr_p ?m1
      in if k + length ready \<le> length arr \<or> ready = []
         then \<exists>pq. scan_pop S now ?m1 = Some (Inr (?m1\<lparr>sender_heap := stamp now ready (sender_heap ?m1),
               sender_end_seq_pq_p := pq, sender_end_seq_arr_p := take k arr @ map Some ready @ drop (k + length ready) arr,
               sender_end_seq_arr_idx_end := k + length ready\<rparr>))
             \<and> elems pq = drop (length ready) (elems (sender_end_seq_pq_p ?m1))
         else scan_pop S now ?m1 = Some (Inl OutOfBounds)"
      by (rule Cons.hyps(1)) (use Cons.prems e pq1(2) in auto)
    have tr: "takeWhile (ready_to_end m) (elems ?pq) = i # ?r" using True e by simp
    show ?thesis
    proof (cases "?k < length ?arr")
      case False
      then show ?thesis using step tr by (simp add: Let_def)
    next
      case kk: True
      show ?thesis
      proof (cases "?k + 1 + length ?r \<le> length ?arr \<or> ?r = []")
        case True
        then have fit: "?k + length (i # ?r) \<le> length ?arr" using kk by auto
        obtain pq where pq: "scan_pop S now ?m1 = Some (Inr (?m1\<lparr>sender_heap := stamp now ?r (sender_heap ?m1),
            sender_end_seq_pq_p := pq,
            sender_end_seq_arr_p := take (?k + 1) (?arr[?k := Some i]) @ map Some ?r @ drop (?k + 1 + length ?r) (?arr[?k := Some i]),
            sender_end_seq_arr_idx_end := ?k + 1 + length ?r\<rparr>))" "elems pq = drop (length ?r) rest"
          using ih True pq1(2) tw by (auto simp: Let_def)
        have a: "take (?k + 1) (?arr[?k := Some i]) @ map Some ?r @ drop (?k + 1 + length ?r) (?arr[?k := Some i])
            = take ?k ?arr @ map Some (i # ?r) @ drop (?k + length (i # ?r)) ?arr"
          using kk by (simp add: take_Suc_conv_app_nth)
        show ?thesis using step kk pq fit tr e a
          by (auto simp: Let_def stamp_def intro!: exI [of _ pq])
      next
        case False
        then show ?thesis using ih step kk tr pq1(2) tw by (auto simp: Let_def)
      qed
    qed
  qed
qed

text \<open>The front run of an ordered list is all that is small in it.\<close>

lemma takeWhile_sorted_filter:
  "sorted_wrt (\<lambda>i j. f i \<le> f j) xs \<Longrightarrow> takeWhile (\<lambda>i. f i \<le> c) xs = filter (\<lambda>i. f i \<le> (c :: 'a :: linorder)) xs"
  by (induction xs) (auto intro!: filter_False [symmetric] dest: order_trans)

lemma dropWhile_sorted_filter:
  "sorted_wrt (\<lambda>i j. f i \<le> f j) xs \<Longrightarrow> dropWhile (\<lambda>i. f i \<le> c) xs = filter (\<lambda>i. \<not> f i \<le> (c :: 'a :: linorder)) xs"
  by (induction xs) (auto intro!: filter_True [symmetric])

text \<open>C31: The scan \<^verbatim>\<open>scan_pop\<close> always returns.  It takes from the priority queue the run of senders at its front whose end
  has been transmitted, stamps them with the time, and puts them into the array in that order; the first sender whose end is not
  transmitted stops it, and what stands behind that sender waits, ready or not.  When the array has no room for one of them, the
  code writes behind its end.  If the queue is ordered by the ends, the run is every sender of it whose end has been transmitted,
  and all that stay have theirs ahead.\<close>

theorem scan_pop_moves:
  assumes S: "skiplist S elems" and "\<forall>i \<in> set (elems (sender_end_seq_pq_p m)). i < length (sender_heap m)"
  shows "let queue = elems (sender_end_seq_pq_p m); ready = takeWhile (ready_to_end m) queue;
      k = sender_end_seq_arr_idx_end m; arr = sender_end_seq_arr_p m
    in (if k + length ready \<le> length arr \<or> ready = []
       then \<exists>pq. scan_pop S now m = Some (Inr (m\<lparr>sender_heap := stamp now ready (sender_heap m),
             sender_end_seq_pq_p := pq, sender_end_seq_arr_p := take k arr @ map Some ready @ drop (k + length ready) arr,
             sender_end_seq_arr_idx_end := k + length ready\<rparr>))
           \<and> elems pq = drop (length ready) queue
       else scan_pop S now m = Some (Inl OutOfBounds))
     \<and> (sorted_wrt (\<lambda>i j. seqEnd (sender_heap m ! i) \<le> seqEnd (sender_heap m ! j)) queue \<longrightarrow>
          ready = filter (ready_to_end m) queue \<and> drop (length ready) queue = filter (\<lambda>i. \<not> ready_to_end m i) queue)"
proof -
  let ?q = "elems (sender_end_seq_pq_p m)"
  have "takeWhile (ready_to_end m) ?q = filter (ready_to_end m) ?q
      \<and> drop (length (takeWhile (ready_to_end m) ?q)) ?q = filter (\<lambda>i. \<not> ready_to_end m i) ?q"
    if "sorted_wrt (\<lambda>i j. seqEnd (sender_heap m ! i) \<le> seqEnd (sender_heap m ! j)) ?q"
    using takeWhile_sorted_filter [OF that, of "seq_cur m"] dropWhile_sorted_filter [OF that, of "seq_cur m"]
    by (simp add: ready_to_end_def [abs_def] dropWhile_eq_drop)
  then show ?thesis using scan_pop_spec [OF assms, of now] unfolding Let_def by blast
qed

definition example_ends :: "nat list MulticastState" where
  "example_ends = example_senders\<lparr>seq_cur := 20,
     sender_heap := [(createSenderState 0 0 5 zero_id None TV0)\<lparr>seqEnd := 12\<rparr>, (createSenderState 0 1 6 zero_id None TV0)\<lparr>seqEnd := 31\<rparr>],
     sender_end_seq_pq_p := [0, 1], sender_end_seq_arr_p := [None, None]\<rparr>"

theorem scan_pop_moves_witness:
  "(\<exists>m'. scan_pop (cmp_skiplist (\<lambda>_ _. 1)) (Timeval 9 9) example_ends = Some (Inr m')
    \<and> sender_end_seq_arr_p m' = [Some 0, None] \<and> sender_end_seq_arr_idx_end m' = 1 \<and> sender_end_seq_pq_p m' = [1])
   \<and> filter (\<lambda>i. \<not> ready_to_end example_ends i) [0, 1] = [1]"
proof -
  let ?m = example_ends
  have a: "\<forall>i \<in> set (sender_end_seq_pq_p ?m). i < length (sender_heap ?m)" by (simp add: example_ends_def)
  have t: "takeWhile (ready_to_end ?m) [0, 1] = [0]" by (simp add: ready_to_end_def example_ends_def)
  have k: "sender_end_seq_arr_idx_end ?m = 0" "sender_end_seq_arr_p ?m = [None, None]" "sender_end_seq_pq_p ?m = [0, 1]"
    by (simp_all add: example_ends_def example_senders_def zero_multicast_def)
  have o: "sorted_wrt (\<lambda>i j. seqEnd (sender_heap ?m ! i) \<le> seqEnd (sender_heap ?m ! j)) [0, 1]" by (simp add: example_ends_def)
  have "(\<exists>pq. scan_pop (cmp_skiplist (\<lambda>_ _. 1)) (Timeval 9 9) ?m = Some (Inr (?m\<lparr>sender_heap := stamp (Timeval 9 9) [0] (sender_heap ?m),
       sender_end_seq_pq_p := pq, sender_end_seq_arr_p := [Some 0, None], sender_end_seq_arr_idx_end := 1\<rparr>)) \<and> pq = [1])
     \<and> [1] = filter (\<lambda>i. \<not> ready_to_end ?m i) [0, 1]"
    using scan_pop_moves [OF sl.skiplist_axioms [of "\<lambda>_ _. 1"] a, of "Timeval 9 9", unfolded Let_def k t] o by simp
  then show ?thesis by auto
qed

text \<open>The end of the transmission against the ends of the senders.\<close>

definition end_inv :: "'s MulticastState \<Rightarrow> bool" where
  "end_inv m \<longleftrightarrow> (\<forall>sd \<in> set (sender_heap m). seqEnd sd \<le> seq_end_max m)
     \<and> (seq_end m = SEQNUM_MAX \<or> seq_end m = seq_end_max m)"

lemma updateSeqEnd_end:
  assumes "end_inv m" "i < length (sender_heap m)" "m_seq_max m \<noteq> 0"
  shows "\<exists>m'. updateSeqEnd S m i = Inr m' \<and> (seq_end m = SEQNUM_MAX \<longrightarrow> end_inv m') \<and> length (sender_heap m') = length (sender_heap m)
    \<and> (\<forall>j < length (sender_heap m). (sender_heap m' ! j)\<lparr>seqEnd := 0\<rparr> = (sender_heap m ! j)\<lparr>seqEnd := 0\<rparr>)
    \<and> seqEnd (sender_heap m' ! i) = seq_end_for (seq_cur m) (m_seq_max m) (msf (sender_heap m ! i))
    \<and> n_init m' = n_init m \<and> n_first_seq m' = n_first_seq m \<and> n_all_done m' = n_all_done m
    \<and> seq_end m' = (if n_init m = n_first_seq m then seq_end_max m' else seq_end m) \<and> seq_end_max m \<le> seq_end_max m'"
proof -
  let ?e = "seq_end_for (seq_cur m) (m_seq_max m) (msf (sender_heap m ! i))"
  have b: "\<forall>sd \<in> set ((sender_heap m)[i := (sender_heap m ! i)\<lparr>seqEnd := ?e\<rparr>]). seqEnd sd \<le> max (seq_end_max m) ?e"
  proof
    fix sd assume "sd \<in> set ((sender_heap m)[i := (sender_heap m ! i)\<lparr>seqEnd := ?e\<rparr>])"
    then consider "sd = (sender_heap m ! i)\<lparr>seqEnd := ?e\<rparr>" | "sd \<in> set (sender_heap m)"
      using set_update_subset_insert [of "sender_heap m" i] by blast
    then show "seqEnd sd \<le> max (seq_end_max m) ?e"
    proof cases
      case 2
      then have "seqEnd sd \<le> seq_end_max m" using assms(1) by (simp add: end_inv_def)
      then show ?thesis by (rule max.coboundedI1)
    qed simp
  qed
  have c: "\<forall>j < length (sender_heap m). ((sender_heap m)[i := (sender_heap m ! i)\<lparr>seqEnd := ?e\<rparr>] ! j)\<lparr>seqEnd := 0\<rparr>
      = (sender_heap m ! j)\<lparr>seqEnd := 0\<rparr>"
  proof (intro allI impI)
    fix j assume "j < length (sender_heap m)"
    then show "((sender_heap m)[i := (sender_heap m ! i)\<lparr>seqEnd := ?e\<rparr>] ! j)\<lparr>seqEnd := 0\<rparr> = (sender_heap m ! j)\<lparr>seqEnd := 0\<rparr>"
      by (cases "i = j") simp_all
  qed
  obtain pq where pq: "(case sk_insert S i (sender_end_seq_pq_p m) of
      None \<Rightarrow> m\<lparr>sender_heap := (sender_heap m)[i := (sender_heap m ! i)\<lparr>seqEnd := ?e\<rparr>]\<rparr>
    | Some pq \<Rightarrow> m\<lparr>sender_heap := (sender_heap m)[i := (sender_heap m ! i)\<lparr>seqEnd := ?e\<rparr>], sender_end_seq_pq_p := pq\<rparr>)
    = m\<lparr>sender_heap := (sender_heap m)[i := (sender_heap m ! i)\<lparr>seqEnd := ?e\<rparr>], sender_end_seq_pq_p := pq\<rparr>"
  proof (cases "sk_insert S i (sender_end_seq_pq_p m)")
    case None
    then show ?thesis by (intro that [of "sender_end_seq_pq_p m"]) simp
  qed (rule that, simp)
  define m2 where "m2 = m\<lparr>sender_heap := (sender_heap m)[i := (sender_heap m ! i)\<lparr>seqEnd := ?e\<rparr>], sender_end_seq_pq_p := pq\<rparr>"
  define m3 where "m3 = (if seq_end_max m2 < ?e then m2\<lparr>seq_end_max := ?e\<rparr> else m2)"
  define m4 where "m4 = (if n_init m3 = n_first_seq m3 then m3\<lparr>seq_end := seq_end_max m3\<rparr> else m3)"
  have r: "updateSeqEnd S m i = Inr m4"
    using assms(2,3) pq by (simp add: updateSeqEnd_def Let_def m4_def m3_def m2_def)
  have f3: "sender_heap m3 = (sender_heap m)[i := (sender_heap m ! i)\<lparr>seqEnd := ?e\<rparr>]" "seq_end_max m3 = max (seq_end_max m) ?e"
    "seq_end m3 = seq_end m" "n_init m3 = n_init m" "n_first_seq m3 = n_first_seq m" "n_all_done m3 = n_all_done m"
    by (auto simp: m3_def m2_def max_def)
  have f4: "sender_heap m4 = sender_heap m3" "seq_end_max m4 = seq_end_max m3" "n_init m4 = n_init m3"
    "n_first_seq m4 = n_first_seq m3" "n_all_done m4 = n_all_done m3"
    "seq_end m4 = (if n_init m3 = n_first_seq m3 then seq_end_max m3 else seq_end m3)"
    by (simp_all add: m4_def)
  have "seq_end m = SEQNUM_MAX \<longrightarrow> end_inv m4" using b f3 f4 by (simp add: end_inv_def)
  then show ?thesis
    unfolding r using assms(2) c f3 f4 by (intro exI [of _ m4]) simp
qed

lemma first_seq_marks_fields:
  "sender_heap (first_seq_marks now sd m) = sender_heap m" "m_seq_max (first_seq_marks now sd m) = m_seq_max m"
  "seq_cur (first_seq_marks now sd m) = seq_cur m" "seq_end (first_seq_marks now sd m) = seq_end m"
  "seq_end_max (first_seq_marks now sd m) = seq_end_max m" "n_init (first_seq_marks now sd m) = n_init m"
  "n_first_seq (first_seq_marks now sd m) = n_first_seq m" "n_all_done (first_seq_marks now sd m) = n_all_done m"
  by (simp_all add: first_seq_marks_def Let_def)

lemma first_seq_single_fields:
  assumes "first_seq_single now sd m = (m', fin)"
  shows "sender_heap m' = sender_heap m \<and> m_seq_max m' = m_seq_max m \<and> seq_cur m' = seq_cur m \<and> seq_end m' = seq_end m
    \<and> seq_end_max m' = seq_end_max m \<and> n_init m' = n_init m \<and> n_first_seq m' = n_first_seq m
    \<and> (m_seq_max m \<noteq> 1 \<longrightarrow> n_all_done m' = n_all_done m \<and> \<not> fin)"
proof (cases "m_seq_max m = 1")
  case True
  have "m' = fst (first_seq_single now sd m)" using assms by simp
  then show ?thesis using True by (simp add: first_seq_single_def mark_all_done_rack_def Let_def)
next
  case False
  then show ?thesis using assms by (simp add: first_seq_single_def)
qed

text \<open>C32: \<^verbatim>\<open>MSG_FIRST_SEQ\<close> sets the end of a receiver's round, and the transmission never ends before it.  The end of
  the whole transmission stays unknown until the last receiver has reported its first packet; from then on it is at
  least the end of every receiver.  Only the sender that reported changes, and the counter goes up by one.\<close>

theorem first_seq_end:
  assumes "end_inv m" and "i < length (sender_heap m)" and "m_seq_max m \<noteq> 0" and "seq_end m = SEQNUM_MAX"
  shows "\<exists>m' fin. first_seq S now a f i m = Inr (m', fin) \<and> end_inv m' \<and> n_first_seq m' = n_first_seq m + 1
    \<and> n_init m' = n_init m \<and> length (sender_heap m') = length (sender_heap m) \<and> msf (sender_heap m' ! i) = f \<and> seqEnd (sender_heap m' ! i) = seq_end_for (seq_cur m) (m_seq_max m) f
    \<and> (\<forall>j < length (sender_heap m). j \<noteq> i \<longrightarrow> (sender_heap m' ! j)\<lparr>seqEnd := 0\<rparr> = (sender_heap m ! j)\<lparr>seqEnd := 0\<rparr>)
    \<and> (if n_init m' = n_first_seq m' then \<forall>sd \<in> set (sender_heap m'). seqEnd sd \<le> seq_end m' else seq_end m' = SEQNUM_MAX)"
proof -
  let ?sd = "(sender_heap m ! i)\<lparr>msf := f, s_ssock_p := (case s_ssock_p (sender_heap m ! i) of None \<Rightarrow> Some a | Some b \<Rightarrow> Some b)\<rparr>"
  obtain m2 fin where m2: "first_seq_single now ?sd (first_seq_marks now ?sd (m\<lparr>sender_heap := (sender_heap m)[i := ?sd]\<rparr>)) = (m2, fin)"
    by (metis surj_pair)
  have k: "sender_heap m2 = (sender_heap m)[i := ?sd]" "m_seq_max m2 = m_seq_max m" "seq_cur m2 = seq_cur m" "seq_end m2 = seq_end m"
    "seq_end_max m2 = seq_end_max m" "n_init m2 = n_init m" "n_first_seq m2 = n_first_seq m"
    using first_seq_single_fields [OF m2] by (simp_all add: first_seq_marks_fields)
  let ?m3 = "m2\<lparr>n_first_seq := n_first_seq m2 + 1\<rparr>"
  have "\<forall>sd \<in> set ((sender_heap m)[i := ?sd]). seqEnd sd \<le> seq_end_max m"
    using assms(1,2) set_update_subset_insert [of "sender_heap m" i ?sd] by (fastforce simp: end_inv_def)
  then have inv: "end_inv ?m3" using assms(1) k by (simp add: end_inv_def)
  have il: "i < length (sender_heap ?m3)" "m_seq_max ?m3 \<noteq> 0" using k assms(2,3) by simp_all
  obtain m' where m': "updateSeqEnd S ?m3 i = Inr m'" "seq_end ?m3 = SEQNUM_MAX \<longrightarrow> end_inv m'" "length (sender_heap m') = length (sender_heap ?m3)"
    "\<forall>j < length (sender_heap ?m3). (sender_heap m' ! j)\<lparr>seqEnd := 0\<rparr> = (sender_heap ?m3 ! j)\<lparr>seqEnd := 0\<rparr>"
    "seqEnd (sender_heap m' ! i) = seq_end_for (seq_cur ?m3) (m_seq_max ?m3) (msf (sender_heap ?m3 ! i))"
    "n_init m' = n_init ?m3" "n_first_seq m' = n_first_seq ?m3"
    "seq_end m' = (if n_init ?m3 = n_first_seq ?m3 then seq_end_max m' else seq_end ?m3)"
    using updateSeqEnd_end [OF inv il, of S] by blast
  have "(sender_heap m' ! i)\<lparr>seqEnd := 0\<rparr> = ?sd\<lparr>seqEnd := 0\<rparr>" using m'(4) il(1) k assms(2) by simp
  then have "msf ((sender_heap m' ! i)\<lparr>seqEnd := 0\<rparr>) = msf (?sd\<lparr>seqEnd := 0\<rparr>)" by (rule arg_cong)
  then have f: "msf (sender_heap m' ! i) = f" by simp
  have r: "first_seq S now a f i m = Inr (m', fin)"
    using assms(2) m2 m'(1) by (simp add: first_seq_def Let_def)
  show ?thesis
    unfolding r using m' k f assms(2,4) by (auto simp: end_inv_def)
qed

theorem first_seq_end_witness:
  "\<exists>m' fin. first_seq (cmp_skiplist (\<lambda>_ _. 1)) TV0 3 7 0 (example_senders\<lparr>n_init := 1, seq_end := SEQNUM_MAX, seq_cur := 25\<rparr>) = Inr (m', fin)
    \<and> seqEnd (sender_heap m' ! 0) = 27 \<and> seqEnd (sender_heap m' ! 0) \<le> seq_end m'"
proof -
  let ?m = "example_senders\<lparr>n_init := 1, seq_end := SEQNUM_MAX, seq_cur := 25\<rparr>"
  have i: "end_inv ?m" "0 < length (sender_heap ?m)" "m_seq_max ?m \<noteq> 0" "seq_end ?m = SEQNUM_MAX"
    by (simp_all add: end_inv_def example_senders_def createSenderState_def)
  have e: "seq_end_for 25 10 7 = 27" by (simp add: seq_end_for_def Let_def)
  have v: "n_first_seq ?m = 0" "n_init ?m = 1" "seq_cur ?m = 25" "m_seq_max ?m = 10" "length (sender_heap ?m) = 2"
    by (simp_all add: example_senders_def zero_multicast_def)
  obtain m' fin where r: "first_seq (cmp_skiplist (\<lambda>_ _. 1)) TV0 3 7 0 ?m = Inr (m', fin)" "n_first_seq m' = n_first_seq ?m + 1"
    "n_init m' = n_init ?m" "length (sender_heap m') = length (sender_heap ?m)"
    "seqEnd (sender_heap m' ! 0) = seq_end_for (seq_cur ?m) (m_seq_max ?m) 7"
    "if n_init m' = n_first_seq m' then \<forall>sd \<in> set (sender_heap m'). seqEnd sd \<le> seq_end m' else seq_end m' = SEQNUM_MAX"
    using first_seq_end [OF i, of "cmp_skiplist (\<lambda>_ _. 1)" TV0 3 7] by blast
  have "sender_heap m' ! 0 \<in> set (sender_heap m')" using r(4) v(5) by simp
  moreover have "\<forall>sd \<in> set (sender_heap m'). seqEnd sd \<le> seq_end m'" using r(2,3,6) v by simp
  ultimately have "seqEnd (sender_heap m' ! 0) \<le> seq_end m'" by blast
  then show ?thesis using r(1,5) v e by (intro exI [of _ m'] exI [of _ fin]) simp
qed

text \<open>The senders that are done, and the counters that go with them.\<close>

definition done_set :: "SenderState list \<Rightarrow> nat set" where
  "done_set h = {i. i < length h \<and> has_all_done (h ! i)}"

definition count_inv :: "'s MulticastState \<Rightarrow> bool" where
  "count_inv m \<longleftrightarrow> unat (n_all_done m) = card (done_set (sender_heap m)) \<and> unat (n_init m) = length (sender_heap m)"

text \<open>C33: The counting of \<^verbatim>\<open>MSG_ALL_DONE\<close>.  The counter always is the number of receivers that are done, and the service
  thread is told that all receivers have all data exactly when the last of them reports: not before, and not a second time,
  since a second report of the same receiver stops the process in an assertion.\<close>

theorem all_done_counts:
  assumes "count_inv m" and "i < length (sender_heap m)"
  shows "if has_all_done (sender_heap m ! i) then all_done now i m = Inl AssertFailed
    else \<exists>m' fin. all_done now i m = Inr (m', fin) \<and> count_inv m'
      \<and> sender_heap m' = (sender_heap m)[i := (sender_heap m ! i)\<lparr>has_all_done := True\<rparr>]
      \<and> (fin \<longleftrightarrow> (\<forall>sd \<in> set (sender_heap m'). has_all_done sd)) \<and> (fin \<longrightarrow> tv_last_all_done (m_tv m') = now)"
proof (cases "has_all_done (sender_heap m ! i)")
  case True
  then show ?thesis using assms(2) by (simp add: all_done_def Let_def)
next
  case False
  let ?h = "(sender_heap m)[i := (sender_heap m ! i)\<lparr>has_all_done := True\<rparr>]"
  have sub: "done_set (sender_heap m) \<subseteq> {..<length (sender_heap m)} - {i}" using False by (auto simp: done_set_def)
  then have fin: "finite (done_set (sender_heap m))" by (rule finite_subset) simp
  have new: "done_set ?h = insert i (done_set (sender_heap m))" "i \<notin> done_set (sender_heap m)"
    using False assms(2) by (auto simp: done_set_def nth_list_update split: if_splits)
  have c1: "card (done_set ?h) = Suc (unat (n_all_done m))"
    using new fin assms(1) by (simp add: count_inv_def)
  have "card (done_set ?h) \<le> length (sender_heap m)"
    using card_mono [of "{..<length (sender_heap m)}" "done_set ?h"] by (auto simp: done_set_def)
  then have le: "Suc (unat (n_all_done m)) \<le> unat (n_init m)" using c1 assms(1) by (simp add: count_inv_def)
  then have "Suc (unat (n_all_done m)) < 65536" using unat_u16_lt [of "n_init m"] by linarith
  then have "unat (n_all_done m) + 1 < 2 ^ LENGTH(16)" by simp
  then have u: "unat (n_all_done m + 1) = Suc (unat (n_all_done m))" by (simp add: unat_word_ariths)
  have all: "(\<forall>sd \<in> set ?h. has_all_done sd) \<longleftrightarrow> n_all_done m + 1 = n_init m"
  proof -
    have "(\<forall>sd \<in> set ?h. has_all_done sd) \<longleftrightarrow> done_set ?h = {..<length (sender_heap m)}"
      by (auto simp: done_set_def set_conv_nth)
    also have "\<dots> \<longleftrightarrow> card (done_set ?h) = length (sender_heap m)"
      by (metis (no_types, lifting) card_lessThan card_subset_eq done_set_def finite_lessThan length_list_update lessThan_iff mem_Collect_eq subsetI)
    also have "\<dots> \<longleftrightarrow> n_all_done m + 1 = n_init m"
      using c1 u assms(1) by (simp add: count_inv_def word_unat_eq_iff)
    finally show ?thesis .
  qed
  show ?thesis
    using False assms c1 u all
    by (auto simp: all_done_def Let_def count_inv_def mark_all_done_rack_def)
qed

theorem all_done_counts_witness:
  "\<exists>m'. all_done TV0 1 (example_senders\<lparr>n_all_done := 1,
      sender_heap := [(createSenderState 0 0 5 zero_id None TV0)\<lparr>has_all_done := True\<rparr>, createSenderState 0 1 6 zero_id None TV0]\<rparr>)
      = Inr (m', True) \<and> unat (n_all_done m') = 2"
proof -
  let ?m = "example_senders\<lparr>n_all_done := 1,
      sender_heap := [(createSenderState 0 0 5 zero_id None TV0)\<lparr>has_all_done := True\<rparr>, createSenderState 0 1 6 zero_id None TV0]\<rparr>"
  have d: "done_set (sender_heap ?m) = {0}"
    by (auto simp: done_set_def createSenderState_def less_Suc_eq numeral_2_eq_2)
  then have c: "count_inv ?m" "1 < length (sender_heap ?m)" by (simp_all add: count_inv_def example_senders_def)
  obtain m' fin where r: "all_done TV0 1 ?m = Inr (m', fin)" "count_inv m'"
    "sender_heap m' = (sender_heap ?m)[1 := (sender_heap ?m ! 1)\<lparr>has_all_done := True\<rparr>]"
    "fin \<longleftrightarrow> (\<forall>sd \<in> set (sender_heap m'). has_all_done sd)"
    using all_done_counts [OF c, of TV0] by (auto simp: createSenderState_def split: if_splits)
  have "done_set (sender_heap m') = {0, 1}"
    unfolding r(3) by (auto simp: done_set_def createSenderState_def less_Suc_eq numeral_2_eq_2)
  then show ?thesis using r by (auto simp: count_inv_def createSenderState_def)
qed

subsection \<open>Properties: commands\<close>

text \<open>C34: The ring of commands is worked off first in, first out.  \<^verbatim>\<open>process_cmds\<close> takes commands from the end of the ring and
  appends each token to the queue of its connection, in order; it stops only when the ring is empty or the
  next command's queue is full, and then leaves exactly the commands that it did not process.\<close>

theorem process_cmds_fifo:
  assumes Q: "apr_queue Q contents" and "\<forall>c \<in> set ring. ssock_heap g (cmd_sendQueue_p c) \<noteq> None"
  shows "\<exists>g' k. process_cmds Q ring g = Inr g' \<and> k \<le> length ring \<and> ringCmd g' = take k ring
    \<and> (\<forall>a s. ssock_heap g a = Some s \<longrightarrow> (\<exists>s'. ssock_heap g' a = Some s' \<and> ss_client_addr s' = ss_client_addr s
        \<and> contents (ss_sendQueue_p s') = contents (ss_sendQueue_p s)
            @ map cmd_mt_p (filter (\<lambda>c. cmd_sendQueue_p c = a) (rev (drop k ring)))))
    \<and> (k = 0 \<or> (\<exists>s'. ssock_heap g' (cmd_sendQueue_p (ring ! (k - 1))) = Some s' \<and> 200 \<le> length (contents (ss_sendQueue_p s'))))"
  using assms(2)
proof (induction ring arbitrary: g rule: rev_induct)
  case Nil
  then show ?case by (subst process_cmds.simps) (auto intro!: exI [of _ "g\<lparr>ringCmd := []\<rparr>"])
next
  case (snoc c ring)
  obtain s where s: "ssock_heap g (cmd_sendQueue_p c) = Some s" using snoc.prems by auto
  obtain q st where q: "apr_queue_trypush Q (ss_sendQueue_p s) (cmd_mt_p c) = (q, st)" by (metis surj_pair)
  let ?g = "g\<lparr>ssock_heap := (ssock_heap g)(cmd_sendQueue_p c \<mapsto> s\<lparr>ss_sendQueue_p := q\<rparr>)\<rparr>"
  have step: "process_cmds Q (ring @ [c]) g = (if st = APR_SUCCESS then process_cmds Q ring ?g else Inr (?g\<lparr>ringCmd := ring @ [c]\<rparr>))"
    using s q by (subst process_cmds.simps) simp
  show ?case
  proof (cases "length (contents (ss_sendQueue_p s)) < 200")
    case True
    then have st: "st = APR_SUCCESS" "contents q = contents (ss_sendQueue_p s) @ [cmd_mt_p c]"
      using apr_queue.push_law [OF Q, of "ss_sendQueue_p s" "cmd_mt_p c"] q by (auto simp: APR_QUEUE_CAPACITY_def)
    have ok: "\<forall>c \<in> set ring. ssock_heap ?g (cmd_sendQueue_p c) \<noteq> None" using snoc.prems by auto
    obtain g' k where ih: "process_cmds Q ring ?g = Inr g'" "k \<le> length ring" "ringCmd g' = take k ring"
      "\<forall>a s. ssock_heap ?g a = Some s \<longrightarrow> (\<exists>s'. ssock_heap g' a = Some s' \<and> ss_client_addr s' = ss_client_addr s
        \<and> contents (ss_sendQueue_p s') = contents (ss_sendQueue_p s)
            @ map cmd_mt_p (filter (\<lambda>c. cmd_sendQueue_p c = a) (rev (drop k ring))))"
      "k = 0 \<or> (\<exists>s'. ssock_heap g' (cmd_sendQueue_p (ring ! (k - 1))) = Some s' \<and> 200 \<le> length (contents (ss_sendQueue_p s')))"
      using snoc.IH [OF ok] by blast
    have "\<exists>s'. ssock_heap g' a = Some s' \<and> ss_client_addr s' = ss_client_addr x
        \<and> contents (ss_sendQueue_p s') = contents (ss_sendQueue_p x)
            @ map cmd_mt_p (filter (\<lambda>c. cmd_sendQueue_p c = a) (rev (drop k (ring @ [c]))))" if "ssock_heap g a = Some x" for a x
    proof (cases "a = cmd_sendQueue_p c")
      case True
      then show ?thesis using ih(4) [rule_format, of a "s\<lparr>ss_sendQueue_p := q\<rparr>"] that s st(2) ih(2) by simp
    next
      case False
      then show ?thesis using ih(4) [rule_format, of a x] that ih(2) by auto
    qed
    moreover have "ringCmd g' = take k (ring @ [c])" "k \<le> length (ring @ [c])" using ih(2,3) by simp_all
    moreover have "k = 0 \<or> (ring @ [c]) ! (k - 1) = ring ! (k - 1)" using ih(2) by (auto simp: nth_append)
    ultimately show ?thesis using ih(1,5) st(1) unfolding step by (intro exI [of _ g'] exI [of _ k]) auto
  next
    case False
    then have st: "st \<noteq> APR_SUCCESS" "contents q = contents (ss_sendQueue_p s)"
      using apr_queue.push_full_law [OF Q, of "ss_sendQueue_p s" "cmd_mt_p c"] q by (auto simp: APR_QUEUE_CAPACITY_def)
    show ?thesis
      using st False s unfolding step
      by (intro exI [of _ "?g\<lparr>ringCmd := ring @ [c]\<rparr>"] exI [of _ "length (ring @ [c])"]) auto
  qed
qed

theorem process_cmds_fifo_witness:
  "\<exists>g'. process_cmds list_queue [\<lparr>cmd_bcd_id = zero_id, cmd_sendQueue_p = 4, cmd_mt_p = createMsgToken_raw 48 False TV0\<rparr>,
       \<lparr>cmd_bcd_id = zero_id, cmd_sendQueue_p = 4, cmd_mt_p = createMsgToken_raw 60 False TV0\<rparr>]
     ((initSharedDataStructures (cmp_skiplist (\<lambda>_ _. 1)) :: (MsgToken list, nat list, BcdID list) agent)
       \<lparr>ssock_heap := [4 \<mapsto> createSendSocketState list_queue 9 7]\<rparr>) = Inr g'
    \<and> map_option (\<lambda>s. map msg_len (ss_sendQueue_p s)) (ssock_heap g' 4) = Some [60, 48]"
proof -
  let ?r = "[\<lparr>cmd_bcd_id = zero_id, cmd_sendQueue_p = 4, cmd_mt_p = createMsgToken_raw 48 False TV0\<rparr>,
       \<lparr>cmd_bcd_id = zero_id, cmd_sendQueue_p = 4, cmd_mt_p = createMsgToken_raw 60 False TV0\<rparr>]"
  let ?s = "createSendSocketState list_queue 9 7"
  let ?g = "(initSharedDataStructures (cmp_skiplist (\<lambda>_ _. 1)) :: (MsgToken list, nat list, BcdID list) agent)\<lparr>ssock_heap := [4 \<mapsto> ?s]\<rparr>"
  have ok: "\<forall>c \<in> set ?r. ssock_heap ?g (cmd_sendQueue_p c) \<noteq> None" by simp
  obtain g' k where r: "process_cmds list_queue ?r ?g = Inr g'" "k \<le> length ?r"
    "\<forall>a s. ssock_heap ?g a = Some s \<longrightarrow> (\<exists>s'. ssock_heap g' a = Some s' \<and> ss_client_addr s' = ss_client_addr s
        \<and> ss_sendQueue_p s' = ss_sendQueue_p s @ map cmd_mt_p (filter (\<lambda>c. cmd_sendQueue_p c = a) (rev (drop k ?r))))"
    "k = 0 \<or> (\<exists>s'. ssock_heap g' (cmd_sendQueue_p (?r ! (k - 1))) = Some s' \<and> 200 \<le> length (ss_sendQueue_p s'))"
    using process_cmds_fifo [OF lq.apr_queue_axioms ok] by blast
  have q: "ss_sendQueue_p ?s = []" by (simp add: createSendSocketState_def list_queue_def)
  obtain s' where s': "ssock_heap g' 4 = Some s'" "ss_sendQueue_p s' = map cmd_mt_p (filter (\<lambda>c. cmd_sendQueue_p c = 4) (rev (drop k ?r)))"
    using r(3) [rule_format, of 4 ?s] q by auto
  have "length (ss_sendQueue_p s') \<le> length ?r"
    unfolding s'(2) length_map by (rule order_trans [OF length_filter_le]) simp
  moreover have "cmd_sendQueue_p (?r ! (k - 1)) = 4" if "k \<noteq> 0" using r(2) that by (cases k) (auto simp: less_Suc_eq nth_Cons')
  ultimately have "k = 0" using r(4) s'(1) by fastforce
  then show ?thesis using r(1) s' by (simp add: createMsgToken_raw_def)
qed

end
