(* ===== verification/RecvThread.thy ===== *)
theory RecvThread
  imports Agent "HOL-Library.Sublist"
begin

text \<open>
  One pass of the loop of \<^verbatim>\<open>thread_recvSocket\<close> (\<^verbatim>\<open>thread_recv.c\<close>), the receiver's side of the control
  channel: the pipes from the data thread and the service thread, and the connections to masters, from which
  patches come.  The lock of a receiver is free when the data thread is not inside a packet, so that the two
  waiting loops of \<^verbatim>\<open>MSG_FAST_DONE\<close> end at once.  Writes to the agent's own pipes are complete.
\<close>

subsection \<open>The handlers\<close>

definition tell_service :: "timeval \<Rightarrow> BcdID \<Rightarrow> msg_type \<Rightarrow> ('q, 's, 'u) agent \<Rightarrow> ('q, 's, 'u) agent" where
  "tell_service now bid ty g = g\<lparr>pipe_c2i := pipe_c2i g @ pipe_msg now bid ty []\<rparr>"

text \<open>The connection of a receiver to its master.\<close>

definition recv_conn :: "RecverState option \<Rightarrow> (nat \<Rightarrow> 'b res option) \<Rightarrow> 'b res option" where
  "recv_conn rp k = ro_deref rp (\<lambda>rv. ro_deref (r_fds_p rv) k)"

definition recv_patch_data :: "'q queue_ops \<Rightarrow> timeval \<Rightarrow> BcdID \<Rightarrow> byte list \<Rightarrow> ('q, 's, 'u) agent
    \<Rightarrow> ('q, 's, 'u) agent res option" where
  "recv_patch_data Q now bid buf g = ro_deref (hashRecver g bid) (\<lambda>rv.
     ro_bind (Some (slow_path now rv (file_of g (r_bcd_filename rv)) buf)) (\<lambda>(rv, file, all).
       let g = put_file (r_bcd_filename rv) file (g\<lparr>hashRecver := (hashRecver g)(bid \<mapsto> rv)\<rparr>)
       in if all then ro_deref (r_fds_p rv) (\<lambda>a.
            fds_send Q now a bid MSG_ALL_DONE None (tell_service now (r_bcd_id rv) MSG_C2I_SEQ_ALL g))
          else Some (Inr g)))"

definition recv_fast_done :: "'q queue_ops \<Rightarrow> timeval \<Rightarrow> nat \<Rightarrow> BcdID \<Rightarrow> ('q, 's, 'u) agent
    \<Rightarrow> ('q, 's, 'u) agent res option" where
  "recv_fast_done Q now a bid g = ro_deref (hashRecver g bid) (\<lambda>rv.
     if is_finished rv then Some (Inr g)
     else (let rv = stopFathPath now rv; g = g\<lparr>hashRecver := (hashRecver g)(bid \<mapsto> rv)\<rparr>
           in ro_bind (Some (fast_done_request rv)) (\<lambda>req. case req of None \<Rightarrow> Some (Inr g)
                | Some pt \<Rightarrow> fds_send Q now a (r_bcd_id rv) MSG_PATCH_REQ (Some (patchTuple_bytes pt)) g)))"

definition recv_pull :: "'q queue_ops \<Rightarrow> (string \<Rightarrow> in_addr option \<times> int option) \<Rightarrow> config \<Rightarrow> timeval \<Rightarrow> BcdID
    \<Rightarrow> byte list \<Rightarrow> ('q, 's, 'u) agent \<Rightarrow> ('q, 's, 'u) agent res option" where
  "recv_pull Q conn cf now bid buf g =
     (let miq = intQ_of (peek MSG_HDRLEN (24 + APPID_LEN) buf)
      in ro_bind (Some (connect_master Q conn cf (c_string (master_addr miq)) g)) (\<lambda>(b, g).
           fds_send Q now b bid MSG_PULL None g))"

text \<open>The messages of the data thread.\<close>

definition recv_n2c :: "'q queue_ops \<Rightarrow> config \<Rightarrow> timeval \<Rightarrow> MsgHdr \<Rightarrow> byte list \<Rightarrow> ('q, 's, 'u) agent
    \<Rightarrow> ('q, 's, 'u) agent res option" where
  "recv_n2c Q cf now hdr buf g =
     (let bid = mh_bcd_id hdr; rp = hashRecver g bid
      in if mh_type hdr = MSG_N2C_SEQ_FIRST then
           recv_conn rp (\<lambda>b.
             ro_bind (fds_send Q now b bid MSG_FIRST_SEQ (Some (peek MSG_HDRLEN 4 buf)) g) (\<lambda>g.
               Some (Inr (if r_seq_max (the rp) = 1 then tell_service now bid MSG_C2I_SEQ_ALL g else g))))
         else if mh_type hdr = MSG_N2C_SEQ_ZERO then
           ro_deref rp (\<lambda>rv. ro_assert (r_seq_max rv \<noteq> 1)
             (Some (Inr (if seq_zero_notify cf then tell_service now bid MSG_C2I_SEQ_ZERO g else g))))
         else if mh_type hdr = MSG_N2C_SEQ_ALL then
           ro_deref rp (\<lambda>rv. ro_assert (r_seq_max rv \<noteq> 1)
             (let g = tell_service now bid MSG_C2I_SEQ_ALL g
              in recv_conn rp (\<lambda>b. fds_send Q now b bid MSG_ALL_DONE None g)))
         else if mh_type hdr = MSG_N2C_SEQ_JUMP then
           recv_conn rp (\<lambda>b. fds_send Q now b bid MSG_PATCH_REQ (Some (peek MSG_HDRLEN 8 buf)) g)
         else Some (Inr g))"

definition recv_msg :: "'q queue_ops \<Rightarrow> (string \<Rightarrow> in_addr option \<times> int option) \<Rightarrow> config \<Rightarrow> timeval \<Rightarrow> nat
    \<Rightarrow> FdType \<Rightarrow> MsgHdr \<Rightarrow> byte list \<Rightarrow> ('q, 's, 'u) agent \<Rightarrow> ('q, 's, 'u) agent res option" where
  "recv_msg Q conn cf now a ty hdr buf g =
     (case ty of
        CTRL_RECV_TCP \<Rightarrow>
          (if mh_type hdr = MSG_PULL_REJECT then Some (Inr (tell_service now (mh_bcd_id hdr) MSG_C2I_PULL_REJECT g))
           else if mh_type hdr = MSG_PATCH_DATA then recv_patch_data Q now (mh_bcd_id hdr) buf g
           else if mh_type hdr = MSG_FAST_DONE then recv_fast_done Q now a (mh_bcd_id hdr) g
           else Some (Inr g))
      | PIPE_I2C_RECV \<Rightarrow>
          (if mh_type hdr = MSG_I2C_PULL then recv_pull Q conn cf now (mh_bcd_id hdr) buf g else Some (Inr g))
      | PIPE_N2C_RECV \<Rightarrow> recv_n2c Q cf now hdr buf g
      | _ \<Rightarrow> Some (Inr g))"

subsection \<open>The pass\<close>

text \<open>A connection that is closed is freed with \<^verbatim>\<open>deleteRecvSocketState\<close>; receivers that point to it keep
  their pointer.  A message is consumed by every branch.\<close>

definition recv_handle :: "'q queue_ops \<Rightarrow> (string \<Rightarrow> in_addr option \<times> int option) \<Rightarrow> config \<Rightarrow> timeval \<Rightarrow> nat
    \<Rightarrow> FdType \<Rightarrow> rbuf \<Rightarrow> ('q, 's, 'u) agent \<Rightarrow> (bool \<times> ('q, 's, 'u) agent) res option" where
  "recv_handle Q conn cf now a ty r g =
     ro_bind (recv_msg Q conn cf now a ty (mh r) (recv_buf r) g) (\<lambda>g. Some (Inr (True, g)))"

text \<open>The bytes that a pipe holds are taken from it by \<^verbatim>\<open>read\<close>.\<close>

definition take_pipe :: "FdType \<Rightarrow> nat \<Rightarrow> ('q, 's, 'u) agent \<Rightarrow> ('q, 's, 'u) agent" where
  "take_pipe ty n g = (case ty of
     PIPE_N2C_RECV \<Rightarrow> g\<lparr>pipe_n2c := drop n (pipe_n2c g)\<rparr>
   | PIPE_I2C_RECV \<Rightarrow> g\<lparr>pipe_i2c := drop n (pipe_i2c g)\<rparr>
   | PIPE_C2I_UDS \<Rightarrow> g\<lparr>pipe_c2i := drop n (pipe_c2i g)\<rparr>
   | PIPE_C_SEND2I_UDS \<Rightarrow> g\<lparr>pipe_c_send2i := drop n (pipe_c_send2i g)\<rparr>
   | _ \<Rightarrow> g)"

text \<open>What can be read: for a pipe its content, for a connection what the network delivers.\<close>

definition source_of :: "io_env \<Rightarrow> 'q FdState \<Rightarrow> ('q, 's, 'u) agent \<Rightarrow> recv_result option" where
  "source_of e f g = (case io_rd e (fd f) of None \<Rightarrow> None
     | Some res \<Rightarrow> Some (case fd_type f of
         PIPE_N2C_RECV \<Rightarrow> Got (pipe_n2c g)
       | PIPE_I2C_RECV \<Rightarrow> Got (pipe_i2c g)
       | PIPE_C2I_UDS \<Rightarrow> Got (pipe_c2i g)
       | PIPE_C_SEND2I_UDS \<Rightarrow> Got (pipe_c_send2i g)
       | _ \<Rightarrow> res))"

definition recv_receive :: "'q queue_ops \<Rightarrow> (string \<Rightarrow> in_addr option \<times> int option) \<Rightarrow> config \<Rightarrow> timeval \<Rightarrow> nat
    \<Rightarrow> recv_result \<Rightarrow> ('q, 's, 'u) agent \<Rightarrow> (bool \<times> ('q, 's, 'u) agent) res option" where
  "recv_receive Q conn cf now a res g = (case fds_heap g a of None \<Rightarrow> Some (Inl UseAfterFree)
     | Some f \<Rightarrow> (case recv_into (fd_rbuf f) res of
         Got c \<Rightarrow> ro_bind (frame_loop ready_fd (recv_handle Q conn cf now a (fd_type f)) (frame_read (fd_rbuf f) c)
               (take_pipe (fd_type f) (length c) g))
             (\<lambda>(r, g). case fds_heap g a of None \<Rightarrow> Some (Inl UseAfterFree)
                | Some f \<Rightarrow> Some (Inr (False, g\<lparr>fds_heap := (fds_heap g)(a \<mapsto> f\<lparr>fd_rbuf := r\<rparr>)\<rparr>)))
       | Shut \<Rightarrow> (case state_p f of RecvSock _ \<Rightarrow> Some (Inr (False, g\<lparr>rsockList := remove1 a (rsockList g),
                fds_heap := (fds_heap g)(a := None)\<rparr>))
            | _ \<Rightarrow> Some (Inl NullDeref))
       | Again \<Rightarrow> Some (Inr (True, g))
       | Failed \<Rightarrow> Some (Inl Aborted)))"

definition recv_socket :: "'q queue_ops \<Rightarrow> (string \<Rightarrow> in_addr option \<times> int option) \<Rightarrow> config \<Rightarrow> io_env
    \<Rightarrow> int set \<Rightarrow> nat \<Rightarrow> bool \<times> ('q, 's, 'u) agent \<Rightarrow> (bool \<times> ('q, 's, 'u) agent) res option" where
  "recv_socket Q conn cf e ws a x = (case x of (left, g) \<Rightarrow>
     if left then Some (Inr (left, g))
     else (case fds_heap g a of None \<Rightarrow> Some (Inl UseAfterFree)
      | Some f \<Rightarrow> ro_bind
          (if fd f \<in> ws \<and> fd f \<in> io_wr e
           then ro_deref (fd_sendQueue_p f) (\<lambda>q.
                  ro_bind (sendMsg Q (io_send e (fd f)) 0 q (fd_remainMsgToken_p f) [])
                    (\<lambda>(q, tok, _). Some (Inr (g\<lparr>fds_heap := (fds_heap g)
                       (a \<mapsto> f\<lparr>fd_sendQueue_p := Some q, fd_remainMsgToken_p := tok\<rparr>)\<rparr>))))
           else Some (Inr g))
          (\<lambda>g. case source_of e f g of None \<Rightarrow> Some (Inr (False, g))
             | Some res \<Rightarrow> recv_receive Q conn cf (io_now e) a res g)))"

text \<open>The connections that \<^verbatim>\<open>select\<close> watches for writing.\<close>

definition write_set :: "'q queue_ops \<Rightarrow> (nat \<rightharpoonup> 'q FdState) \<Rightarrow> nat list \<Rightarrow> int set" where
  "write_set Q h as = set (List.map_filter (\<lambda>a. case h a of None \<Rightarrow> None
     | Some f \<Rightarrow> (case fd_sendQueue_p f of None \<Rightarrow> None
       | Some q \<Rightarrow> if 0 < apr_queue_size Q q then Some (fd f) else None)) as)"

definition thread_recvSocket :: "'q queue_ops \<Rightarrow> (string \<Rightarrow> in_addr option \<times> int option) \<Rightarrow> config \<Rightarrow> io_env
    \<Rightarrow> ('q, 's, 'u) agent \<Rightarrow> ('q, 's, 'u) agent res option" where
  "thread_recvSocket Q conn cf e g =
     (let ws = write_set Q (fds_heap g) (rsockList g)
      in case io_select e of TimedOut \<Rightarrow> Some (Inr g)
         | SelectFailed ign \<Rightarrow> if ign then Some (Inr g) else Some (Inl Aborted)
         | ReadyFds \<Rightarrow> ro_bind (ro_fold (recv_socket Q conn cf e ws) (rsockList g) (False, g))
             (\<lambda>(_, g). Some (Inr g)))"

subsection \<open>The interface of the framing loop\<close>

text \<open>A message that is long enough for its handler, by the type of the connection and of the message.  The
  handlers look at the whole receive buffer; on such a message they see nothing behind it.\<close>

definition whole :: "FdType \<Rightarrow> byte list \<Rightarrow> bool" where
  "whole ty m \<longleftrightarrow>
     (let t = mh_type (parseMsgHdr m); dh = parseDataHdr m MSG_HDRLEN
      in case ty of
           CTRL_RECV_TCP \<Rightarrow> t = MSG_PATCH_DATA \<longrightarrow> 80 + unat (dh_len dh) + (if seq_num dh = 0 then 72 else 0) \<le> length m
         | PIPE_I2C_RECV \<Rightarrow> t = MSG_I2C_PULL \<longrightarrow> 136 \<le> length m
         | PIPE_N2C_RECV \<Rightarrow> (t = MSG_N2C_SEQ_FIRST \<longrightarrow> 52 \<le> length m) \<and> (t = MSG_N2C_SEQ_JUMP \<longrightarrow> 56 \<le> length m)
         | _ \<Rightarrow> True)"

lemma peek_prefix: "take (length m) buf = m \<Longrightarrow> off + k \<le> length m \<Longrightarrow> peek off k buf = peek off k m"
  by (metis peek_take)

lemma parseDataHdr_prefix:
  assumes "take (length m) buf = m" "off + 32 \<le> length m"
  shows "parseDataHdr buf off = parseDataHdr m off"
  using assms by (simp add: parseDataHdr_def parseBcdId_def peek_prefix [OF assms(1)])

lemma slow_path_prefix:
  assumes t: "take (length m) buf = m"
    and l: "80 + unat (dh_len (parseDataHdr m MSG_HDRLEN)) + (if seq_num (parseDataHdr m MSG_HDRLEN) = 0 then 72 else 0) \<le> length m"
  shows "slow_path now r file buf = slow_path now r file m"
proof -
  let ?dh = "parseDataHdr m MSG_HDRLEN"
  have h: "parseDataHdr buf MSG_HDRLEN = ?dh" using l by (intro parseDataHdr_prefix [OF t]) (simp add: const_defs)
  have d: "patch_data buf ?dh = patch_data m ?dh"
    unfolding patch_data_def using l by (intro peek_prefix [OF t]) (simp add: const_defs)
  have b: "parseBcdMetadata buf (MSG_HDRLEN + DATA_HDRLEN + unat (dh_len ?dh))
      = parseBcdMetadata m (MSG_HDRLEN + DATA_HDRLEN + unat (dh_len ?dh))" if "seq_num ?dh = 0"
    using l that by (simp add: parseBcdMetadata_def peek_prefix [OF t] const_defs)
  have "patch_tail r file buf ?dh = patch_tail r file m ?dh" by (simp add: patch_tail_def d)
  moreover have "patch_file r file buf ?dh = patch_file r file m ?dh" using b by (simp add: patch_file_def d)
  ultimately show ?thesis by (simp add: slow_path_def h Let_def)
qed

lemma recv_msg_prefix:
  assumes w: "whole ty m" and t: "take (length m) buf = m"
  shows "recv_msg Q conn cf now a ty (parseMsgHdr m) buf g = recv_msg Q conn cf now a ty (parseMsgHdr m) m g"
proof (cases ty)
  case CTRL_RECV_TCP
  have "slow_path now rv f buf = slow_path now rv f m" if "mh_type (parseMsgHdr m) = MSG_PATCH_DATA" for rv f
    by (rule slow_path_prefix [OF t]) (use w that in \<open>simp add: whole_def Let_def CTRL_RECV_TCP\<close>)
  then show ?thesis using CTRL_RECV_TCP by (simp add: recv_msg_def recv_patch_data_def)
next
  case PIPE_I2C_RECV
  have "peek MSG_HDRLEN (24 + APPID_LEN) buf = peek MSG_HDRLEN (24 + APPID_LEN) m" if "mh_type (parseMsgHdr m) = MSG_I2C_PULL"
    by (rule peek_prefix [OF t]) (use w that in \<open>simp add: whole_def Let_def PIPE_I2C_RECV const_defs\<close>)
  then show ?thesis using PIPE_I2C_RECV by (simp add: recv_msg_def recv_pull_def)
next
  case PIPE_N2C_RECV
  have "peek MSG_HDRLEN 4 buf = peek MSG_HDRLEN 4 m" if "mh_type (parseMsgHdr m) = MSG_N2C_SEQ_FIRST"
    by (rule peek_prefix [OF t]) (use w that in \<open>simp add: whole_def Let_def PIPE_N2C_RECV MSG_HDRLEN_def\<close>)
  moreover have "peek MSG_HDRLEN 8 buf = peek MSG_HDRLEN 8 m" if "mh_type (parseMsgHdr m) = MSG_N2C_SEQ_JUMP"
    by (rule peek_prefix [OF t]) (use w that in \<open>simp add: whole_def Let_def PIPE_N2C_RECV MSG_HDRLEN_def\<close>)
  ultimately show ?thesis using PIPE_N2C_RECV by (simp add: recv_msg_def recv_n2c_def Let_def cong: if_cong)
qed (simp_all add: recv_msg_def)

definition recv_step :: "'q queue_ops \<Rightarrow> (string \<Rightarrow> in_addr option \<times> int option) \<Rightarrow> config \<Rightarrow> timeval \<Rightarrow> nat \<Rightarrow> FdType
    \<Rightarrow> byte list \<Rightarrow> ('q, 's, 'u) agent \<Rightarrow> ('q, 's, 'u) agent res option" where
  "recv_step Q conn cf now a ty m g = recv_msg Q conn cf now a ty (parseMsgHdr m) m g"

interpretation rc: frame_client ready_fd "recv_handle Q conn cf now a ty" "whole ty" "recv_step Q conn cf now a ty"
  for Q :: "'q queue_ops" and conn cf now a ty
proof unfold_locales
  fix m and r :: rbuf and st :: "('q, 's, 'u) agent"
  assume "whole ty m" "take (length m) (recv_buf r) = m" "mh r = parseMsgHdr m"
  then show "recv_handle Q conn cf now a ty r st
      = map_option (map_sum (\<lambda>e. e) (\<lambda>st. (True, st))) (recv_step Q conn cf now a ty m st)"
    using recv_msg_prefix [of ty m "recv_buf r" Q conn cf now a st]
    by (simp add: recv_handle_def recv_step_def ro_bind_def split: option.split sum.split)
qed (simp add: ready_fd_law)

text \<open>The messages of the data thread's pipe are whole messages.\<close>

lemma pipe_msg_bytes:
  "pipe_msg now bid ty p = enc_MsgHdr \<lparr>mh_bcd_id = bid, mh_type = ty, mh_len = of_nat (48 + length p), mh_tv = now\<rparr> @ p"
  by (simp add: pipe_msg_def createMsgHdr_eq MSG_HDRLEN_def poke_def)

lemma pipe_msg_framed:
  assumes "length p \<le> 8858" "tv_ok now"
  shows "framed (pipe_msg now bid ty p)"
    "parseMsgHdr (pipe_msg now bid ty p) = \<lparr>mh_bcd_id = bid, mh_type = ty, mh_len = of_nat (48 + length p), mh_tv = now\<rparr>"
    "drop 48 (pipe_msg now bid ty p) = p"
proof -
  show h: "parseMsgHdr (pipe_msg now bid ty p) = \<lparr>mh_bcd_id = bid, mh_type = ty, mh_len = of_nat (48 + length p), mh_tv = now\<rparr>"
    unfolding pipe_msg_bytes by (rule parseMsgHdr_enc) (use assms(2) in \<open>simp_all add: peek_append_left peek_hd\<close>)
  have u: "unat (of_nat (48 + length p) :: u32) = 48 + length p" using assms(1) by (intro unat_of_nat_u32) simp
  show "framed (pipe_msg now bid ty p)"
    using assms(1) unfolding framed_def hdr_len_def h MsgHdr.select_convs u by (simp add: pipe_msg_bytes RECVBUF_LEN_def)
  show "drop 48 (pipe_msg now bid ty p) = p" by (simp add: pipe_msg_bytes)
qed

text \<open>What the data thread writes for one packet, as a list of messages.\<close>

definition fp_notices :: "timeval \<Rightarrow> RecverState \<Rightarrow> DataHdr \<Rightarrow> bool \<Rightarrow> bool \<Rightarrow> fp_marks \<Rightarrow> (msg_type \<times> byte list) list" where
  "fp_notices now r dh first all mk =
     (if first then [(MSG_N2C_SEQ_FIRST, createMsgSeqFirst (seq_num dh))] else [])
   @ (if fp_zero mk \<and> 1 < r_seq_max r then [(MSG_N2C_SEQ_ZERO, [])] else [])
   @ (if all \<and> 1 < r_seq_max r then [(MSG_N2C_SEQ_ALL, [])] else [])
   @ (if fp_jump mk then [(MSG_N2C_SEQ_JUMP, patchTuple_bytes (fp_pt mk))] else [])"

lemma fp_messages_notices:
  "fp_messages now r dh first all mk = concat (map (\<lambda>(ty, p). pipe_msg now (r_bcd_id r) ty p) (fp_notices now r dh first all mk))"
  by (simp add: fp_messages_def fp_notices_def)

lemma fp_notices_whole:
  assumes "tv_ok now" "(ty, p) \<in> set (fp_notices now r dh first all mk)"
  shows "framed (pipe_msg now bid ty p) \<and> whole PIPE_N2C_RECV (pipe_msg now bid ty p)"
proof -
  have l: "length p \<le> 8" "ty = MSG_N2C_SEQ_FIRST \<longrightarrow> length p = 4" "ty = MSG_N2C_SEQ_JUMP \<longrightarrow> length p = 8"
    using assms(2) by (auto simp: fp_notices_def createMsgSeqFirst_def patchTuple_bytes_def const_defs split: if_splits)
  then have "length p \<le> 8858" by simp
  note m = pipe_msg_framed [OF this assms(1), of bid ty]
  have "length (pipe_msg now bid ty p) = 48 + length p" by (simp add: pipe_msg_bytes)
  then show ?thesis using m(1) l by (simp add: whole_def Let_def m(2))
qed

subsection \<open>Properties\<close>

text \<open>C35: What the data thread notices about a packet reaches the control thread whole and in order.  The bytes that
  \<^verbatim>\<open>fast_path\<close> writes into the pipe are messages of at most the four kinds first, zero, all and jump, in this order; and
  however the pipe cuts them into pieces, the control thread handles exactly these messages, one after the other,
  and nothing is left in its buffer.\<close>

theorem notices_arrive:
  assumes "fast_path now r fl p dh = Inr (r', fl', out)" and "tv_ok now"
  shows "\<exists>ms. out = concat ms \<and> subseq (map (\<lambda>m. mh_type (parseMsgHdr m)) ms)
        [MSG_N2C_SEQ_FIRST, MSG_N2C_SEQ_ZERO, MSG_N2C_SEQ_ALL, MSG_N2C_SEQ_JUMP]
    \<and> (\<forall>Q conn cf now2 a (g :: ('q, 's, 'u) agent) fin ks. run_msgs (recv_step Q conn cf now2 a PIPE_N2C_RECV) ms g = Some (Inr fin)
          \<and> 0 \<notin> set ks \<and> length out \<le> length ks
        \<longrightarrow> (\<exists>rb. frame_feed ready_fd (recv_handle Q conn cf now2 a PIPE_N2C_RECV) ks out rbuf_init g = Some (Inr (rb, fin, []))
              \<and> pending rb = []))"
proof -
  obtain r2 first all mk where o: "out = [] \<or> out = fp_messages now r2 dh first all mk"
    using assms(1) by (auto simp: fast_path_def Let_def rbind_Inr_iff split: if_splits prod.splits)
  define ns where "ns = (if out = [] then [] else fp_notices now r2 dh first all mk)"
  define ms where "ms = map (\<lambda>(ty, p). pipe_msg now (r_bcd_id r2) ty p) ns"
  have out: "out = concat ms" using o by (auto simp: ms_def ns_def fp_messages_notices)
  have w: "framed m \<and> whole PIPE_N2C_RECV m" if "m \<in> set ms" for m
    using that fp_notices_whole [OF assms(2)] by (auto simp: ms_def ns_def split: if_splits)
  have ty: "map (\<lambda>m. mh_type (parseMsgHdr m)) ms = map fst ns"
    using pipe_msg_framed(2) [OF _ assms(2)]
    by (auto simp: ms_def ns_def fp_notices_def createMsgSeqFirst_def patchTuple_bytes_def)
  have "subseq (map fst ns) [MSG_N2C_SEQ_FIRST, MSG_N2C_SEQ_ZERO, MSG_N2C_SEQ_ALL, MSG_N2C_SEQ_JUMP]"
    by (auto simp: ns_def fp_notices_def)
  then show ?thesis
    using out w ty rc.frame_feed_all [of ms] by (intro exI [of _ ms]) fastforce
qed

theorem notices_arrive_witness:
  "\<exists>r' fl' out ms. fast_path (Timeval 1 1) (startFathPath TV0 (the (createRecverState 2 True True True zero_id))) [] (replicate 74 0)
      \<lparr>dh_bcd_id = zero_id, seq_num = 5, dh_len = 0\<rparr> = Inr (r', fl', out) \<and> out = concat ms \<and> length out = 52
    \<and> subseq (map (\<lambda>m. mh_type (parseMsgHdr m)) ms) [MSG_N2C_SEQ_FIRST, MSG_N2C_SEQ_ZERO, MSG_N2C_SEQ_ALL, MSG_N2C_SEQ_JUMP]"
proof -
  let ?r = "startFathPath TV0 (the (createRecverState 2 True True True zero_id))"
    and ?dh = "\<lparr>dh_bcd_id = zero_id, seq_num = 5, dh_len = 0\<rparr>"
  obtain r' fl' where r: "fast_path (Timeval 1 1) ?r [] (replicate 74 0) ?dh
      = Inr (r', fl', pipe_msg (Timeval 1 1) zero_id MSG_N2C_SEQ_FIRST (createMsgSeqFirst 5))"
    by (simp add: fast_path_def startFathPath_def createRecverState_def fp_first_def fp_place_def fp_write_def fp_last_def
        fp_is_last_def fp_messages_def fp_none_def const_defs)
  have "tv_ok (Timeval 1 1)" by (simp add: tv_ok_def)
  from notices_arrive [OF r this] r show ?thesis
    by (auto simp: pipe_msg_bytes createMsgSeqFirst_def)
qed

end
