(* ===== verification/ServiceThread.thy ===== *)
theory ServiceThread
  imports RecvThread
begin

text \<open>
  One pass of the loop of \<^verbatim>\<open>thread_domainSocket\<close> (\<^verbatim>\<open>thread_service.c\<close>): the requests of the local applications,
  the queue of pushes that wait for a path, and the notices of the other threads.  The controller, name
  lookup and the file system's answers are arguments; \<open>U\<close> are the operations of the skip list of pushes.
\<close>

subsection \<open>The world of the service thread\<close>

datatype push_cmd = CMD_PUSH | CMD_POSTPONE | CMD_DENY | CMD_OTHER

record svc_env =
  sv_resolve :: "string \<Rightarrow> in_addr option"
  sv_conn :: "string \<Rightarrow> in_addr option \<times> int option"
  sv_mkdir_ok :: bool
  sv_log_ok :: bool
  sv_reply :: "push_cmd \<times> int"
  sv_uds_order :: "(int \<rightharpoonup> nat) \<Rightarrow> int list"

subsection \<open>Paths\<close>

text \<open>A multicast that is dead gives its path back and is no longer the active one.\<close>

definition release_path :: "config \<Rightarrow> timeval \<Rightarrow> ('q, 's, 'u) agent \<Rightarrow> ('q, 's, 'u) agent res" where
  "release_path cf now g = (case activeMulticast_p g of None \<Rightarrow> Inr g
     | Some b \<Rightarrow> deref (hashMulticast g b) (\<lambda>m.
         if bcd_state m = BCDSTATE_DEAD
         then Inr ((if connect_controller cf
           then g\<lparr>hashMulticast := (hashMulticast g)(b \<mapsto> m\<lparr>m_tv := (m_tv m)\<lparr>tv_path_release := now\<rparr>,
                    is_path_released := True\<rparr>)\<rparr> else g)\<lparr>activeMulticast_p := None\<rparr>)
         else Inr g))"

text \<open>The answer of the controller to the push at the head of the queue, which was taken out.\<close>

definition push_reply :: "('u, BcdID) skiplist_ops \<Rightarrow> timeval \<Rightarrow> push_cmd \<Rightarrow> BcdID \<Rightarrow> 's MulticastState
    \<Rightarrow> ('q, 's, 'u) agent \<Rightarrow> ('q, 's, 'u) agent" where
  "push_reply U now cmd b m g = (case cmd of
     CMD_PUSH \<Rightarrow> g\<lparr>hashMulticast := (hashMulticast g)(b \<mapsto> m\<lparr>m_tv := (m_tv m)\<lparr>tv_path_approve := now\<rparr>,
         bcd_state := BCDSTATE_INITIATED\<rparr>), activeMulticast_p := Some b\<rparr>
   | CMD_OTHER \<Rightarrow> g\<lparr>hashMulticast := (hashMulticast g)(b \<mapsto> m)\<rparr>
   | _ \<Rightarrow> g\<lparr>hashMulticast := (hashMulticast g)
              (b \<mapsto> m\<lparr>tv_push := Timeval (tv_sec (tv_push m) + 1) (tv_usec (tv_push m))\<rparr>),
            queuePush_p := (case sk_insert U b (queuePush_p g) of None \<Rightarrow> queuePush_p g | Some u \<Rightarrow> u)\<rparr>)"

definition request_path :: "('u, BcdID) skiplist_ops \<Rightarrow> config \<Rightarrow> timeval \<Rightarrow> push_cmd \<times> int
    \<Rightarrow> ('q, 's, 'u) agent \<Rightarrow> ('q, 's, 'u) agent res" where
  "request_path U cf now reply g =
     (if activeMulticast_p g \<noteq> None then Inr g
      else (case sk_peek U (queuePush_p g) of None \<Rightarrow> Inr g
        | Some b \<Rightarrow> deref (hashMulticast g b) (\<lambda>m.
            if timercmp_lt (tv_push m) now then
              (let g = g\<lparr>queuePush_p := fst (sk_pop U (queuePush_p g))\<rparr>;
                   m = (if connect_controller cf then m\<lparr>m_tv := (m_tv m)\<lparr>tv_path_request := now\<rparr>\<rparr> else m)
               in case (if connect_controller cf then reply else (CMD_PUSH, 0)) of (cmd, xid) \<Rightarrow>
                    Inr (push_reply U now cmd b (m\<lparr>controller_xid := xid\<rparr>) g))
            else Inr g)))"

subsection \<open>The requests of an application\<close>

definition set_lsock :: "nat \<Rightarrow> LocalSocketState \<Rightarrow> ('q, 's, 'u) agent \<Rightarrow> ('q, 's, 'u) agent" where
  "set_lsock a ls g = g\<lparr>fds_heap := (fds_heap g)(a := map_option (\<lambda>f. f\<lparr>state_p := LocalSock ls\<rparr>) (fds_heap g a))\<rparr>"

definition recver_rpl :: "RecverState \<Rightarrow> byte list" where
  "recver_rpl rv = readRpl_bytes REPLY_SUCCESS (fm_start (fileMetadata rv)) (fm_jump (fileMetadata rv)) (r_data_size rv)"

definition svc_read :: "'q queue_ops \<Rightarrow> config \<Rightarrow> timeval \<Rightarrow> nat \<Rightarrow> LocalSocketState \<Rightarrow> BcdID
    \<Rightarrow> ('q, 's, 'u) agent \<Rightarrow> ('q, 's, 'u) agent res option" where
  "svc_read Q cf now a ls bid g =
     ro_assert (executor_id (ls_msgIntQ ls) \<noteq> MASTER_EXECUTOR_ID)
      (let ls = ls\<lparr>reading := True, ls_bcd_id := bid\<rparr>; g = set_lsock a ls g;
           stop = (\<lambda>g. Some (Inr (set_lsock a (ls\<lparr>reading := False\<rparr>) g)))
       in if hostinaddress_ctrl cf \<noteq> masterinaddr (ls_msgIntQ ls) then
            (case hashRecver g bid of
               Some rv \<Rightarrow> if is_finished rv \<or> is_seq_zero rv \<and> seq_zero_notify cf
                 then ro_bind (fds_send Q now a (r_bcd_id rv) MSG_READ_RPL (Some (recver_rpl rv)) g) stop
                 else Some (Inr g)
             | None \<Rightarrow> Some (Inr (g\<lparr>pipe_i2c := pipe_i2c g @ pipe_msg now bid MSG_I2C_PULL (intQ_bytes (ls_msgIntQ ls))\<rparr>)))
          else ro_deref (hashMulticast g bid) (\<lambda>m.
            ro_bind (fds_send Q now a (m_bcd_id m) MSG_READ_RPL
              (Some (readRpl_bytes REPLY_SUCCESS 0 (m_data_size m) (m_data_size m))) g) stop))"

text \<open>\<^verbatim>\<open>MSG_DEL_REQ\<close>: the file goes when as many applications asked as are connected.\<close>

definition svc_delete :: "config \<Rightarrow> LocalSocketState \<Rightarrow> BcdID \<Rightarrow> AppState \<Rightarrow> ('q, 's, 'u) agent
    \<Rightarrow> ('q, 's, 'u) agent res" where
  "svc_delete cf ls bid app g =
     (let mp = hashMulticast g bid; rp = hashRecver g bid;
          master = (executor_id (ls_msgIntQ ls) = MASTER_EXECUTOR_ID);
          local = (hostinaddress_ctrl cf = masterinaddr (ls_msgIntQ ls))
      in if mp = None \<and> rp = None then Inr g
         else assert_c (master \<and> mp \<noteq> None \<or> \<not> master \<and> rp \<noteq> None \<or> \<not> master \<and> local)
           (if master \<or> local then
              deref mp (\<lambda>m.
                let m = m\<lparr>m_delete_counter := m_delete_counter m + 1\<rparr>
                in if card (dom (uds_hash app)) \<le> unat (m_delete_counter m)
                   then Inr (g\<lparr>hashMulticast := (hashMulticast g)(bid \<mapsto> close_multicast m),
                          files := (files g)(m_bcd_filename m := None)\<rparr>)
                   else Inr (g\<lparr>hashMulticast := (hashMulticast g)(bid \<mapsto> m)\<rparr>))
            else deref rp (\<lambda>rv.
                let rv = rv\<lparr>r_delete_counter := r_delete_counter rv + 1\<rparr>
                in if card (dom (uds_hash app)) \<le> unat (r_delete_counter rv)
                   then Inr (g\<lparr>hashRecver := (hashRecver g)
                            (bid \<mapsto> rv\<lparr>fd_p := closeFile (fd_p rv), fd_patch_p := closeFile (fd_patch_p rv)\<rparr>),
                          files := (files g)(r_bcd_filename rv := None)\<rparr>)
                   else Inr (g\<lparr>hashRecver := (hashRecver g)(bid \<mapsto> rv)\<rparr>))))"

text \<open>\<^verbatim>\<open>MSG_WRT_REQ\<close>: the application has written the file, and the multicast is created.\<close>

definition svc_write :: "('s, nat) skiplist_ops \<Rightarrow> config \<Rightarrow> timeval \<Rightarrow> LocalSocketState \<Rightarrow> BcdID \<Rightarrow> byte list
    \<Rightarrow> ('q, 's, 'u) agent \<Rightarrow> ('q, 's, 'u) agent res" where
  "svc_write S cf now ls bid buf g =
     assert_c (executor_id (ls_msgIntQ ls) = MASTER_EXECUTOR_ID)
      (assert_c (hashMulticast g bid = None)
        (case hashApp g (app_id bid) of None \<Rightarrow> Inl AssertFailed
         | Some p \<Rightarrow> deref (app_heap g p) (\<lambda>app.
             rbind (createBcdState S (hostethhdr_data cf) (hostinaddress_data cf) (data_payload_len cf) now bid
                 (ls_msgIntQ ls) (parseMsgWrtQ (drop MSG_HDRLEN buf)) (cf_rate_type cf) (rate_f cf)
                 (files g (BcdIdtoFilename bid))) (\<lambda>mp.
               deref mp (\<lambda>m. Inr (g\<lparr>hashMulticast := (hashMulticast g)(bid \<mapsto> m),
                 app_heap := (app_heap g)(p \<mapsto> app\<lparr>bcd_sender_hash := insert bid (bcd_sender_hash app)\<rparr>)\<rparr>))))))"

text \<open>\<^verbatim>\<open>MSG_PSH_REQ\<close>: a sender state for every slave, then the multicast waits for a path.\<close>

definition add_sender :: "in_addr \<Rightarrow> timeval \<Rightarrow> in_addr \<Rightarrow> 's MulticastState \<Rightarrow> 's MulticastState" where
  "add_sender host_ctrl now key m =
     (let sd = createSenderState host_ctrl (int (unat (n_init m))) key (m_bcd_id m) None now;
          m = m\<lparr>n_init := n_init m + 1, sender_heap := sender_heap m @ [sd],
                sender_addr_hash_p := (sender_addr_hash_p m)(key \<mapsto> length (sender_heap m))\<rparr>
      in if s_is_distinct_rack sd then m\<lparr>is_distinct_rack := True\<rparr> else m)"

definition start_push :: "in_addr \<Rightarrow> timeval \<Rightarrow> MsgPshQ \<Rightarrow> 's MulticastState \<Rightarrow> 's MulticastState" where
  "start_push host_ctrl now psh m =
     (let m = multicastState_reset now (m\<lparr>m_msgPshQ := psh\<rparr>);
          m = fold (add_sender host_ctrl now) (take (nat (fan_out_effective psh)) (slaves psh)) m
      in m\<lparr>sender_end_seq_arr_p := replicate (nat (fan_out_effective psh)) None, tv_push := now\<rparr>)"

definition svc_push :: "('u, BcdID) skiplist_ops \<Rightarrow> config \<Rightarrow> svc_env \<Rightarrow> timeval \<Rightarrow> LocalSocketState \<Rightarrow> BcdID
    \<Rightarrow> byte list \<Rightarrow> ('q, 's, 'u) agent \<Rightarrow> ('q, 's, 'u) agent res" where
  "svc_push U cf v now ls bid buf g =
     rbind (parseMsgPshQ (sv_resolve v) (hostinaddress_ctrl cf) (drop MSG_HDRLEN buf)) (\<lambda>psh.
       assert_c (executor_id (ls_msgIntQ ls) = MASTER_EXECUTOR_ID)
        (case hashMulticast g bid of None \<Rightarrow> Inl AssertFailed
         | Some m \<Rightarrow>
            if fan_out_effective psh \<noteq> 0
            then Inr (g\<lparr>hashMulticast := (hashMulticast g)(bid \<mapsto> start_push (hostinaddress_ctrl cf) now psh m),
                   queuePush_p := (case sk_insert U bid (queuePush_p g) of None \<Rightarrow> queuePush_p g | Some u \<Rightarrow> u)\<rparr>)
            else Inr (g\<lparr>hashMulticast := (hashMulticast g)(bid \<mapsto> m\<lparr>m_msgPshQ := psh\<rparr>)\<rparr>)))"

text \<open>\<^verbatim>\<open>MSG_INT_REQ\<close>: the application introduces itself; a slave is connected to its master.\<close>

definition svc_app :: "svc_env \<Rightarrow> BcdID \<Rightarrow> MsgIntQ \<Rightarrow> ('q, 's, 'u) agent \<Rightarrow> ('q, 's, 'u) agent res" where
  "svc_app v bid iq g = (case hashApp g (app_id bid) of Some _ \<Rightarrow> Inr g
     | None \<Rightarrow> rbind (createAppState (sv_mkdir_ok v) (sv_log_ok v) (dirs g) (app_id bid) (iq_app_id iq) (master_addr iq))
         (\<lambda>(app, ds). let p = next_addr g
            in Inr (g\<lparr>app_heap := (app_heap g)(p \<mapsto> app), next_addr := p + 1, dirs := ds, sv_app_p2 := Some p\<rparr>)))"

definition svc_int :: "'q queue_ops \<Rightarrow> config \<Rightarrow> svc_env \<Rightarrow> nat \<Rightarrow> LocalSocketState \<Rightarrow> BcdID \<Rightarrow> byte list
    \<Rightarrow> ('q, 's, 'u) agent \<Rightarrow> ('q, 's, 'u) agent res" where
  "svc_int Q cf v a ls bid buf g =
     rbind (parseMsgIntQ (sv_resolve v) (drop MSG_HDRLEN buf)) (\<lambda>iq.
       let ls = ls\<lparr>ls_msgIntQ := iq\<rparr>; g = set_lsock a ls g; known = (hashApp g (app_id bid) \<noteq> None)
       in rbind (if executor_id iq \<noteq> MASTER_EXECUTOR_ID \<and> hostinaddress_ctrl cf \<noteq> masterinaddr iq
             then rbind (connect_master Q (sv_conn v) cf (c_string (master_addr iq)) g) (\<lambda>(_, g). Inr g)
             else Inr g) (\<lambda>g.
          rbind (svc_app v bid iq g) (\<lambda>g.
            deref (sv_app_p2 g) (\<lambda>p. deref (app_heap g p) (\<lambda>app.
              let g = set_lsock a (ls\<lparr>ls_app_p := Some p\<rparr>) g;
                  g = g\<lparr>app_heap := (app_heap g)(p \<mapsto> app\<lparr>uds_hash := (uds_hash app)(ls_id ls \<mapsto> a)\<rparr>)\<rparr>
              in Inr (if known then g else g\<lparr>hashApp := (hashApp g)(as_app_id app \<mapsto> p)\<rparr>))))))"

definition svc_request :: "'q queue_ops \<Rightarrow> ('s, nat) skiplist_ops \<Rightarrow> ('u, BcdID) skiplist_ops \<Rightarrow> config \<Rightarrow> svc_env
    \<Rightarrow> timeval \<Rightarrow> nat \<Rightarrow> LocalSocketState \<Rightarrow> MsgHdr \<Rightarrow> byte list \<Rightarrow> ('q, 's, 'u) agent
    \<Rightarrow> ('q, 's, 'u) agent res option" where
  "svc_request Q S U cf v now a ls hdr buf g =
     (let bid = mh_bcd_id hdr;
          reply = (\<lambda>ty g. fds_send Q now a bid ty (Some (code_bytes REPLY_SUCCESS)) g)
      in if mh_type hdr = MSG_READ_REQ then svc_read Q cf now a ls bid g
         else if mh_type hdr = MSG_DEL_REQ then
           (case hashApp g (app_id bid) of None \<Rightarrow> Some (Inl AssertFailed)
            | Some p \<Rightarrow> ro_deref (app_heap g p) (\<lambda>app.
                ro_bind (Some (svc_delete cf ls bid app g)) (reply MSG_DEL_RPL)))
         else if mh_type hdr = MSG_WRT_REQ then ro_bind (Some (svc_write S cf now ls bid buf g)) (reply MSG_WRT_RPL)
         else if mh_type hdr = MSG_PSH_REQ then ro_bind (Some (svc_push U cf v now ls bid buf g)) (reply MSG_PSH_RPL)
         else if mh_type hdr = MSG_INT_REQ then ro_bind (Some (svc_int Q cf v a ls bid buf g)) (reply MSG_INT_RPL)
         else Some (Inr g))"

subsection \<open>The notices of the other threads\<close>

text \<open>The walk over the applications' connections: those that wait for \<open>key\<close> get a reply that names \<open>bid\<close>, which is the same for a
  receiver found under its own identifier.\<close>

definition notify_one :: "'q queue_ops \<Rightarrow> timeval \<Rightarrow> BcdID \<Rightarrow> BcdID \<Rightarrow> byte list \<Rightarrow> nat \<Rightarrow> ('q, 's, 'u) agent
    \<Rightarrow> ('q, 's, 'u) agent res option" where
  "notify_one Q now key bid rpl a g = (case fds_heap g a of None \<Rightarrow> Some (Inl UseAfterFree)
     | Some f \<Rightarrow> ro_assert (fd_type f = IFACE_UDS)
        (case state_p f of LocalSock ls \<Rightarrow>
             if reading ls \<and> ls_bcd_id ls = key
             then ro_bind (fds_send Q now a bid MSG_READ_RPL (Some rpl) g)
                    (\<lambda>g. Some (Inr (set_lsock a (ls\<lparr>reading := False\<rparr>) g)))
             else Some (Inr g)
           | _ \<Rightarrow> Some (Inl NullDeref)))"

definition notify_readers :: "'q queue_ops \<Rightarrow> svc_env \<Rightarrow> timeval \<Rightarrow> AppState \<Rightarrow> BcdID \<Rightarrow> BcdID \<Rightarrow> byte list
    \<Rightarrow> ('q, 's, 'u) agent \<Rightarrow> ('q, 's, 'u) agent res option" where
  "notify_readers Q v now app key bid rpl g =
     ro_fold (\<lambda>i g. ro_deref (uds_hash app i) (\<lambda>a. notify_one Q now key bid rpl a g)) (sv_uds_order v (uds_hash app)) g"

definition with_app :: "BcdID \<Rightarrow> ('q, 's, 'u) agent \<Rightarrow> (AppState \<Rightarrow> ('q, 's, 'u) agent res option)
    \<Rightarrow> ('q, 's, 'u) agent res option" where
  "with_app bid g k = ro_assert (hashApp g (app_id bid) \<noteq> None)
     (ro_deref (app_heap g (the (hashApp g (app_id bid)))) k)"

definition svc_c2i :: "'q queue_ops \<Rightarrow> svc_env \<Rightarrow> timeval \<Rightarrow> MsgHdr \<Rightarrow> ('q, 's, 'u) agent
    \<Rightarrow> ('q, 's, 'u) agent res option" where
  "svc_c2i Q v now hdr g =
     (let bid = mh_bcd_id hdr
      in if mh_type hdr = MSG_C2I_PULL_REJECT then
           with_app bid g (\<lambda>app. notify_readers Q v now app bid bid (readRpl_bytes REPLY_ALTER 0 0 0) g)
         else if mh_type hdr = MSG_C2I_SEQ_ALL \<or> mh_type hdr = MSG_C2I_SEQ_ZERO then
           ro_deref (hashRecver g bid) (\<lambda>rv. with_app bid g (\<lambda>app.
             let rv = (if mh_type hdr = MSG_C2I_SEQ_ALL then fst (recverState_stats rv) else rv);
                 g = g\<lparr>hashRecver := (hashRecver g)(bid \<mapsto> rv)\<rparr>
             in notify_readers Q v now app bid (r_bcd_id rv) (recver_rpl rv) g))
         else Some (Inr g))"

definition svc_c_send2i :: "timeval \<Rightarrow> MsgHdr \<Rightarrow> ('q, 's, 'u) agent \<Rightarrow> ('q, 's, 'u) agent res option" where
  "svc_c_send2i now hdr g =
     (let bid = mh_bcd_id hdr
      in if mh_type hdr = MSG_C_SEND2I_SEQ_ALL then
           with_app bid g (\<lambda>_. ro_assert (hashMulticast g bid \<noteq> None)
             (let m = the (hashMulticast g bid);
                  m = (if \<not> is_path_released m
                       then m\<lparr>m_tv := (m_tv m)\<lparr>tv_path_release := now, tv_last_data := now\<rparr>\<rparr> else m);
                  m = fst (multicastState_stats m)
              in Some (Inr (g\<lparr>hashMulticast := (hashMulticast g)(bid \<mapsto> m)\<rparr>))))
         else Some (Inr g))"

subsection \<open>The pass\<close>

definition svc_msg :: "'q queue_ops \<Rightarrow> ('s, nat) skiplist_ops \<Rightarrow> ('u, BcdID) skiplist_ops \<Rightarrow> config \<Rightarrow> svc_env
    \<Rightarrow> timeval \<Rightarrow> nat \<Rightarrow> MsgHdr \<Rightarrow> byte list \<Rightarrow> ('q, 's, 'u) agent \<Rightarrow> ('q, 's, 'u) agent res option" where
  "svc_msg Q S U cf v now a hdr buf g = (case fds_heap g a of None \<Rightarrow> Some (Inl UseAfterFree)
     | Some f \<Rightarrow> (case fd_type f of
         IFACE_UDS \<Rightarrow> (case state_p f of LocalSock ls \<Rightarrow> svc_request Q S U cf v now a ls hdr buf g
           | _ \<Rightarrow> Some (Inl NullDeref))
       | PIPE_C2I_UDS \<Rightarrow> svc_c2i Q v now hdr g
       | PIPE_C_SEND2I_UDS \<Rightarrow> svc_c_send2i now hdr g
       | _ \<Rightarrow> Some (Inr g)))"

definition svc_handle :: "'q queue_ops \<Rightarrow> ('s, nat) skiplist_ops \<Rightarrow> ('u, BcdID) skiplist_ops \<Rightarrow> config \<Rightarrow> svc_env
    \<Rightarrow> timeval \<Rightarrow> nat \<Rightarrow> rbuf \<Rightarrow> ('q, 's, 'u) agent \<Rightarrow> (bool \<times> ('q, 's, 'u) agent) res option" where
  "svc_handle Q S U cf v now a r g =
     ro_bind (svc_msg Q S U cf v now a (mh r) (recv_buf r) g) (\<lambda>g. Some (Inr (True, g)))"

definition trash :: "timeval \<Rightarrow> nat \<Rightarrow> 'q FdState \<Rightarrow> ('q, 's, 'u) agent \<Rightarrow> ('q, 's, 'u) agent res option" where
  "trash now a f g = Some (rbind (trashFdState now f) (\<lambda>f. Inr (g\<lparr>fds_heap := (fds_heap g)(a \<mapsto> f)\<rparr>)))"

definition svc_receive :: "'q queue_ops \<Rightarrow> ('s, nat) skiplist_ops \<Rightarrow> ('u, BcdID) skiplist_ops \<Rightarrow> config \<Rightarrow> svc_env
    \<Rightarrow> timeval \<Rightarrow> nat \<Rightarrow> recv_result \<Rightarrow> ('q, 's, 'u) agent \<Rightarrow> ('q, 's, 'u) agent res option" where
  "svc_receive Q S U cf v now a res g = (case fds_heap g a of None \<Rightarrow> Some (Inl UseAfterFree)
     | Some f \<Rightarrow> (case recv_into (fd_rbuf f) res of
         Got c \<Rightarrow> ro_bind (frame_loop ready_fd (svc_handle Q S U cf v now a) (frame_read (fd_rbuf f) c)
               (take_pipe (fd_type f) (length c) g))
             (\<lambda>(r, g). case fds_heap g a of None \<Rightarrow> Some (Inl UseAfterFree)
                | Some f \<Rightarrow> Some (Inr (g\<lparr>fds_heap := (fds_heap g)(a \<mapsto> f\<lparr>fd_rbuf := r\<rparr>)\<rparr>)))
       | Shut \<Rightarrow> (case state_p f of LocalSock _ \<Rightarrow> trash now a f g | _ \<Rightarrow> Some (Inl NullDeref))
       | Again \<Rightarrow> Some (Inr g)
       | Failed \<Rightarrow> trash now a f g))"

text \<open>One connection after \<^verbatim>\<open>select\<close>; a trashed one is deleted after its time.\<close>

definition svc_socket :: "'q queue_ops \<Rightarrow> ('s, nat) skiplist_ops \<Rightarrow> ('u, BcdID) skiplist_ops \<Rightarrow> config \<Rightarrow> svc_env
    \<Rightarrow> io_env \<Rightarrow> int set \<Rightarrow> nat \<Rightarrow> ('q, 's, 'u) agent \<Rightarrow> ('q, 's, 'u) agent res option" where
  "svc_socket Q S U cf v e ws a g = (case fds_heap g a of None \<Rightarrow> Some (Inl UseAfterFree)
     | Some f \<Rightarrow>
        if \<not> is_trashed f then
          ro_bind
            (if fd f \<in> ws \<and> fd f \<in> io_wr e
             then ro_deref (fd_sendQueue_p f) (\<lambda>q.
                    ro_bind (sendMsg Q (io_send e (fd f)) 0 q (fd_remainMsgToken_p f) [])
                      (\<lambda>(q, tok, _). Some (Inr (g\<lparr>fds_heap := (fds_heap g)
                         (a \<mapsto> f\<lparr>fd_sendQueue_p := Some q, fd_remainMsgToken_p := tok\<rparr>)\<rparr>))))
             else Some (Inr g))
            (\<lambda>g. case source_of e f g of None \<Rightarrow> Some (Inr g)
               | Some res \<Rightarrow> svc_receive Q S U cf v (io_now e) a res g)
        else if tv_to_us (timersub (io_now e) (tv_trashed f)) > FDSTATE_DELETE_TIMEOUT_MSEC * 1000
        then ro_assert (fd_type f = IFACE_UDS) (deleteFdState Q a (g\<lparr>lsockList := remove1 a (lsockList g)\<rparr>))
        else Some (Inr g))"

definition svc_accept :: "'q queue_ops \<Rightarrow> io_env \<Rightarrow> ('q, 's, 'u) agent \<Rightarrow> ('q, 's, 'u) agent res" where
  "svc_accept Q e g = (case io_accept e of None \<Rightarrow> Inr g | Some None \<Rightarrow> Inl Aborted
     | Some (Some (sock, _)) \<Rightarrow> (let a = next_addr g
         in Inr (g\<lparr>fds_heap := (fds_heap g)(a \<mapsto> createLocalSocketState Q sock (localSocketID g)), next_addr := a + 1,
              localSocketID := localSocketID g + 1, lsockList := lsockList g @ [a]\<rparr>)))"

text \<open>The connections watched for writing: those that are not trashed.\<close>

definition svc_write_set :: "'q queue_ops \<Rightarrow> ('q, 's, 'u) agent \<Rightarrow> int set" where
  "svc_write_set Q g = write_set Q (fds_heap g)
     (filter (\<lambda>a. case fds_heap g a of None \<Rightarrow> False | Some f \<Rightarrow> \<not> is_trashed f) (lsockList g))"

definition thread_domainSocket :: "'q queue_ops \<Rightarrow> ('s, nat) skiplist_ops \<Rightarrow> ('u, BcdID) skiplist_ops \<Rightarrow> config
    \<Rightarrow> svc_env \<Rightarrow> io_env \<Rightarrow> ('q, 's, 'u) agent \<Rightarrow> ('q, 's, 'u) agent res option" where
  "thread_domainSocket Q S U cf v e g =
     (let ws = svc_write_set Q g
      in ro_bind (Some (release_path cf (io_now e) g)) (\<lambda>g.
         ro_bind (Some (request_path U cf (io_now e) (sv_reply v) g)) (\<lambda>g.
           case io_select e of ReadyFds \<Rightarrow>
               ro_bind (Some (svc_accept Q e g)) (\<lambda>g. ro_fold (svc_socket Q S U cf v e ws) (lsockList g) g)
           | _ \<Rightarrow> Some (Inr g))))"

subsection \<open>Properties: the queue of pushes\<close>

text \<open>The pushes that wait for a path, and the one that has it.\<close>

definition pushes :: "('u \<Rightarrow> BcdID list) \<Rightarrow> ('q, 's, 'u) agent \<Rightarrow> BcdID multiset" where
  "pushes elems g = mset (elems (queuePush_p g)) + (case activeMulticast_p g of None \<Rightarrow> {#} | Some b \<Rightarrow> {#b#})"

lemma insert_mset:
  assumes "skiplist U elems"
  shows "\<exists>u. sk_insert U x s = Some u \<and> mset (elems u) = add_mset x (mset (elems s))"
  using skiplist.insert_law [OF assms, of x s] by auto

definition example_config2 :: config where
  "example_config2 = \<lparr>hostinaddress_ctrl = 0, hostinaddress_data = 0, hostethhdr_data = [], data_payload_len = 2,
     seq_zero_notify = False, connect_controller = True, first_first_seq_fullrate = True, attempt_scale = 2, nm_burst = 4,
     cf_rate_type = RATE_GBPS, rate_f = 1, ctrl_nic_name = []\<rparr>"

text \<open>What a pass over the queue does when the head \<open>b\<close> with the multicast \<open>m\<close> is due, \<open>us\<close> waits behind it, and the controller (if there
  is one) answers \<open>cmd\<close>: the new state against the old one.\<close>

definition push_served :: "('u \<Rightarrow> BcdID list) \<Rightarrow> config \<Rightarrow> timeval \<Rightarrow> push_cmd \<times> int \<Rightarrow> BcdID \<Rightarrow> BcdID list \<Rightarrow> 's MulticastState
    \<Rightarrow> ('q, 's, 'u) agent \<Rightarrow> ('q, 's, 'u) agent \<Rightarrow> bool" where
  "push_served elems cf now reply b us m g g' \<longleftrightarrow> (\<exists>m'. hashMulticast g' = (hashMulticast g)(b \<mapsto> m')
     \<and> controller_xid m' = (if connect_controller cf then snd reply else 0)
     \<and> tv_path_request (m_tv m') = (if connect_controller cf then now else tv_path_request (m_tv m))
     \<and> (if \<not> connect_controller cf \<or> fst reply = CMD_PUSH
        then activeMulticast_p g' = Some b \<and> elems (queuePush_p g') = us
           \<and> bcd_state m' = BCDSTATE_INITIATED \<and> tv_path_approve (m_tv m') = now \<and> tv_push m' = tv_push m
        else activeMulticast_p g' = None \<and> bcd_state m' = bcd_state m \<and> tv_path_approve (m_tv m') = tv_path_approve (m_tv m)
           \<and> (if fst reply = CMD_OTHER then elems (queuePush_p g') = us \<and> tv_push m' = tv_push m
              else (\<exists>xs ys. us = xs @ ys \<and> elems (queuePush_p g') = xs @ b # ys)
                 \<and> tv_push m' = Timeval (tv_sec (tv_push m) + 1) (tv_usec (tv_push m)))))"

lemma request_path_rest:
  assumes U: "skiplist U elems" and "activeMulticast_p g \<noteq> None \<or> elems (queuePush_p g) = []"
  shows "request_path U cf now reply g = Inr g"
  using assms(2) skiplist.peek_law [OF U, of "queuePush_p g"] by (auto simp: request_path_def)

lemma request_path_due:
  assumes U: "skiplist U elems" and "activeMulticast_p g = None" "elems (queuePush_p g) = b # us" "hashMulticast g b = Some m"
    "timercmp_lt (tv_push m) now"
  shows "\<exists>g'. request_path U cf now reply g = Inr g' \<and> push_served elems cf now reply b us m g g'"
proof -
  have pk: "sk_peek U (queuePush_p g) = Some b" using skiplist.peek_law [OF U, of "queuePush_p g"] assms(3) by simp
  obtain u1 where u1: "sk_pop U (queuePush_p g) = (u1, Some b)" "elems u1 = us" using skiplist.pop_law [OF U assms(3)] by blast
  obtain u2 xs ys where u2: "sk_insert U b u1 = Some u2" "us = xs @ ys" "elems u2 = xs @ b # ys"
    using skiplist.insert_law [OF U, of b u1] u1(2) by blast
  have ins: "\<exists>xs' ys'. xs @ ys = xs' @ ys' \<and> xs @ b # ys = xs' @ b # ys'" by blast
  let ?m = "if connect_controller cf then m\<lparr>m_tv := (m_tv m)\<lparr>tv_path_request := now\<rparr>\<rparr> else m"
  let ?c = "if connect_controller cf then reply else (CMD_PUSH, 0)"
  have "request_path U cf now reply g = Inr (push_reply U now (fst ?c) b (?m\<lparr>controller_xid := snd ?c\<rparr>) (g\<lparr>queuePush_p := u1\<rparr>))"
    using assms(2,4,5) pk u1(1) by (cases reply) (simp add: request_path_def Let_def)
  moreover have "push_served elems cf now reply b us m g (push_reply U now (fst ?c) b (?m\<lparr>controller_xid := snd ?c\<rparr>) (g\<lparr>queuePush_p := u1\<rparr>))"
    using assms(2) u1(2) u2 ins
    by (cases "connect_controller cf"; cases "fst reply") (simp_all add: push_served_def push_reply_def, (rule exI, rule conjI [OF refl], simp)+)
  ultimately show ?thesis by blast
qed

lemma push_served_keeps:
  assumes "push_served elems cf now reply b us m g g'" "activeMulticast_p g = None" "elems (queuePush_p g) = b # us"
    and "connect_controller cf \<longrightarrow> fst reply \<noteq> CMD_OTHER"
  shows "pushes elems g' = pushes elems g"
  using assms by (auto simp: push_served_def pushes_def split: if_splits)

text \<open>C36: Pushes are served one at a time, in the order of the queue, and none is lost.  While a multicast has the path, or none waits,
  \<^verbatim>\<open>request_path\<close> does nothing.  Otherwise it looks at the head of the queue only, and does nothing while that push is not due; a head that
  is no known multicast is a null pointer.  A push that is due is taken out and keeps the number that the controller gave it.  When
  the controller grants it, or there is no controller, it has the path: it becomes active in state initiated, approved now, and the
  others wait in their order.  When the controller postpones or denies it, it waits in the queue again, due one second later than
  before, its state unchanged, and no multicast has the path.  In all these cases the pushes that wait or are active are the same
  as before; only an answer that is none of the three takes the push out without giving it the path.  No other multicast changes.\<close>

theorem request_path_serves:
  assumes U: "skiplist U elems"
  shows "(activeMulticast_p g \<noteq> None \<or> elems (queuePush_p g) = [] \<longrightarrow> request_path U cf now (cmd, xid) g = Inr g)
    \<and> (\<forall>b us. activeMulticast_p g = None \<and> elems (queuePush_p g) = b # us \<longrightarrow>
         (case hashMulticast g b of None \<Rightarrow> request_path U cf now (cmd, xid) g = Inl NullDeref
          | Some m \<Rightarrow>
              if timercmp_lt (tv_push m) now
              then \<exists>g'. request_path U cf now (cmd, xid) g = Inr g' \<and> push_served elems cf now (cmd, xid) b us m g g'
              else request_path U cf now (cmd, xid) g = Inr g))
    \<and> (\<forall>g'. request_path U cf now (cmd, xid) g = Inr g' \<longrightarrow>
         ((connect_controller cf \<longrightarrow> cmd \<noteq> CMD_OTHER) \<longrightarrow> pushes elems g' = pushes elems g)
       \<and> (activeMulticast_p g' \<noteq> activeMulticast_p g \<longrightarrow> (\<exists>b us m. elems (queuePush_p g) = b # us \<and> activeMulticast_p g = None
            \<and> activeMulticast_p g' = Some b \<and> hashMulticast g' b = Some m \<and> bcd_state m = BCDSTATE_INITIATED
            \<and> elems (queuePush_p g') = us))
       \<and> (\<forall>b. hashMulticast g' b \<noteq> hashMulticast g b \<longrightarrow> (\<exists>us. elems (queuePush_p g) = b # us)))"
proof (cases "activeMulticast_p g \<noteq> None \<or> elems (queuePush_p g) = []")
  case True
  then show ?thesis using request_path_rest [OF U True, of cf now "(cmd, xid)"] by auto
next
  case False
  then obtain b us where q: "activeMulticast_p g = None" "elems (queuePush_p g) = b # us" by (auto simp: neq_Nil_conv)
  have pk: "sk_peek U (queuePush_p g) = Some b" using skiplist.peek_law [OF U, of "queuePush_p g"] q(2) by simp
  show ?thesis
  proof (cases "hashMulticast g b")
    case None
    then have "request_path U cf now (cmd, xid) g = Inl NullDeref" using q(1) pk by (simp add: request_path_def)
    then show ?thesis using q None by simp
  next
    case m: (Some m)
    show ?thesis
    proof (cases "timercmp_lt (tv_push m) now")
      case no: False
      then have "request_path U cf now (cmd, xid) g = Inr g" using q(1) pk m by (simp add: request_path_def)
      then show ?thesis using q m no by simp
    next
      case True
      obtain g' where g': "request_path U cf now (cmd, xid) g = Inr g'" "push_served elems cf now (cmd, xid) b us m g g'"
        using request_path_due [OF U q m True] by blast
      have "activeMulticast_p g' \<noteq> activeMulticast_p g \<longrightarrow> (\<exists>m. activeMulticast_p g' = Some b \<and> hashMulticast g' b = Some m
          \<and> bcd_state m = BCDSTATE_INITIATED \<and> elems (queuePush_p g') = us)" "\<forall>c. hashMulticast g' c \<noteq> hashMulticast g c \<longrightarrow> c = b"
        using g'(2) q(1) by (auto simp: push_served_def split: if_splits)
      then show ?thesis using push_served_keeps [OF g'(2) q] g' q m True by simp
    qed
  qed
qed

definition example_pushes :: "(nat, nat list, BcdID list) agent" where
  "example_pushes = (initSharedDataStructures (cmp_skiplist (\<lambda>_ _. 1)))
     \<lparr>queuePush_p := [zero_id], hashMulticast := [zero_id \<mapsto> zero_multicast []]\<rparr>"

theorem request_path_serves_witness:
  "(\<exists>g'. request_path (cmp_skiplist (\<lambda>_ _. 1)) example_config2 (Timeval 5 0) (CMD_PUSH, 7) example_pushes = Inr g'
      \<and> activeMulticast_p g' = Some zero_id \<and> queuePush_p g' = [] \<and> pushes (\<lambda>s. s) g' = {#zero_id#})
   \<and> (\<exists>g' m'. request_path (cmp_skiplist (\<lambda>_ _. 1)) example_config2 (Timeval 5 0) (CMD_POSTPONE, 7) example_pushes = Inr g'
      \<and> activeMulticast_p g' = None \<and> queuePush_p g' = [zero_id] \<and> hashMulticast g' zero_id = Some m' \<and> tv_push m' = Timeval 1 0)"
proof -
  let ?m = "zero_multicast [] :: nat list MulticastState"
  have e: "activeMulticast_p example_pushes = None" "queuePush_p example_pushes = zero_id # []" "hashMulticast example_pushes zero_id = Some ?m"
    "timercmp_lt (tv_push ?m) (Timeval 5 0)" "tv_push ?m = Timeval 0 0" "connect_controller example_config2"
    by (simp_all add: example_pushes_def initSharedDataStructures_def zero_multicast_def TV0_def timercmp_lt_def example_config2_def)
  have r: "\<exists>g'. request_path (cmp_skiplist (\<lambda>_ _. 1)) example_config2 (Timeval 5 0) (cmd, xid) example_pushes = Inr g'
      \<and> push_served (\<lambda>s. s) example_config2 (Timeval 5 0) (cmd, xid) zero_id [] ?m example_pushes g'
      \<and> (cmd \<noteq> CMD_OTHER \<longrightarrow> pushes (\<lambda>s. s) g' = pushes (\<lambda>s. s) example_pushes)" for cmd xid
  proof -
    note t = request_path_serves [OF sl.skiplist_axioms [of "\<lambda>_ _. 1"], of example_pushes example_config2 "Timeval 5 0" cmd xid]
    obtain g' where g': "request_path (cmp_skiplist (\<lambda>_ _. 1)) example_config2 (Timeval 5 0) (cmd, xid) example_pushes = Inr g'"
      "push_served (\<lambda>s. s) example_config2 (Timeval 5 0) (cmd, xid) zero_id [] ?m example_pushes g'"
      using conjunct1 [OF conjunct2 [OF t], rule_format, OF conjI [OF e(1,2)], unfolded e(3) option.case if_P [OF e(4)]] by blast
    then show ?thesis using conjunct2 [OF conjunct2 [OF t], rule_format, OF g'(1)] by blast
  qed
  have p: "pushes (\<lambda>s. s) example_pushes = {#zero_id#}" by (simp add: pushes_def e)
  show ?thesis using r [of CMD_PUSH 7] r [of CMD_POSTPONE 7] by (auto simp: push_served_def e p)
qed

subsection \<open>Properties: the start of a push\<close>

lemma upds_upt_nth:
  "distinct ks \<Longrightarrow> i < length ks \<Longrightarrow> (h(ks [\<mapsto>] [n..<n + length ks])) (ks ! i) = Some (n + i)"
proof (induction ks arbitrary: h n i)
  case Nil
  then show ?case by simp
next
  case (Cons k ks)
  have e: "h(k # ks [\<mapsto>] [n..<n + length (k # ks)]) = (h(k \<mapsto> n))(ks [\<mapsto>] [Suc n..<Suc n + length ks])"
    by (simp add: upt_conv_Cons del: upt_Suc)
  show ?case
  proof (cases i)
    case 0
    then show ?thesis unfolding e using Cons.prems(1) by (simp add: map_upds_apply_nontin)
  next
    case (Suc j)
    have "((h(k \<mapsto> n))(ks [\<mapsto>] [Suc n..<Suc n + length ks])) (ks ! j) = Some (Suc n + j)"
      using Cons.prems Suc by (intro Cons.IH) simp_all
    then show ?thesis unfolding e Suc by (simp del: upt_Suc)
  qed
qed

text \<open>The senders that a list of slaves adds.\<close>

definition new_senders :: "in_addr \<Rightarrow> timeval \<Rightarrow> BcdID \<Rightarrow> nat \<Rightarrow> in_addr list \<Rightarrow> SenderState list" where
  "new_senders h now b n ks = map (\<lambda>(i, k). createSenderState h (int i) k b None now) (enumerate n ks)"

lemma new_senders_length [simp]: "length (new_senders h now b n ks) = length ks"
  by (simp add: new_senders_def)

lemma new_senders_nth:
  "i < length ks \<Longrightarrow> new_senders h now b n ks ! i = createSenderState h (int (n + i)) (ks ! i) b None now"
  by (simp add: new_senders_def nth_enumerate_eq)

lemma add_sender_fields:
  "sender_heap (add_sender h now k m) = sender_heap m @ new_senders h now (m_bcd_id m) (unat (n_init m)) [k]"
  "n_init (add_sender h now k m) = n_init m + 1"
  "sender_addr_hash_p (add_sender h now k m) = (sender_addr_hash_p m)(k \<mapsto> length (sender_heap m))"
  "m_bcd_id (add_sender h now k m) = m_bcd_id m" "n_first_seq (add_sender h now k m) = n_first_seq m"
  "n_all_done (add_sender h now k m) = n_all_done m" "seq_end (add_sender h now k m) = seq_end m"
  "bcd_state (add_sender h now k m) = bcd_state m" "is_tv_last_data (add_sender h now k m) = is_tv_last_data m"
  "n_packet_total (add_sender h now k m) = n_packet_total m"
  by (simp_all add: add_sender_def Let_def new_senders_def)

lemma add_senders:
  fixes m :: "'s MulticastState" and h :: in_addr and now :: timeval and ks :: "in_addr list"
  assumes "unat (n_init m) = length (sender_heap m)" "length (sender_heap m) + length ks < 65536"
  defines "m' \<equiv> fold (add_sender h now) ks m"
  shows "unat (n_init m') = length (sender_heap m) + length ks
    \<and> sender_heap m' = sender_heap m @ new_senders h now (m_bcd_id m) (length (sender_heap m)) ks
    \<and> sender_addr_hash_p m'
        = (sender_addr_hash_p m)(ks [\<mapsto>] [length (sender_heap m)..<length (sender_heap m) + length ks])
    \<and> m_bcd_id m' = m_bcd_id m \<and> n_first_seq m' = n_first_seq m \<and> n_all_done m' = n_all_done m
    \<and> seq_end m' = seq_end m \<and> bcd_state m' = bcd_state m
    \<and> is_tv_last_data m' = is_tv_last_data m \<and> n_packet_total m' = n_packet_total m"
  using assms(1,2) unfolding m'_def
proof (induction ks arbitrary: m)
  case Nil
  then show ?case by (simp add: new_senders_def)
next
  case (Cons k ks)
  let ?m = "add_sender h now k m"
  have n1: "unat (n_init ?m) = length (sender_heap ?m)" "length (sender_heap ?m) = Suc (length (sender_heap m))"
    using Cons.prems by (simp_all add: add_sender_fields unat_word_ariths)
  have n2: "length (sender_heap ?m) + length ks < 65536" using Cons.prems(2) n1(2) by simp
  have c: "new_senders h now (m_bcd_id m) (length (sender_heap m)) (k # ks)
      = new_senders h now (m_bcd_id m) (unat (n_init m)) [k] @ new_senders h now (m_bcd_id m) (Suc (length (sender_heap m))) ks"
    using Cons.prems(1) by (simp add: new_senders_def)
  have u: "h'(k # ks [\<mapsto>] [n..<n + length (k # ks)]) = (h'(k \<mapsto> n))(ks [\<mapsto>] [Suc n..<Suc n + length ks])"
    for h' :: "in_addr \<rightharpoonup> nat" and n by (simp add: upt_conv_Cons del: upt_Suc)
  have e: "fold (add_sender h now) (k # ks) m = fold (add_sender h now) ks ?m" by simp
  show ?case unfolding e c u
    using Cons.IH [OF n1(1) n2, unfolded n1(2)] unfolding add_sender_fields by (simp del: upt_Suc fun_upd_apply)
qed

text \<open>C37: \<^verbatim>\<open>MSG_PSH_REQ\<close> on a new multicast, with slaves that are all different (one that is named twice would be counted twice
  and have one sender), sets up the bookkeeping that the other threads rely on.  Every slave of the request gets a sender of its own, found under its address; the number of receivers is the number of senders,
  none of which has reported yet; the array for the ended ones has room for all of them; and the transmission
  starts with an unknown end.\<close>

theorem start_push_senders:
  fixes m :: "'s MulticastState" and h :: in_addr and now :: timeval
  assumes fresh: "sender_heap m = []" "n_init m = 0"
    and F: "0 \<le> fan_out_effective psh" "nat (fan_out_effective psh) \<le> length (slaves psh)" "fan_out_effective psh < 65536"
    and d: "distinct (take (nat (fan_out_effective psh)) (slaves psh))"
  defines "m' \<equiv> start_push h now psh m"
  shows "int (length (sender_heap m')) = fan_out_effective psh \<and> int (unat (n_init m')) = fan_out_effective psh
    \<and> int (length (sender_end_seq_arr_p m')) = fan_out_effective psh
    \<and> seq_end m' = SEQNUM_MAX \<and> n_all_done m' = n_all_done m \<and> bcd_state m' = bcd_state m
    \<and> (\<forall>i < nat (fan_out_effective psh).
          sender_addr_hash_p m' (slaves psh ! i) = Some i \<and> skey (sender_heap m' ! i) = slaves psh ! i
        \<and> s_id (sender_heap m' ! i) = int i \<and> \<not> has_all_done (sender_heap m' ! i))"
proof -
  let ?n = "nat (fan_out_effective psh)"
  define m1 where "m1 = multicastState_reset now (m\<lparr>m_msgPshQ := psh\<rparr>)"
  have m1: "sender_heap m1 = []" "n_init m1 = 0" "seq_end m1 = SEQNUM_MAX" "n_all_done m1 = n_all_done m"
    "bcd_state m1 = bcd_state m" "m_bcd_id m1 = m_bcd_id m"
    using fresh by (simp_all add: m1_def multicastState_reset_def Let_def)
  have l: "length (take ?n (slaves psh)) = ?n" using F(2) by simp
  have p: "unat (n_init m1) = length (sender_heap m1)" "length (sender_heap m1) + length (take ?n (slaves psh)) < 65536"
    using m1 F l by simp_all
  note a = add_senders [OF p, where h = h and now = now, unfolded m1 l]
  have m': "m' = (fold (add_sender h now) (take ?n (slaves psh)) m1)\<lparr>sender_end_seq_arr_p := replicate ?n None, tv_push := now\<rparr>"
    by (simp add: m'_def start_push_def m1_def Let_def)
  have hash: "i < ?n \<Longrightarrow> ((sender_addr_hash_p m1)(take ?n (slaves psh) [\<mapsto>] [0..<?n])) (slaves psh ! i) = Some i" for i
    using upds_upt_nth [OF d, of i "sender_addr_hash_p m1" 0] l by simp
  have heap: "i < ?n \<Longrightarrow> new_senders h now b 0 (take ?n (slaves psh)) ! i = createSenderState h (int i) (slaves psh ! i) b None now"
    for i b using new_senders_nth [of i "take ?n (slaves psh)" h now b 0] l by simp
  show ?thesis
    unfolding m' using a F(1) m1 l by (simp add: hash heap) (simp add: createSenderState_def)
qed

theorem start_push_senders_witness:
  "\<exists>m'. start_push 0 TV0 \<lparr>fan_out = 2, fan_out_effective = 2, slaves = [7, 9]\<rparr> (zero_multicast [] :: nat list MulticastState) = m'
    \<and> sender_addr_hash_p m' 9 = Some 1 \<and> length (sender_end_seq_arr_p m') = 2"
proof -
  let ?p = "\<lparr>fan_out = 2, fan_out_effective = 2, slaves = [7, 9]\<rparr> :: MsgPshQ"
  have "sender_heap (zero_multicast [] :: nat list MulticastState) = []" "n_init (zero_multicast [] :: nat list MulticastState) = 0"
    by (simp_all add: zero_multicast_def)
  note t = start_push_senders [OF this, where psh = ?p and h = 0 and now = TV0]
  show ?thesis using t by (simp add: less_Suc_eq numeral_2_eq_2)
qed

end
