(* ===== verification/DataChan.thy ===== *)
theory DataChan
  imports Agent Checksum
begin

text \<open>
  The data channel (\<^verbatim>\<open>thread_data.c\<close>): packets between the NIC and the host's stack, packets of the fast path to
  their receivers, and packets of the active multicast into the transmit ring at its rate.  Netmap is outside the
  repository: its ring functions are the parameter \<open>N\<close> with the contract \<open>netmap\<close>, and what the kernel does to the
  rings in \<^verbatim>\<open>poll\<close> and \<^verbatim>\<open>ioctl\<close> is a function on them.  There is one pair of rings, as the code asserts.
\<close>

subsection \<open>Rings\<close>

record slot =
  sl_buf :: nat
  sl_len :: u16
  sl_flags :: u16

record ring =
  num_slots :: nat
  rg_head :: nat
  rg_cur :: nat
  rg_tail :: nat
  rg_slot :: "slot list"

record nm_ops =
  nm_ring_next :: "ring \<Rightarrow> nat \<Rightarrow> nat"
  nm_ring_space :: "ring \<Rightarrow> nat"
  nm_ring_empty :: "ring \<Rightarrow> bool"
  ns_buf_changed :: u16

locale netmap =
  fixes N :: nm_ops
  assumes next_law: "i < num_slots r \<Longrightarrow> nm_ring_next N r i = (if i + 1 = num_slots r then 0 else i + 1)"
    and space_law: "rg_cur r < num_slots r \<Longrightarrow> rg_tail r < num_slots r \<Longrightarrow>
      nm_ring_space N r = (if rg_cur r \<le> rg_tail r then rg_tail r - rg_cur r
        else rg_tail r + num_slots r - rg_cur r)"
    and empty_law: "nm_ring_empty N r \<longleftrightarrow> rg_cur r = rg_tail r"

definition list_netmap :: nm_ops where
  "list_netmap = \<lparr>nm_ring_next = (\<lambda>r i. if i + 1 = num_slots r then 0 else i + 1),
     nm_ring_space = (\<lambda>r. if rg_cur r \<le> rg_tail r then rg_tail r - rg_cur r else rg_tail r + num_slots r - rg_cur r),
     nm_ring_empty = (\<lambda>r. rg_cur r = rg_tail r), ns_buf_changed = 1\<rparr>"

interpretation ln: netmap list_netmap
  by unfold_locales (simp_all add: list_netmap_def)

subsection \<open>Packets to receivers\<close>

definition NM_H2N :: u8 where [const_defs]: "NM_H2N = 0"
definition NM_N2H :: u8 where [const_defs]: "NM_N2H = 1"
definition ETH_P_IP :: u16 where [const_defs]: "ETH_P_IP = 0x0800"

text \<open>\<^verbatim>\<open>inet_ntoa\<close>: an address is stored in network order.\<close>

definition inet_ntoa :: "in_addr \<Rightarrow> string" where
  "inet_ntoa a = (let b = map unat (le_enc 4 a)
     in fmt_u (b ! 0) @ ''.'' @ fmt_u (b ! 1) @ ''.'' @ fmt_u (b ! 2) @ ''.'' @ fmt_u (b ! 3))"

definition is_fast_packet :: "u8 \<Rightarrow> byte list \<Rightarrow> bool" where
  "is_fast_packet dirc p \<longleftrightarrow>
     p ! (ETH_HLEN + 9) = IPPROTO_UDP
   \<and> ntohs (le_dec (peek (ETH_HLEN + IP4_HDRLEN + 2) 2 p)) = word_of_int DATA_DST_PORT
   \<and> ntohs (le_dec (peek 12 2 p)) = ETH_P_IP
   \<and> dirc = NM_N2H"

text \<open>A packet for an unknown receiver of a known application makes one, when the connection to the
  packet's source is known; \<open>opens\<close> are the results of the two \<^verbatim>\<open>fopen\<close>.\<close>

definition data_recver :: "config \<Rightarrow> timeval \<Rightarrow> bool \<times> bool \<Rightarrow> BcdID \<Rightarrow> byte list \<Rightarrow> ('q, 's, 'u) agent
    \<Rightarrow> ('q, 's, 'u) agent res" where
  "data_recver cf now opens bid p g =
     (if hashRecver g bid = None \<and> hashApp g (app_id bid) \<noteq> None then
        rbind (find_rsock (fds_heap g) (inet_ntoa (le_dec (peek (ETH_HLEN + 12) 4 p))) (rsockList g)) (\<lambda>found.
          case found of None \<Rightarrow> Inr g
          | Some a \<Rightarrow>
             (let there = existAppDir (dirs g) (app_id bid);
                  g = (if there \<and> fst opens then g\<lparr>files := (files g)(BcdIdtoFilename bid \<mapsto> [])\<rparr> else g)
              in case createRecverState (data_payload_len cf) there (fst opens) (snd opens) bid of None \<Rightarrow> Inr g
                 | Some rv \<Rightarrow> Inr (g\<lparr>hashRecver := (hashRecver g)
                     (bid \<mapsto> startFathPath now (rv\<lparr>r_fds_p := Some a\<rparr>))\<rparr>)))
      else Inr g)"

definition data_packet :: "config \<Rightarrow> timeval \<Rightarrow> bool \<times> bool \<Rightarrow> byte list \<Rightarrow> ('q, 's, 'u) agent
    \<Rightarrow> ('q, 's, 'u) agent res" where
  "data_packet cf now opens p g =
     (let dh = parseDataHdr p DATA_HDR_OFFSET; bid = dh_bcd_id dh
      in rbind (data_recver cf now opens bid p g) (\<lambda>g.
           case hashRecver g bid of None \<Rightarrow> Inr g
           | Some rv \<Rightarrow>
              if r_fds_p rv = None then Inr g
              else rbind (fast_path now rv (file_of g (r_bcd_filename rv)) p dh) (\<lambda>(rv, file, out).
                Inr (put_file (r_bcd_filename rv) file
                  (g\<lparr>hashRecver := (hashRecver g)(bid \<mapsto> rv), pipe_n2c := pipe_n2c g @ out\<rparr>)))))"

subsection \<open>Moving packets\<close>

text \<open>Handing a buffer over: the slots swap their buffers.\<close>

definition swap_slots :: "nm_ops \<Rightarrow> slot \<Rightarrow> slot \<Rightarrow> slot \<times> slot" where
  "swap_slots N rs ts = (rs\<lparr>sl_buf := sl_buf ts, sl_flags := sl_flags rs OR ns_buf_changed N\<rparr>,
     ts\<lparr>sl_len := sl_len rs, sl_buf := sl_buf rs, sl_flags := sl_flags ts OR ns_buf_changed N\<rparr>)"

text \<open>The loop of \<^verbatim>\<open>process_rings\<close> over \<open>mi\<close> packets: \<open>j\<close> and \<open>k\<close> are the positions in the receive and
  the transmit ring, \<open>n\<close> counts the packets handed over.\<close>

primrec process_loop :: "nm_ops \<Rightarrow> config \<Rightarrow> timeval \<Rightarrow> bool \<times> bool \<Rightarrow> (nat \<Rightarrow> byte list) \<Rightarrow> u8 \<Rightarrow> nat
    \<Rightarrow> ring \<times> ring \<times> nat \<times> nat \<times> nat \<times> ('q, 's, 'u) agent
    \<Rightarrow> (ring \<times> ring \<times> nat \<times> nat \<times> nat \<times> ('q, 's, 'u) agent) res" where
  "process_loop N cf now opens bufs dirc 0 st = Inr st"
| "process_loop N cf now opens bufs dirc (Suc mi) st = (case st of (rx, tx, j, k, n, g) \<Rightarrow>
     rbind
       (let p = bufs (sl_buf (rg_slot rx ! j))
        in if is_fast_packet dirc p
           then rbind (data_packet cf now opens p g) (\<lambda>g. Inr (rx, tx, k, n, g))
           else (case swap_slots N (rg_slot rx ! j) (rg_slot tx ! k) of (rs, ts) \<Rightarrow>
             Inr (rx\<lparr>rg_slot := (rg_slot rx)[j := rs]\<rparr>, tx\<lparr>rg_slot := (rg_slot tx)[k := ts]\<rparr>,
                  nm_ring_next N tx k, n + 1, g)))
       (\<lambda>(rx, tx, k, n, g). process_loop N cf now opens bufs dirc mi (rx, tx, nm_ring_next N rx j, k, n, g)))"

definition process_rings :: "nm_ops \<Rightarrow> config \<Rightarrow> timeval \<Rightarrow> bool \<times> bool \<Rightarrow> (nat \<Rightarrow> byte list) \<Rightarrow> nat \<Rightarrow> u8
    \<Rightarrow> ring \<times> ring \<times> ('q, 's, 'u) agent \<Rightarrow> (ring \<times> ring \<times> nat \<times> ('q, 's, 'u) agent) res" where
  "process_rings N cf now opens bufs limit dirc st = (case st of (rx, tx, g) \<Rightarrow>
     (let m = min (min limit (nm_ring_space N rx)) (nm_ring_space N tx)
      in rbind (process_loop N cf now opens bufs dirc m (rx, tx, rg_cur rx, rg_cur tx, 0, g))
           (\<lambda>(rx, tx, j, k, n, g). Inr (rx\<lparr>rg_head := j, rg_cur := j\<rparr>, tx\<lparr>rg_head := k, rg_cur := k\<rparr>, n, g))))"

definition move :: "nm_ops \<Rightarrow> config \<Rightarrow> timeval \<Rightarrow> bool \<times> bool \<Rightarrow> (nat \<Rightarrow> byte list) \<Rightarrow> nat \<Rightarrow> u8
    \<Rightarrow> ring \<times> ring \<times> ('q, 's, 'u) agent \<Rightarrow> (ring \<times> ring \<times> nat \<times> ('q, 's, 'u) agent) res" where
  "move N cf now opens bufs limit dirc st = (case st of (rx, tx, g) \<Rightarrow>
     if nm_ring_empty N rx \<or> nm_ring_empty N tx then Inr (rx, tx, 0, g)
     else process_rings N cf now opens bufs limit dirc (rx, tx, g))"

subsection \<open>The active multicast\<close>

definition mx_ring_empty :: "'s MulticastState option \<Rightarrow> bool" where
  "mx_ring_empty mp \<longleftrightarrow> (case mp of None \<Rightarrow> True | Some m \<Rightarrow> bcd_state m = BCDSTATE_DEAD)"

text \<open>The first attempt runs at a fraction of the rate; the full rate starts with the first sequence
  numbers of the receivers.\<close>

definition am_attempt :: "config \<Rightarrow> timeval \<Rightarrow> 's MulticastState \<Rightarrow> 's MulticastState" where
  "am_attempt cf now m =
     (if bcd_state m = BCDSTATE_INITIATED \<and> n_packet_total m = 0 \<and> n_byte_total m = 0
      then (multicastState_updateRate now m (std_rate_f_delta m / attempt_scale cf))\<lparr>bcd_state := BCDSTATE_ATTEMPT\<rparr>
      else m)"

definition am_fullrate :: "config \<Rightarrow> timeval \<Rightarrow> 's MulticastState \<Rightarrow> 's MulticastState" where
  "am_fullrate cf now m =
     (if bcd_state m = BCDSTATE_ATTEMPT
         \<and> (first_first_seq_fullrate cf
              \<and> (is_distinct_rack m \<and> is_first_seq_distinct_rack m \<or> \<not> is_distinct_rack m \<and> n_first_seq m \<noteq> 0)
            \<or> \<not> first_first_seq_fullrate cf \<and> n_init m = n_first_seq m)
      then (multicastState_updateRate now m (std_rate_f_delta m))
             \<lparr>m_tv := (m_tv m)\<lparr>tv_attempt_finish := now\<rparr>, bcd_state := BCDSTATE_FULLRATE\<rparr>
      else m)"

definition slot_before :: "ring \<Rightarrow> nat" where
  "slot_before r = (if rg_head r = 0 then num_slots r - 1 else rg_head r - 1)"

text \<open>How many packets may be sent now.  The second result is what is recorded when the
  transmission ends: the position of the last packet in the transmit ring and its tail.\<close>

definition am_credit :: "timeval \<Rightarrow> 's MulticastState \<Rightarrow> pktnum" where
  "am_credit now m = \<lceil>real_of_int (tv_to_us (timersub now (tv_sendStart m))) / rate_f_delta m
      / real (unat (m_byte_payload m) + DATA_PAYLOAD_OFFSET) - real_of_int (n_packet m)\<rceil>"

definition am_n_pkt_queued :: "config \<Rightarrow> timeval \<Rightarrow> ring \<Rightarrow> 's MulticastState
    \<Rightarrow> pktnum \<times> 's MulticastState \<times> (nat \<times> nat) option" where
  "am_n_pkt_queued cf now tx m =
     (if mx_ring_empty (Some m) then (0, m, None)
      else (let m = am_fullrate cf now (am_attempt cf now m)
        in if bcd_state m = BCDSTATE_FULLRATE \<and> seq_end m \<le> seq_cur m \<and> n_init m = n_first_seq m
           then (if is_tv_last_data m AND 0x10 = 0
             then (0, m\<lparr>is_tv_last_data := is_tv_last_data m OR 0x14\<rparr>, Some (slot_before tx, rg_tail tx))
             else (0, m, None))
           else if is_tv_last_data m AND 0x10 \<noteq> 0 then (0, m, None)
           else if am_credit now m < 0 then (0, m, None)
           else if seq_end m \<noteq> SEQNUM_MAX
           then (let n_max = to_s32 (seq_end m - seq_cur m)
                 in (if n_max < am_credit now m then n_max else am_credit now m, m, None))
           else (am_credit now m, m, None)))"

text \<open>One packet: data, then the headers in front of it.\<close>

definition am_packet :: "'s MulticastState \<Rightarrow> byte list \<Rightarrow> nat \<Rightarrow> byte list \<Rightarrow> seqnum
    \<Rightarrow> (byte list \<times> nat \<times> bytes_t) res" where
  "am_packet m file pos buf seq =
     (if length buf < DATA_HDR_OFFSET + unat (payload_bytes m seq) then Inl OutOfBounds
      else (case createData buf DATA_HDR_OFFSET m file pos seq of (buf, pos, len) \<Rightarrow>
        (let buf = poke 0 (eth_hdr m) buf;
             ip = poke 2 (le_enc 2 (htons (of_nat (IP4_HDRLEN + UDP_HDRLEN) + ucast len))) (ip_hdr m);
             buf = poke ETH_HLEN (compute_ip_checksum ip) buf;
             udp = poke 4 (le_enc 2 (htons (of_nat UDP_HDRLEN + ucast len))) (udp_hdr m);
             udp = poke 6 (le_enc 2 (0 :: u16)) udp;
             buf = poke (ETH_HLEN + IP4_HDRLEN) udp buf
         in Inr (buf, pos, of_nat DATA_HDR_OFFSET + len))))"

text \<open>The loop of \<^verbatim>\<open>am_process_rings\<close> over \<open>mi\<close> packets; the sum of their bytes is counted.\<close>

primrec am_loop :: "nm_ops \<Rightarrow> byte list \<Rightarrow> nat
    \<Rightarrow> 's MulticastState \<times> ring \<times> (nat \<Rightarrow> byte list) \<times> databyte
    \<Rightarrow> ('s MulticastState \<times> ring \<times> (nat \<Rightarrow> byte list) \<times> databyte) res" where
  "am_loop N file 0 st = Inr st"
| "am_loop N file (Suc mi) st = (case st of (m, tx, bufs, nb) \<Rightarrow>
     if m_seq_max m = 0 then Inl DivByZero
     else deref (m_fd m) (\<lambda>pos.
       let ts = rg_slot tx ! rg_cur tx
       in rbind (am_packet m file pos (bufs (sl_buf ts)) (seq_cur m mod m_seq_max m)) (\<lambda>(buf, pos, len).
            let nx = nm_ring_next N tx (rg_cur tx);
                tx = tx\<lparr>rg_slot := (rg_slot tx)[rg_cur tx := ts\<lparr>sl_len := ucast len, sl_flags := 0\<rparr>],
                        rg_head := nx, rg_cur := nx\<rparr>
            in am_loop N file mi (m\<lparr>m_fd := Some pos, seq_cur := seq_cur m + 1\<rparr>, tx,
                 bufs(sl_buf ts := buf), nb + int (unat len)))))"

definition am_process_rings :: "nm_ops \<Rightarrow> timeval \<Rightarrow> byte list \<Rightarrow> pktnum
    \<Rightarrow> 's MulticastState \<times> ring \<times> (nat \<Rightarrow> byte list)
    \<Rightarrow> ('s MulticastState \<times> ring \<times> (nat \<Rightarrow> byte list) \<times> pktnum \<times> (nat \<times> nat) option \<times> bool) res" where
  "am_process_rings N now file max_pkt st = (case st of (m, tx, bufs) \<Rightarrow>
     (let m = (if n_packet_total m = 0 \<and> n_byte_total m = 0
               then m\<lparr>m_tv := (m_tv m)\<lparr>tv_first_data := now\<rparr>\<rparr> else m);
          n = min max_pkt (int (nm_ring_space N tx))
      in rbind (am_loop N file (nat n) (m, tx, bufs, 0)) (\<lambda>(m, tx, bufs, nb).
           let mark = Some (slot_before tx, rg_tail tx);
               over = (seq_end_max m \<le> seq_cur m);
               m = (if over then m\<lparr>is_tv_last_data := is_tv_last_data m OR 0x01\<rparr> else m);
               fin = (seq_end m \<le> seq_cur m \<and> n_init m = n_first_seq m \<and> is_tv_last_data m AND 0x10 = 0);
               m = (if fin then m\<lparr>is_tv_last_data := is_tv_last_data m OR 0x12\<rparr> else m);
               m = m\<lparr>n_byte := n_byte m + nb, n_packet := n_packet m + n,
                     n_byte_total := n_byte_total m + nb, n_packet_total := n_packet_total m + n\<rparr>;
               m = (if bcd_state m = BCDSTATE_ATTEMPT
                    then m\<lparr>n_byte_attempt := n_byte_attempt m + nb, n_packet_attempt := n_packet_attempt m + n\<rparr>
                    else m)
           in Inr (m, tx, bufs, n, if over \<or> fin then mark else None, fin))))"

definition am_move :: "nm_ops \<Rightarrow> timeval \<Rightarrow> byte list \<Rightarrow> pktnum
    \<Rightarrow> 's MulticastState \<times> ring \<times> (nat \<Rightarrow> byte list)
    \<Rightarrow> ('s MulticastState \<times> ring \<times> (nat \<Rightarrow> byte list) \<times> pktnum \<times> (nat \<times> nat) option \<times> bool) res" where
  "am_move N now file limit st = (case st of (m, tx, bufs) \<Rightarrow>
     if mx_ring_empty (Some m) \<or> nm_ring_empty N tx then Inr (m, tx, bufs, 0, None, False)
     else am_process_rings N now file limit (m, tx, bufs))"

subsection \<open>The loop of the thread\<close>

record nm_state =
  nic_rx :: ring
  nic_tx :: ring
  host_rx :: ring
  host_tx :: ring
  nm_bufs :: "nat \<Rightarrow> byte list"
  move_flip :: bool

text \<open>What one round meets: the time, the result of \<^verbatim>\<open>poll\<close> with the two events, the kernel's work on the rings
  in \<^verbatim>\<open>poll\<close> and in the final \<^verbatim>\<open>ioctl\<close>, and the results of \<^verbatim>\<open>fopen\<close>.\<close>

record data_env =
  de_now :: timeval
  de_ready :: bool
  de_nic_out :: bool
  de_host_out :: bool
  de_poll :: "nm_state \<Rightarrow> nm_state"
  de_txsync :: "nm_state \<Rightarrow> nm_state"
  de_opens :: "bool \<times> bool"

definition set_mark :: "(nat \<times> nat) option \<Rightarrow> bool \<Rightarrow> ('q, 's, 'u) agent \<Rightarrow> ('q, 's, 'u) agent" where
  "set_mark mark fin g =
     (let g = (case mark of None \<Rightarrow> g | Some (h, t) \<Rightarrow> g\<lparr>am_txring_head := h, am_txring_tail_last := t\<rparr>)
      in if fin then g\<lparr>need_release_path := True\<rparr> else g)"

definition active :: "('q, 's, 'u) agent \<Rightarrow> 's MulticastState option" where
  "active g = (case activeMulticast_p g of None \<Rightarrow> None | Some b \<Rightarrow> hashMulticast g b)"

definition put_active :: "'s MulticastState \<Rightarrow> ('q, 's, 'u) agent \<Rightarrow> ('q, 's, 'u) agent" where
  "put_active m g = (case activeMulticast_p g of None \<Rightarrow> g
     | Some b \<Rightarrow> g\<lparr>hashMulticast := (hashMulticast g)(b \<mapsto> m)\<rparr>)"

definition data_credit :: "config \<Rightarrow> timeval \<Rightarrow> nm_state \<Rightarrow> ('q, 's, 'u) agent \<Rightarrow> pktnum \<times> ('q, 's, 'u) agent" where
  "data_credit cf now nm g = (case active g of None \<Rightarrow> (0, g)
     | Some m \<Rightarrow> (case am_n_pkt_queued cf now (nic_tx nm) m of (n, m, mark) \<Rightarrow>
         (n, set_mark mark (mark \<noteq> None) (put_active m g))))"

definition data_send :: "nm_ops \<Rightarrow> timeval \<Rightarrow> pktnum \<Rightarrow> nm_state \<times> ('q, 's, 'u) agent
    \<Rightarrow> (nm_state \<times> ('q, 's, 'u) agent) res" where
  "data_send N now limit st = (case st of (nm, g) \<Rightarrow>
     (case active g of None \<Rightarrow> Inr (nm, g)
      | Some m \<Rightarrow> rbind (am_move N now (file_of g (m_bcd_filename m)) limit (m, nic_tx nm, nm_bufs nm))
          (\<lambda>(m, tx, bufs, _, mark, fin).
             Inr (nm\<lparr>nic_tx := tx, nm_bufs := bufs\<rparr>, set_mark mark fin (put_active m g)))))"

definition data_nic_out :: "nm_ops \<Rightarrow> config \<Rightarrow> data_env \<Rightarrow> pktnum \<Rightarrow> nat \<Rightarrow> nm_state \<times> ('q, 's, 'u) agent
    \<Rightarrow> (nm_state \<times> ('q, 's, 'u) agent) res" where
  "data_nic_out N cf e n_multi n_host st = (case st of (nm, g) \<Rightarrow>
     rbind
       (if n_multi \<noteq> 0 \<and> (move_flip nm \<or> n_host = 0)
        then data_send N (de_now e) (if int (nm_burst cf) < n_multi then int (nm_burst cf) else n_multi) (nm, g)
        else if n_host \<noteq> 0
        then rbind (move N cf (de_now e) (de_opens e) (nm_bufs nm) (nm_burst cf) NM_H2N (host_rx nm, nic_tx nm, g))
               (\<lambda>(rx, tx, _, g). Inr (nm\<lparr>host_rx := rx, nic_tx := tx\<rparr>, g))
        else Inr (nm, g))
       (\<lambda>(nm, g). Inr (nm\<lparr>move_flip := \<not> move_flip nm\<rparr>, g)))"

definition data_host_out :: "nm_ops \<Rightarrow> config \<Rightarrow> data_env \<Rightarrow> nat \<Rightarrow> nm_state \<times> ('q, 's, 'u) agent
    \<Rightarrow> (nm_state \<times> ('q, 's, 'u) agent) res" where
  "data_host_out N cf e n_nic st = (case st of (nm, g) \<Rightarrow>
     if n_nic \<noteq> 0
     then rbind (move N cf (de_now e) (de_opens e) (nm_bufs nm) (nm_burst cf) NM_N2H (nic_rx nm, host_tx nm, g))
            (\<lambda>(rx, tx, _, g). Inr (nm\<lparr>nic_rx := rx, host_tx := tx\<rparr>, g))
     else Inr (nm, g))"

text \<open>The multicast is dead when the NIC has sent its last packet.\<close>

definition data_release :: "timeval \<Rightarrow> ring \<Rightarrow> ('q, 's, 'u) agent \<Rightarrow> ('q, 's, 'u) agent res" where
  "data_release now tx g =
     (if need_release_path g then
        (let t = rg_tail tx; n = num_slots tx;
             dist_ht = (if am_txring_head g \<le> t then t - am_txring_head g else t + n - am_txring_head g);
             dist_tt = (if t < am_txring_tail_last g then am_txring_tail_last g - t else am_txring_tail_last g + n - t)
         in if dist_ht + dist_tt \<le> n
            then (case active g of None \<Rightarrow> Inl AssertFailed
              | Some m \<Rightarrow> Inr ((put_active (m\<lparr>bcd_state := BCDSTATE_DEAD, m_tv := (m_tv m)\<lparr>tv_last_data := now\<rparr>\<rparr>) g)
                  \<lparr>need_release_path := False\<rparr>))
            else Inr (g\<lparr>am_txring_tail_last := t\<rparr>))
      else Inr g)"

definition thread_netmap :: "nm_ops \<Rightarrow> config \<Rightarrow> data_env \<Rightarrow> nm_state \<times> ('q, 's, 'u) agent
    \<Rightarrow> (nm_state \<times> ('q, 's, 'u) agent) res" where
  "thread_netmap N cf e st = (case st of (nm, g) \<Rightarrow>
     (let n_nic = nm_ring_space N (nic_rx nm); n_host = nm_ring_space N (host_rx nm)
      in case data_credit cf (de_now e) nm g of (n_multi, g) \<Rightarrow>
        (let nm = de_poll e nm
         in rbind
           (if de_ready e then
              rbind (if de_nic_out e then data_nic_out N cf e n_multi n_host (nm, g) else Inr (nm, g)) (\<lambda>(nm, g).
                if de_host_out e then data_host_out N cf e n_nic (nm, g) else Inr (nm, g))
            else Inr (nm, g))
           (\<lambda>(nm, g). let nm = de_txsync e nm
              in rbind (data_release (de_now e) (nic_tx nm) g) (\<lambda>g. Inr (nm, g))))))"

subsection \<open>What a packet looks like\<close>

text \<open>The 42 bytes in front of the data of a packet with \<open>len\<close> bytes of data.\<close>

definition am_front :: "'s MulticastState \<Rightarrow> u32 \<Rightarrow> byte list" where
  "am_front m len = eth_hdr m
     @ compute_ip_checksum (poke 2 (le_enc 2 (htons (of_nat (IP4_HDRLEN + UDP_HDRLEN) + ucast len))) (ip_hdr m))
     @ poke 6 (le_enc 2 (0 :: u16)) (poke 4 (le_enc 2 (htons (of_nat UDP_HDRLEN + ucast len))) (udp_hdr m))"

lemma udp_hdr_bytes:
  "initUDPHeader (replicate UDP_HDRLEN 0) 0 DATA_SRC_PORT DATA_DST_PORT = [0x63, 0x63, 0x62, 0x62, 0, 0, 0, 0]"
  by code_simp

lemma length_compute_ip_checksum: "12 \<le> length h \<Longrightarrow> length (compute_ip_checksum h) = length h"
  by (simp add: compute_ip_checksum_def Let_def)

lemma compute_ip_checksum_nth:
  "12 \<le> length h \<Longrightarrow> i < 10 \<Longrightarrow> compute_ip_checksum h ! i = h ! i"
  by (simp add: compute_ip_checksum_def Let_def poke_def nth_append)

lemma am_front_fields:
  assumes "headers_ok m"
  shows "length (am_front m len) = 42" "am_front m len ! 23 = IPPROTO_UDP" "peek 12 2 (am_front m len) = [8, 0]"
    "peek 36 2 (am_front m len) = [0x62, 0x62]"
    "peek 38 2 (am_front m len) = le_enc 2 (htons (8 + ucast len))"
    "peek 16 2 (am_front m len) = le_enc 2 (htons (28 + ucast len))"
    "validate_ip_checksum (peek 14 20 (am_front m len)) = 0"
proof -
  let ?ip = "poke 2 (le_enc 2 (htons (of_nat (IP4_HDRLEN + UDP_HDRLEN) + ucast len))) (ip_hdr m)"
  let ?udp = "poke 6 (le_enc 2 (0 :: u16)) (poke 4 (le_enc 2 (htons (of_nat UDP_HDRLEN + ucast len))) (udp_hdr m))"
  note h = assms [unfolded headers_ok_def udp_hdr_bytes]
  have l: "length ?ip = 20" "length ?udp = 8" using h by simp_all
  have c: "length (compute_ip_checksum ?ip) = 20" using l by (simp add: length_compute_ip_checksum)
  show "length (am_front m len) = 42" using h c l by (simp add: am_front_def)
  have "?ip ! 9 = IPPROTO_UDP" "?ip ! 0 = 0x45" using h by (simp_all add: poke_def nth_append)
  then show "am_front m len ! 23 = IPPROTO_UDP"
    using h c l by (simp add: am_front_def nth_append compute_ip_checksum_nth)
  show "peek 12 2 (am_front m len) = [8, 0]"
    using h by (simp add: am_front_def peek_append_left)
  have "peek 2 2 ?udp = [0x62, 0x62]" using h by (simp add: peek_poke_before) (simp add: peek_def)
  then show "peek 36 2 (am_front m len) = [0x62, 0x62]" using h c by (simp add: am_front_def peek_skip)
  have "peek 4 2 ?udp = le_enc 2 (htons (of_nat UDP_HDRLEN + ucast len))"
    using h by (simp add: peek_poke_before)
  then show "peek 38 2 (am_front m len) = le_enc 2 (htons (8 + ucast len))"
    using h c by (simp add: am_front_def peek_skip UDP_HDRLEN_def)
  have "peek 2 2 (compute_ip_checksum ?ip) = peek 2 2 ?ip"
    using l by (simp add: compute_ip_checksum_def Let_def peek_poke_before)
  then show "peek 16 2 (am_front m len) = le_enc 2 (htons (28 + ucast len))"
    using h c by (simp add: am_front_def peek_skip peek_append_left UDP_HDRLEN_def IP4_HDRLEN_def)
  have ihl: "ip_ihl ?ip = 5" using \<open>?ip ! 0 = 0x45\<close> by (simp add: ip_ihl_def)
  have "peek 14 20 (am_front m len) = compute_ip_checksum ?ip"
    using h c by (simp add: am_front_def peek_skip peek_hd)
  then show "validate_ip_checksum (peek 14 20 (am_front m len)) = 0"
    using ip_checksum_zero [of ?ip] ihl l by simp
qed

definition am_frame :: "'s MulticastState \<Rightarrow> byte list \<Rightarrow> nat \<Rightarrow> byte list \<Rightarrow> byte list" where
  "am_frame m xs s old = am_front m (of_nat (length (part_packet m xs s))) @ part_packet m xs s
     @ drop (42 + length (part_packet m xs s)) old"

lemma length_part_packet:
  assumes "sends m xs P" shows "length (part_packet m xs s) \<le> P + 104"
  using part_packet_length [of m xs s] by (simp add: sends_payload [OF assms])

lemma am_packet_spec:
  assumes m: "sends m xs P" and h: "headers_ok m" and s: "s < n_packets (length xs) P" and pos: "at_part xs P s pos"
    and room: "P + 146 \<le> length buf"
  shows "am_packet m xs pos buf (of_nat s)
    = Inr (am_frame m xs s buf, s * P + length (chunk P xs s), of_nat (42 + length (part_packet m xs s)))"
proof -
  let ?pk = "part_packet m xs s"
  have P: "unat (m_byte_payload m) = P" "P < 65536" using sends_payload [OF m] m by (simp_all add: sends_def)
  have l: "length ?pk \<le> P + 104" by (rule length_part_packet [OF m])
  have c: "createData buf 42 m xs pos (of_nat s)
      = (poke 42 ?pk buf, s * P + length (chunk P xs s), of_nat (length ?pk))"
    using createData_spec [OF m s pos, of 42 buf] room P(1) by (simp add: part_packet_def)
  have pb: "payload_bytes m (of_nat s) = of_nat (length ?pk)"
    using c by (simp add: createData_def split: prod.splits)
  have u: "unat (of_nat (length ?pk) :: u32) = length ?pk" using l P(2) by (intro unat_of_nat_u32) linarith
  let ?w = "of_nat (length ?pk) :: u32"
  let ?ip = "compute_ip_checksum (poke 2 (le_enc 2 (htons (of_nat (IP4_HDRLEN + UDP_HDRLEN) + ucast ?w))) (ip_hdr m))"
  let ?udp = "poke 6 (le_enc 2 (0 :: u16)) (poke 4 (le_enc 2 (htons (of_nat UDP_HDRLEN + ucast ?w))) (udp_hdr m))"
  have hl: "length (eth_hdr m) = 14" "length ?ip = 20" "length ?udp = 8"
    using h by (simp_all add: headers_ok_def udp_hdr_bytes length_compute_ip_checksum)
  let ?b = "poke 42 ?pk buf"
  have lb: "length ?b = length buf" using l room by simp
  have "poke 14 ?ip (poke 0 (eth_hdr m) ?b) = poke 0 (eth_hdr m @ ?ip) ?b"
    using hl lb room by (intro poke_poke_adj) simp_all
  then have "poke 34 ?udp (poke 14 ?ip (poke 0 (eth_hdr m) ?b)) = poke 0 ((eth_hdr m @ ?ip) @ ?udp) ?b"
    using hl lb room by (simp only:) (intro poke_poke_adj, simp_all)
  also have "\<dots> = am_frame m xs s buf"
    using hl l room by (simp add: am_frame_def am_front_def) (simp add: poke_def)
  finally have f: "poke 34 ?udp (poke 14 ?ip (poke 0 (eth_hdr m) ?b)) = am_frame m xs s buf" .
  have o: "DATA_HDR_OFFSET = 42" "ETH_HLEN = 14" "ETH_HLEN + IP4_HDRLEN = 34" by (simp_all add: const_defs)
  show ?thesis
    using room l unfolding am_packet_def o(1,3) unfolding o(2) pb u c
    by (simp only: Let_def f prod.case) simp
qed

lemma am_frame_props:
  assumes m: "sends m xs P" and h: "headers_ok m"
  shows "is_fast_packet NM_N2H (am_frame m xs s old)" "length (am_front m len) = DATA_HDR_OFFSET"
proof -
  note f = am_front_fields [OF h]
  show "length (am_front m len) = DATA_HDR_OFFSET" using f(1) by (simp add: const_defs)
  have port: "ntohs (le_dec [0x62, 0x62]) = word_of_int DATA_DST_PORT" "ntohs (le_dec [8, 0]) = ETH_P_IP" by code_simp+
  have o: "ETH_HLEN + 9 = 23" "ETH_HLEN + IP4_HDRLEN + 2 = 36" by (simp_all add: const_defs)
  show "is_fast_packet NM_N2H (am_frame m xs s old)"
    unfolding is_fast_packet_def o using f port
    by (simp add: am_frame_def nth_append peek_append_left)
qed

subsection \<open>What a burst sends\<close>

lemma am_loop_cons: "am_loop N file (Suc j) st = rbind (am_loop N file (Suc 0) st) (am_loop N file j)"
proof -
  obtain m tx bufs nb where st: "st = (m, tx, bufs, nb)" by (cases st)
  show ?thesis
    by (simp add: st Let_def rbind_def deref_def split: sum.splits option.splits prod.splits)
qed

lemma am_loop_snoc:
  fixes st :: "'s MulticastState \<times> ring \<times> (nat \<Rightarrow> byte list) \<times> databyte"
  shows "am_loop N file (Suc j) st = rbind (am_loop N file j st) (am_loop N file (Suc 0))"
proof (induction j arbitrary: st)
  case 0
  then show ?case by (simp del: am_loop.simps(2))
next
  case (Suc j)
  have f: "am_loop N file (Suc j) = (\<lambda>st :: 's MulticastState \<times> ring \<times> (nat \<Rightarrow> byte list) \<times> databyte.
      rbind (am_loop N file j st) (am_loop N file (Suc 0)))"
    by (intro ext) (rule Suc.IH)
  have "am_loop N file (Suc (Suc j)) st = rbind (am_loop N file (Suc 0) st) (am_loop N file (Suc j))"
    by (rule am_loop_cons)
  also have "\<dots> = rbind (rbind (am_loop N file (Suc 0) st) (am_loop N file j)) (am_loop N file (Suc 0))"
    unfolding f by (rule rbind_assoc [symmetric])
  also have "rbind (am_loop N file (Suc 0) st) (am_loop N file j) = am_loop N file (Suc j) st"
    by (rule am_loop_cons [symmetric])
  finally show ?case .
qed

text \<open>The transmit ring with a buffer of its own for every slot, and the \<open>i\<close>-th slot from its position.\<close>

definition tx_ok :: "nat \<Rightarrow> ring \<Rightarrow> (nat \<Rightarrow> byte list) \<Rightarrow> bool" where
  "tx_ok P tx bufs \<longleftrightarrow> length (rg_slot tx) = num_slots tx \<and> rg_cur tx < num_slots tx
     \<and> inj_on (\<lambda>k. sl_buf (rg_slot tx ! k)) {..<num_slots tx}
     \<and> (\<forall>k < num_slots tx. P + 146 \<le> length (bufs (sl_buf (rg_slot tx ! k))))"

definition ring_at :: "ring \<Rightarrow> nat \<Rightarrow> nat" where
  "ring_at tx i = (rg_cur tx + i) mod num_slots tx"

definition buf_at :: "ring \<Rightarrow> nat \<Rightarrow> nat" where
  "buf_at tx i = sl_buf (rg_slot tx ! ring_at tx i)"

lemma ring_at_inj:
  assumes "i < num_slots tx" "j < num_slots tx" "ring_at tx i = ring_at tx j"
  shows "i = j"
  using assms
proof (induction i j rule: linorder_wlog)
  case (le i j)
  then have "num_slots tx dvd (rg_cur tx + j) - (rg_cur tx + i)"
    by (intro mod_eq_dvd_iff_nat [THEN iffD1]) (simp_all add: ring_at_def)
  then show ?case using le by (auto dest: dvd_imp_le)
next
  case (sym i j)
  then show ?case by simp
qed

lemma buf_at_inj:
  assumes "tx_ok P tx bufs" "i < num_slots tx" "j < num_slots tx" "i \<noteq> j"
  shows "buf_at tx i \<noteq> buf_at tx j"
proof
  assume e: "buf_at tx i = buf_at tx j"
  have "inj_on (\<lambda>k. sl_buf (rg_slot tx ! k)) {..<num_slots tx}" "ring_at tx i < num_slots tx" "ring_at tx j < num_slots tx"
    using assms(1,2) by (simp_all add: tx_ok_def ring_at_def)
  with e have "ring_at tx i = ring_at tx j" by (auto simp: buf_at_def dest: inj_onD)
  with ring_at_inj [OF assms(2,3)] assms(4) show False by simp
qed

lemma am_update [simp]:
  "sends (m\<lparr>m_fd := p, seq_cur := c\<rparr>) xs P = sends m xs P" "headers_ok (m\<lparr>m_fd := p, seq_cur := c\<rparr>) = headers_ok m"
  "part_packet (m\<lparr>m_fd := p, seq_cur := c\<rparr>) xs s = part_packet m xs s"
  "am_frame (m\<lparr>m_fd := p, seq_cur := c\<rparr>) xs s old = am_frame m xs s old"
  by (simp_all add: sends_def headers_ok_def part_packet_def am_frame_def am_front_def)

text \<open>One packet.\<close>

lemma am_loop_one:
  assumes N: "netmap N" and m: "sends m xs P" "headers_ok m" and fd: "m_fd m = Some pos"
    and pos: "at_part xs P (unat (seq_cur m) mod n_packets (length xs) P) pos"
    and tx: "rg_cur tx < num_slots tx" "length (rg_slot tx) = num_slots tx"
    and room: "P + 146 \<le> length (bufs (sl_buf (rg_slot tx ! rg_cur tx)))"
  defines "s \<equiv> unat (seq_cur m) mod n_packets (length xs) P"
    and "b \<equiv> sl_buf (rg_slot tx ! rg_cur tx)" and "k \<equiv> rg_cur tx"
  shows "am_loop N xs (Suc 0) (m, tx, bufs, nb)
    = Inr (m\<lparr>m_fd := Some (s * P + length (chunk P xs s)), seq_cur := seq_cur m + 1\<rparr>,
        tx\<lparr>rg_slot := (rg_slot tx)[k := (rg_slot tx ! k)\<lparr>sl_len := of_nat (42 + length (part_packet m xs s)), sl_flags := 0\<rparr>],
           rg_head := (k + 1) mod num_slots tx, rg_cur := (k + 1) mod num_slots tx\<rparr>,
        bufs(b := am_frame m xs s (bufs b)), nb + int (42 + length (part_packet m xs s)))"
proof -
  have n: "0 < n_packets (length xs) P" "n_packets (length xs) P < 4294967296" "m_seq_max m = of_nat (n_packets (length xs) P)"
    using m(1) packets_cover [of "length xs" P] by (auto simp: sends_def)
  have P: "P < 65536" using m(1) by (simp add: sends_def)
  have z: "m_seq_max m \<noteq> 0" using n by (simp add: of_nat_zero_u32)
  have s: "s < n_packets (length xs) P" using n(1) by (simp add: s_def)
  have sq: "seq_cur m mod m_seq_max m = of_nat s"
    using n s by (simp add: u32_eq_iff_unat unat_of_nat_u32 s_def)
  have nx: "nm_ring_next N tx k = (k + 1) mod num_slots tx"
    using netmap.next_law [OF N] tx(1) by (auto simp: k_def)
  have l: "length (part_packet m xs s) \<le> P + 104" by (rule length_part_packet [OF m(1)])
  let ?w = "of_nat (42 + length (part_packet m xs s)) :: u32"
  have u: "unat ?w = 42 + length (part_packet m xs s)" using l P by (intro unat_of_nat_u32) linarith
  have c: "(ucast ?w :: u16) = of_nat (42 + length (part_packet m xs s))" by transfer simp
  have bk: "sl_buf (rg_slot tx ! k) = b" by (simp add: b_def k_def)
  have p: "am_packet m xs pos (bufs b) (of_nat s) = Inr (am_frame m xs s (bufs b), s * P + length (chunk P xs s), ?w)"
    by (rule am_packet_spec [OF m s pos [folded s_def] room [folded b_def]])
  show ?thesis
    using z by (simp only: am_loop.simps prod.case if_False fd deref_simps Let_def sq k_def [symmetric] bk p rbind_simps nx u c)
qed

text \<open>The whole burst, with \<open>c\<close> packets sent before.\<close>

definition nth_part :: "byte list \<Rightarrow> nat \<Rightarrow> nat \<Rightarrow> nat" where
  "nth_part xs P c = c mod n_packets (length xs) P"

definition burst_done :: "'s MulticastState \<Rightarrow> byte list \<Rightarrow> nat \<Rightarrow> ring \<Rightarrow> (nat \<Rightarrow> byte list) \<Rightarrow> nat
    \<Rightarrow> ring \<Rightarrow> (nat \<Rightarrow> byte list) \<Rightarrow> bool" where
  "burst_done m xs P tx bufs j tx' bufs' \<longleftrightarrow>
     (let s = (\<lambda>i. nth_part xs P (unat (seq_cur m) + i))
      in rg_cur tx' = ring_at tx j \<and> num_slots tx' = num_slots tx \<and> rg_tail tx' = rg_tail tx
       \<and> (0 < j \<longrightarrow> rg_head tx' = rg_cur tx')
       \<and> map sl_buf (rg_slot tx') = map sl_buf (rg_slot tx)
       \<and> (\<forall>i < j. bufs' (buf_at tx i) = am_frame m xs (s i) (bufs (buf_at tx i))
           \<and> sl_len (rg_slot tx' ! ring_at tx i) = of_nat (42 + length (part_packet m xs (s i))))
       \<and> (\<forall>b. b \<notin> buf_at tx ` {..<j} \<longrightarrow> bufs' b = bufs b))"

definition burst_bytes :: "'s MulticastState \<Rightarrow> byte list \<Rightarrow> nat \<Rightarrow> nat \<Rightarrow> int" where
  "burst_bytes m xs P j = (\<Sum>i<j. int (42 + length (part_packet m xs (nth_part xs P (unat (seq_cur m) + i)))))"

lemma am_loop_burst:
  assumes N: "netmap N" and m: "sends m xs P" "headers_ok m" and fd: "m_fd m = Some pos"
    and pos: "at_part xs P (nth_part xs P (unat (seq_cur m))) pos"
    and tx: "tx_ok P tx bufs" and j: "j \<le> num_slots tx" "unat (seq_cur m) + j < 4294967296"
  shows "\<exists>pos' tx' bufs'. am_loop N xs j (m, tx, bufs, nb)
      = Inr (m\<lparr>m_fd := Some pos', seq_cur := seq_cur m + of_nat j\<rparr>, tx', bufs', nb + burst_bytes m xs P j)
    \<and> at_part xs P (nth_part xs P (unat (seq_cur m) + j)) pos' \<and> burst_done m xs P tx bufs j tx' bufs'"
  using j
proof (induction j)
  case 0
  have "rg_cur tx < num_slots tx" using tx by (simp add: tx_ok_def)
  then have "burst_done m xs P tx bufs 0 tx bufs" by (simp add: burst_done_def ring_at_def)
  moreover have "m\<lparr>m_fd := Some pos, seq_cur := seq_cur m\<rparr> = m" using fd by (cases m) simp
  ultimately show ?case using pos by (intro exI [of _ pos] exI [of _ tx] exI [of _ bufs]) (simp add: burst_bytes_def)
next
  case (Suc j)
  obtain pos1 tx1 bufs1 where r: "am_loop N xs j (m, tx, bufs, nb)
      = Inr (m\<lparr>m_fd := Some pos1, seq_cur := seq_cur m + of_nat j\<rparr>, tx1, bufs1, nb + burst_bytes m xs P j)"
    "at_part xs P (nth_part xs P (unat (seq_cur m) + j)) pos1" "burst_done m xs P tx bufs j tx1 bufs1"
    using Suc.IH Suc.prems by auto
  let ?m1 = "m\<lparr>m_fd := Some pos1, seq_cur := seq_cur m + of_nat j\<rparr>"
  have uj: "unat (of_nat j :: u32) = j" using Suc.prems by (intro unat_of_nat_u32) linarith
  have sc: "unat (seq_cur ?m1) = unat (seq_cur m) + j" using Suc.prems uj by (simp add: unat_add_small)
  note d = r(3) [unfolded burst_done_def Let_def]
  have t: "length (rg_slot tx) = num_slots tx" "rg_cur tx < num_slots tx" using tx by (simp_all add: tx_ok_def)
  have ls: "length (rg_slot tx1) = length (rg_slot tx)" using d by (metis length_map)
  have bs: "sl_buf (rg_slot tx1 ! k) = sl_buf (rg_slot tx ! k)" if "k < num_slots tx" for k
    using d that t(1) ls by (metis nth_map)
  have k: "ring_at tx j < num_slots tx" "rg_cur tx1 = ring_at tx j" using t(2) d by (simp_all add: ring_at_def)
  have b: "sl_buf (rg_slot tx1 ! rg_cur tx1) = buf_at tx j" using bs k by (simp add: buf_at_def)
  have fresh: "buf_at tx j \<notin> buf_at tx ` {..<j}"
  proof
    assume "buf_at tx j \<in> buf_at tx ` {..<j}"
    then obtain i where "i < j" "buf_at tx j = buf_at tx i" by auto
    with buf_at_inj [OF tx, of i j] Suc.prems(1) show False by simp
  qed
  then have old: "bufs1 (buf_at tx j) = bufs (buf_at tx j)" using d by blast
  have room: "P + 146 \<le> length (bufs1 (sl_buf (rg_slot tx1 ! rg_cur tx1)))"
    unfolding b old using tx k(1) by (simp add: tx_ok_def buf_at_def)
  let ?s = "nth_part xs P (unat (seq_cur m) + j)"
  let ?tx' = "tx1\<lparr>rg_slot := (rg_slot tx1)[ring_at tx j := (rg_slot tx1 ! ring_at tx j)
      \<lparr>sl_len := of_nat (42 + length (part_packet m xs ?s)), sl_flags := 0\<rparr>],
     rg_head := (ring_at tx j + 1) mod num_slots tx, rg_cur := (ring_at tx j + 1) mod num_slots tx\<rparr>"
  let ?bufs' = "bufs1(buf_at tx j := am_frame m xs ?s (bufs (buf_at tx j)))"
  have step: "am_loop N xs (Suc 0) (?m1, tx1, bufs1, nb + burst_bytes m xs P j)
      = Inr (m\<lparr>m_fd := Some (?s * P + length (chunk P xs ?s)), seq_cur := seq_cur m + of_nat (Suc j)\<rparr>, ?tx', ?bufs',
          nb + burst_bytes m xs P (Suc j))"
  proof -
    have "m\<lparr>m_fd := Some pos1, seq_cur := seq_cur m + of_nat j\<rparr>\<lparr>m_fd := p, seq_cur := seq_cur m + of_nat j + 1\<rparr>
        = m\<lparr>m_fd := p, seq_cur := seq_cur m + of_nat (Suc j)\<rparr>" for p by (simp add: add_ac)
    then show ?thesis
      using am_loop_one [OF N, of ?m1 xs P pos1 tx1 bufs1 "nb + burst_bytes m xs P j"] m r(2) t ls k room b old d
      unfolding sc by (simp add: nth_part_def burst_bytes_def)
  qed
  have nx: "(ring_at tx j + 1) mod num_slots tx = ring_at tx (Suc j)" by (simp add: ring_at_def mod_Suc_eq)
  have "burst_done m xs P tx bufs (Suc j) ?tx' ?bufs'"
  proof -
    have mb: "map sl_buf (rg_slot ?tx') = map sl_buf (rg_slot tx)"
      using d by (simp add: map_update) (metis list_update_id map_update nth_map k(1) ls t(1) bs length_map)
    have len: "sl_len (rg_slot ?tx' ! ring_at tx i) = of_nat (42 + length (part_packet m xs (nth_part xs P (unat (seq_cur m) + i))))"
      if "i < Suc j" for i
    proof (cases "i = j")
      case True
      then show ?thesis using k(1) ls t(1) by simp
    next
      case False
      then have "ring_at tx i \<noteq> ring_at tx j" "i < j" using ring_at_inj [of i tx j] that Suc.prems(1) by auto
      then show ?thesis using d by simp
    qed
    have buf: "?bufs' (buf_at tx i) = am_frame m xs (nth_part xs P (unat (seq_cur m) + i)) (bufs (buf_at tx i))"
      if "i < Suc j" for i
    proof (cases "i = j")
      case False
      then have "buf_at tx i \<noteq> buf_at tx j" "i < j" using buf_at_inj [OF tx, of i j] that Suc.prems(1) by auto
      then show ?thesis using d by simp
    qed simp
    have "\<forall>c. c \<notin> buf_at tx ` {..<Suc j} \<longrightarrow> ?bufs' c = bufs c" using d by (auto simp: lessThan_Suc)
    then show ?thesis using d mb len buf by (simp add: burst_done_def Let_def nx [simplified])
  qed
  moreover have "at_part xs P (nth_part xs P (unat (seq_cur m) + Suc j)) (?s * P + length (chunk P xs ?s))"
  proof -
    have n: "?s < n_packets (length xs) P" using m(1) packets_cover [of "length xs" P] by (simp add: nth_part_def sends_def)
    have e: "nth_part xs P (unat (seq_cur m) + Suc j) = (if ?s + 1 = n_packets (length xs) P then 0 else ?s + 1)"
      by (simp add: nth_part_def mod_Suc)
    show ?thesis unfolding e using next_pos [OF m(1) n] by (auto simp: at_part_def)
  qed
  moreover have "am_loop N xs (Suc j) (m, tx, bufs, nb) = Inr (m\<lparr>m_fd := Some (?s * P + length (chunk P xs ?s)),
      seq_cur := seq_cur m + of_nat (Suc j)\<rparr>, ?tx', ?bufs', nb + burst_bytes m xs P (Suc j))"
    by (subst am_loop_snoc) (simp only: r(1) rbind_simps step)
  ultimately show ?case by blast
qed

lemma am_update_tv [simp]:
  "sends (m\<lparr>m_tv := t\<rparr>) xs P = sends m xs P" "headers_ok (m\<lparr>m_tv := t\<rparr>) = headers_ok m"
  "burst_done (m\<lparr>m_tv := t\<rparr>) = burst_done m" "burst_bytes (m\<lparr>m_tv := t\<rparr>) = burst_bytes m"
  by (simp_all add: sends_def headers_ok_def burst_done_def burst_bytes_def part_packet_def am_frame_def am_front_def fun_eq_iff)

lemma space_lt:
  assumes "netmap N" "rg_cur r < num_slots r" "rg_tail r < num_slots r"
  shows "nm_ring_space N r < num_slots r"
  using netmap.space_law [OF assms] assms(2,3) by (simp split: if_splits)

lemma flag_bits: "((x :: u8) OR 1) AND 16 = x AND 16" "((x :: u8) OR 18) AND 16 = 16" "((x :: u8) OR 19) AND 16 = 16"
proof -
  show "(x OR 1) AND 16 = x AND 16" by (simp add: bit.conj_disj_distrib2)
  have "(18 :: u8) = 2 OR 16" by simp
  then have "(x OR 18) AND 16 = ((x OR 2) OR 16) AND 16" by (simp add: or.assoc)
  then show "(x OR 18) AND 16 = 16" by (simp only: word_ao_absorbs)
  have "(19 :: u8) = 3 OR 16" by simp
  then have "(x OR 19) AND 16 = ((x OR 3) OR 16) AND 16" by (simp add: or.assoc)
  then show "(x OR 19) AND 16 = 16" by (simp only: word_ao_absorbs)
qed

subsection \<open>Properties: sending\<close>

text \<open>What the packets of a multicast depend on.\<close>

definition source_of_packets :: "'s MulticastState \<Rightarrow> _" where
  "source_of_packets m = (eth_hdr m, ip_hdr m, udp_hdr m, m_bcd_id m, m_msgIntQ m, m_data_size m, m_seq_max m,
     m_byte_payload m, m_byte_payload_min m)"

lemma source_same:
  assumes "source_of_packets m' = source_of_packets m"
  shows "sends m' xs P = sends m xs P" "headers_ok m' = headers_ok m" "am_frame m' = am_frame m" "m_bcd_id m' = m_bcd_id m"
    "m_msgIntQ m' = m_msgIntQ m"
  using assms by (simp_all add: source_of_packets_def sends_def headers_ok_def am_frame_def am_front_def part_packet_def fun_eq_iff)

lemma am_process_rings_spec:
  assumes N: "netmap N" and m: "sends m xs P" "headers_ok m" and fd: "m_fd m = Some pos"
    and pos: "at_part xs P (nth_part xs P (unat (seq_cur m))) pos"
    and tx: "tx_ok P tx bufs" "rg_tail tx < num_slots tx" and seq: "unat (seq_cur m) + num_slots tx < 2 ^ 32"
    and max: "0 \<le> max_pkt"
  shows "\<exists>m' tx' bufs' n mark fin. am_process_rings N now xs max_pkt (m, tx, bufs) = Inr (m', tx', bufs', int n, mark, fin)
    \<and> int n = min max_pkt (int (nm_ring_space N tx)) \<and> burst_done m xs P tx bufs n tx' bufs'
    \<and> (\<forall>i<n. is_fast_packet NM_N2H (bufs' (buf_at tx i)) \<and> validate_ip_checksum (peek 14 20 (bufs' (buf_at tx i))) = 0)
    \<and> unat (seq_cur m') = unat (seq_cur m) + n \<and> n_packet_total m' = n_packet_total m + int n
    \<and> n_byte_total m' = n_byte_total m + burst_bytes m xs P n
    \<and> (fin \<longleftrightarrow> seq_end m \<le> seq_cur m' \<and> n_init m = n_first_seq m \<and> is_tv_last_data m AND 0x10 = 0)
    \<and> (fin \<longrightarrow> mark \<noteq> None \<and> is_tv_last_data m' AND 0x10 \<noteq> 0)
    \<and> (\<exists>pos'. m_fd m' = Some pos' \<and> at_part xs P (nth_part xs P (unat (seq_cur m'))) pos') \<and> sends m' xs P \<and> headers_ok m'
    \<and> am_frame m' = am_frame m \<and> m_bcd_id m' = m_bcd_id m \<and> m_msgIntQ m' = m_msgIntQ m"
proof -
  define n where "n = nat (min max_pkt (int (nm_ring_space N tx)))"
  let ?m = "if n_packet_total m = 0 \<and> n_byte_total m = 0 then m\<lparr>m_tv := (m_tv m)\<lparr>tv_first_data := now\<rparr>\<rparr> else m"
  have cur: "rg_cur tx < num_slots tx" using tx(1) by (simp add: tx_ok_def)
  have n: "n \<le> num_slots tx" using space_lt [OF N cur tx(2)] max by (simp add: n_def)
  have sq0: "unat (seq_cur m) + n < 4294967296" using n seq by simp
  then have sq: "unat (seq_cur ?m) + n < 4294967296" by simp
  have mm: "sends ?m xs P" "headers_ok ?m" "m_fd ?m = Some pos" "at_part xs P (nth_part xs P (unat (seq_cur ?m))) pos"
    "burst_done ?m = burst_done m" "burst_bytes ?m = burst_bytes m" "unat (seq_cur ?m) = unat (seq_cur m)" using m fd pos by simp_all
  obtain pos' tx' bufs' where r: "am_loop N xs n (?m, tx, bufs, 0)
      = Inr (?m\<lparr>m_fd := Some pos', seq_cur := seq_cur ?m + of_nat n\<rparr>, tx', bufs', burst_bytes m xs P n)"
    "burst_done m xs P tx bufs n tx' bufs'" "at_part xs P (nth_part xs P (unat (seq_cur m) + n)) pos'"
    using am_loop_burst [OF N mm(1-4) tx(1) n sq, of 0, unfolded mm(5,6) mm(7) add_0] by blast
  have un: "unat (of_nat n :: u32) = n" using sq0 by (intro unat_of_nat_u32) linarith
  have sc: "unat (seq_cur m + of_nat n) = unat (seq_cur m) + n"
    using sq0 un by (subst unat_add_small) simp_all
  have fr: "is_fast_packet NM_N2H (bufs' (buf_at tx i)) \<and> validate_ip_checksum (peek 14 20 (bufs' (buf_at tx i))) = 0"
    if "i < n" for i
  proof -
    have "bufs' (buf_at tx i) = am_frame m xs (nth_part xs P (unat (seq_cur m) + i)) (bufs (buf_at tx i))"
      using r(2) that by (simp add: burst_done_def Let_def)
    then show ?thesis
      using am_frame_props [OF m] am_front_fields [OF m(2)] by (simp add: am_frame_def peek_append_left)
  qed
  let ?z = "\<lambda>x. (is_tv_last_data m OR x) AND 16"
  have z: "?z 1 = is_tv_last_data m AND 16" "(is_tv_last_data m OR 18) AND 16 \<noteq> 0"
    "(is_tv_last_data m OR 19) AND 16 \<noteq> 0"
    by (simp_all add: flag_bits)
  have int_n: "min max_pkt (int (nm_ring_space N tx)) = int n" using max by (simp add: n_def)
  define m1 where "m1 = ?m\<lparr>m_fd := Some pos', seq_cur := seq_cur ?m + of_nat n\<rparr>"
  define over where "over \<longleftrightarrow> seq_end_max m1 \<le> seq_cur m1"
  define m2 where "m2 = (if over then m1\<lparr>is_tv_last_data := is_tv_last_data m1 OR 0x01\<rparr> else m1)"
  define fin where "fin \<longleftrightarrow> seq_end m2 \<le> seq_cur m2 \<and> n_init m2 = n_first_seq m2 \<and> is_tv_last_data m2 AND 0x10 = 0"
  define m3 where "m3 = (if fin then m2\<lparr>is_tv_last_data := is_tv_last_data m2 OR 0x12\<rparr> else m2)"
  define m4 where "m4 = m3\<lparr>n_byte := n_byte m3 + burst_bytes m xs P n, n_packet := n_packet m3 + int n,
      n_byte_total := n_byte_total m3 + burst_bytes m xs P n, n_packet_total := n_packet_total m3 + int n\<rparr>"
  define m5 where "m5 = (if bcd_state m4 = BCDSTATE_ATTEMPT then m4\<lparr>n_byte_attempt := n_byte_attempt m4 + burst_bytes m xs P n,
      n_packet_attempt := n_packet_attempt m4 + int n\<rparr> else m4)"
  note defs = m1_def over_def m2_def fin_def m3_def m4_def m5_def
  have e: "am_process_rings N now xs max_pkt (m, tx, bufs)
      = Inr (m5, tx', bufs', int n, if over \<or> fin then Some (slot_before tx', rg_tail tx') else None, fin)"
    using r(1) unfolding am_process_rings_def prod.case Let_def int_n nat_int
    by (simp only: rbind_simps prod.case defs)
  have c: "seq_cur m5 = seq_cur m + of_nat n" "n_packet_total m5 = n_packet_total m + int n"
    "n_byte_total m5 = n_byte_total m + burst_bytes m xs P n"
    by (simp_all add: m5_def m4_def m3_def m2_def m1_def)
  have t: "is_tv_last_data m1 = is_tv_last_data m" "is_tv_last_data m2 AND 16 = is_tv_last_data m AND 16"
    using z(1) by (simp_all add: m2_def m1_def)
  have f: "fin \<longleftrightarrow> seq_end m \<le> seq_cur m5 \<and> n_init m = n_first_seq m \<and> is_tv_last_data m AND 0x10 = 0"
    unfolding fin_def t(2) c(1) by (simp add: m2_def m1_def)
  have b: "fin \<longrightarrow> is_tv_last_data m5 AND 16 \<noteq> 0"
    by (simp add: m5_def m4_def m3_def flag_bits)
  have "source_of_packets m5 = source_of_packets m4" "source_of_packets m4 = source_of_packets m3"
    "source_of_packets m3 = source_of_packets m2" "source_of_packets m2 = source_of_packets m1"
    "source_of_packets m1 = source_of_packets m" "m_fd m5 = m_fd m4" "m_fd m4 = m_fd m3" "m_fd m3 = m_fd m2" "m_fd m2 = m_fd m1"
    by (simp_all add: m5_def m4_def m3_def m2_def m1_def source_of_packets_def)
  then have src: "source_of_packets m5 = source_of_packets m" "m_fd m5 = Some pos'" by (simp_all add: m1_def)
  note k = source_same [OF src(1)]
  show ?thesis
    unfolding e int_n using r(2,3) fr f b sc c m k src(2) by (intro exI conjI) (rule refl | assumption | simp)+
qed

text \<open>C27: A burst of \<^verbatim>\<open>am_process_rings\<close>.  It sends as many packets as allowed and as the ring has room for, never more.
  Slot by slot from the position of the ring, the buffers get complete frames of consecutive parts of the file,
  starting over behind the last part: Ethernet, IP and UDP headers with the right lengths and a checksum that validates,
  the data header, the bytes of the part, and behind part 0 the metadata.  No other buffer is touched, the slots keep
  their buffers and get the lengths of their frames.  The sequence number and all counters advance by what was sent,
  and the mark that ends the transmission is set at most once.\<close>

theorem am_process_rings_sends:
  assumes N: "netmap N" and m: "sends m xs P" "headers_ok m" and fd: "m_fd m = Some pos"
    and pos: "at_part xs P (nth_part xs P (unat (seq_cur m))) pos"
    and tx: "tx_ok P tx bufs" "rg_tail tx < num_slots tx" and seq: "unat (seq_cur m) + num_slots tx < 2 ^ 32"
    and max: "0 \<le> max_pkt"
  shows "\<exists>m' tx' bufs' n mark fin. am_process_rings N now xs max_pkt (m, tx, bufs) = Inr (m', tx', bufs', int n, mark, fin)
    \<and> int n = min max_pkt (int (nm_ring_space N tx)) \<and> burst_done m xs P tx bufs n tx' bufs'
    \<and> (\<forall>i<n. is_fast_packet NM_N2H (bufs' (buf_at tx i)) \<and> validate_ip_checksum (peek 14 20 (bufs' (buf_at tx i))) = 0)
    \<and> unat (seq_cur m') = unat (seq_cur m) + n \<and> n_packet_total m' = n_packet_total m + int n
    \<and> n_byte_total m' = n_byte_total m + burst_bytes m xs P n
    \<and> (fin \<longleftrightarrow> seq_end m \<le> seq_cur m' \<and> n_init m = n_first_seq m \<and> is_tv_last_data m AND 0x10 = 0)
    \<and> (fin \<longrightarrow> mark \<noteq> None \<and> is_tv_last_data m' AND 0x10 \<noteq> 0)"
  using am_process_rings_spec [OF assms, where now = now] by blast

definition example_multicast :: "nat list MulticastState" where
  "example_multicast = (zero_multicast [])\<lparr>m_fd := Some 0, m_byte_payload := 2, m_byte_payload_min := 1, m_seq_max := 3,
     m_data_size := 5, eth_hdr := replicate 12 0 @ [8, 0], ip_hdr := 0x45 # replicate 8 0 @ [17] @ replicate 10 0,
     udp_hdr := initUDPHeader (replicate UDP_HDRLEN 0) 0 DATA_SRC_PORT DATA_DST_PORT, seq_end := SEQNUM_MAX\<rparr>"

definition example_ring :: ring where
  "example_ring = \<lparr>num_slots = 4, rg_head = 0, rg_cur = 0, rg_tail = 3,
     rg_slot = map (\<lambda>i. \<lparr>sl_buf = i, sl_len = 0, sl_flags = 0\<rparr>) [0..<4]\<rparr>"

lemma example_sends: "sends example_multicast [1, 2, 3, 4, 5] 2" "headers_ok example_multicast"
  "tx_ok 2 example_ring (\<lambda>_. replicate 200 0)"
  by (auto simp: example_multicast_def example_ring_def sends_def headers_ok_def n_packets_def last_bytes_def peek_def
      tx_ok_def inj_on_def nth_append const_defs)

theorem am_process_rings_sends_witness:
  "\<exists>m' tx' bufs' mark fin. am_process_rings list_netmap TV0 [1, 2, 3, 4, 5] 7
      (example_multicast, example_ring, \<lambda>_. replicate 200 0) = Inr (m', tx', bufs', 3, mark, fin)
    \<and> unat (seq_cur m') = 3 \<and> is_fast_packet NM_N2H (bufs' 2)"
proof -
  have e: "m_fd example_multicast = Some 0" "at_part [1, 2, 3, 4, 5] 2 (nth_part [1, 2, 3, 4, 5] 2 (unat (seq_cur example_multicast))) 0"
    "rg_tail example_ring < num_slots example_ring" "unat (seq_cur example_multicast) + num_slots example_ring < 2 ^ 32"
    "nm_ring_space list_netmap example_ring = 3" "buf_at example_ring 2 = 2" "seq_cur example_multicast = 0"
    by (simp_all add: example_multicast_def zero_multicast_def example_ring_def at_part_def nth_part_def list_netmap_def buf_at_def ring_at_def)
  obtain m' tx' bufs' n mark fin where r: "am_process_rings list_netmap TV0 [1, 2, 3, 4, 5] 7
      (example_multicast, example_ring, \<lambda>_. replicate 200 0) = Inr (m', tx', bufs', int n, mark, fin)"
    "int n = min 7 (int (nm_ring_space list_netmap example_ring))"
    "\<forall>i<n. is_fast_packet NM_N2H (bufs' (buf_at example_ring i))
       \<and> validate_ip_checksum (peek 14 20 (bufs' (buf_at example_ring i))) = 0" "unat (seq_cur m') = unat (seq_cur example_multicast) + n"
    using am_process_rings_sends [OF ln.netmap_axioms example_sends(1,2) e(1,2) example_sends(3) e(3,4), of 7 TV0, simplified] by blast
  have "n = 3" using r(2) e(5) by simp
  then have "is_fast_packet NM_N2H (bufs' 2)" using r(3) [rule_format, of 2] e(6) by simp
  with \<open>n = 3\<close> show ?thesis using r(1,4) e(7) by auto
qed

lemma am_upgrade_same:
  assumes "m1 = am_fullrate cf now (am_attempt cf now m)"
  shows "seq_cur m1 = seq_cur m" "seq_end m1 = seq_end m" "is_tv_last_data m1 = is_tv_last_data m"
    "n_init m1 = n_init m" "n_first_seq m1 = n_first_seq m" "sender_heap m1 = sender_heap m"
  by (simp_all add: assms am_fullrate_def am_attempt_def multicastState_updateRate_def)

lemma am_upgrade_state:
  assumes "m1 = am_fullrate cf now (am_attempt cf now m)"
  shows "bcd_state m1 \<noteq> bcd_state m \<longrightarrow>
         bcd_state m = BCDSTATE_INITIATED \<and> bcd_state m1 \<in> {BCDSTATE_ATTEMPT, BCDSTATE_FULLRATE} \<and> n_packet_total m = 0
       \<or> bcd_state m = BCDSTATE_ATTEMPT \<and> bcd_state m1 = BCDSTATE_FULLRATE"
  by (simp add: assms am_fullrate_def am_attempt_def multicastState_updateRate_def)

lemma end_mark_set: "((b :: u8) OR 0x14) AND 0x10 \<noteq> 0"
proof -
  have "(0x14 :: u8) = 4 OR 16" by simp
  then have "(b OR 0x14) AND 16 = ((b OR 4) OR 16) AND 16" by (simp add: or.assoc)
  then show ?thesis by (simp only: word_ao_absorbs) simp
qed

lemma packets_left:
  assumes "(cur :: u32) \<le> e" "unat (e - cur) < 2 ^ 31"
  shows "to_s32 (e - cur) = int (unat e) - int (unat cur)"
  using assms by (simp add: to_s32_def sint_small unat_sub_small word_le_nat_alt of_nat_diff)

lemma am_n_pkt_queued_alive:
  assumes "am_n_pkt_queued cf now tx m = r" "m1 = am_fullrate cf now (am_attempt cf now m)" "bcd_state m \<noteq> BCDSTATE_DEAD"
  shows "r = (if bcd_state m1 = BCDSTATE_FULLRATE \<and> seq_end m \<le> seq_cur m \<and> n_init m = n_first_seq m
       then (if is_tv_last_data m AND 0x10 = 0
         then (0, m1\<lparr>is_tv_last_data := is_tv_last_data m OR 0x14\<rparr>, Some (slot_before tx, rg_tail tx))
         else (0, m1, None))
       else if is_tv_last_data m AND 0x10 \<noteq> 0 then (0, m1, None)
       else if am_credit now m1 < 0 then (0, m1, None)
       else if seq_end m \<noteq> SEQNUM_MAX
       then (if to_s32 (seq_end m - seq_cur m) < am_credit now m1 then to_s32 (seq_end m - seq_cur m)
             else am_credit now m1, m1, None)
       else (am_credit now m1, m1, None))"
  using am_upgrade_same [OF assms(2)] assms(3)
  unfolding assms(1) [symmetric] am_n_pkt_queued_def mx_ring_empty_def Let_def assms(2) [symmetric] by simp

text \<open>The states, after the upgrade of the rate, in which nothing may be sent.\<close>

definition queue_closed :: "timeval \<Rightarrow> 's MulticastState \<Rightarrow> bool" where
  "queue_closed now m \<longleftrightarrow> bcd_state m = BCDSTATE_DEAD \<or> is_tv_last_data m AND 0x10 \<noteq> 0 \<or> am_credit now m < 0
     \<or> bcd_state m = BCDSTATE_FULLRATE \<and> seq_end m \<le> seq_cur m \<and> n_init m = n_first_seq m"

text \<open>The end of the transmission is reached, and not yet marked.\<close>

definition end_due :: "'s MulticastState \<Rightarrow> bool" where
  "end_due m \<longleftrightarrow> bcd_state m = BCDSTATE_FULLRATE \<and> seq_end m \<le> seq_cur m \<and> n_init m = n_first_seq m
     \<and> is_tv_last_data m AND 0x10 = 0"

lemma am_n_pkt_queued_cases:
  assumes r: "am_n_pkt_queued cf now tx m = (n, m', mark)"
  shows "\<exists>m1. (bcd_state m = BCDSTATE_DEAD \<longrightarrow> m1 = m) \<and> (bcd_state m \<noteq> BCDSTATE_DEAD \<longrightarrow> m1 = am_fullrate cf now (am_attempt cf now m))
    \<and> m' = (if end_due m1 then m1\<lparr>is_tv_last_data := is_tv_last_data m OR 0x14\<rparr> else m1)
    \<and> mark = (if end_due m1 then Some (slot_before tx, rg_tail tx) else None)
    \<and> n = (if queue_closed now m1 then 0
           else if seq_end m \<noteq> SEQNUM_MAX \<and> to_s32 (seq_end m - seq_cur m) < am_credit now m1
           then to_s32 (seq_end m - seq_cur m) else am_credit now m1)"
proof (cases "bcd_state m = BCDSTATE_DEAD")
  case True
  then have "n = 0" "m' = m" "mark = None" using r by (simp_all add: am_n_pkt_queued_def mx_ring_empty_def)
  with True show ?thesis by (intro exI [of _ m]) (simp add: end_due_def queue_closed_def)
next
  case False
  define m1 where m1: "m1 = am_fullrate cf now (am_attempt cf now m)"
  note same = am_upgrade_same [OF m1] and st = am_upgrade_state [OF m1] and q = am_n_pkt_queued_alive [OF r m1 False]
  have d: "bcd_state m1 \<noteq> BCDSTATE_DEAD" using st False by auto
  let ?over = "bcd_state m1 = BCDSTATE_FULLRATE \<and> seq_end m \<le> seq_cur m \<and> n_init m = n_first_seq m"
  let ?flag = "is_tv_last_data m AND 0x10 = 0"
  have due: "end_due m1 \<longleftrightarrow> ?over \<and> ?flag" unfolding end_due_def same by blast
  have cl: "queue_closed now m1 \<longleftrightarrow> \<not> ?flag \<or> am_credit now m1 < 0 \<or> ?over"
    unfolding queue_closed_def same using d by blast
  have main: "m' = (if ?over \<and> ?flag then m1\<lparr>is_tv_last_data := is_tv_last_data m OR 0x14\<rparr> else m1)
    \<and> mark = (if ?over \<and> ?flag then Some (slot_before tx, rg_tail tx) else None)
    \<and> n = (if \<not> ?flag \<or> am_credit now m1 < 0 \<or> ?over then 0
           else if seq_end m \<noteq> SEQNUM_MAX \<and> to_s32 (seq_end m - seq_cur m) < am_credit now m1
           then to_s32 (seq_end m - seq_cur m) else am_credit now m1)"
  proof (cases ?over)
    case True
    then show ?thesis using q by (cases ?flag) (simp_all only: if_True if_False simp_thms prod.inject)
  next
    case o: False
    show ?thesis
    proof (cases ?flag)
      case True
      then show ?thesis using q unfolding if_not_P [OF o] by (auto simp: o split: if_splits)
    next
      case False
      then show ?thesis using q unfolding if_not_P [OF o] by (simp add: o)
    qed
  qed
  have up: "bcd_state m \<noteq> BCDSTATE_DEAD \<longrightarrow> m1 = am_fullrate cf now (am_attempt cf now m)" using m1 by (rule impI)
  have no: "bcd_state m = BCDSTATE_DEAD \<longrightarrow> m1 = m" using False by (rule impI [OF notE])
  show ?thesis using no up main unfolding due [symmetric] cl [symmetric] by (intro exI [of _ m1] conjI) (elim conjE, assumption)+
qed

text \<open>C28: \<^verbatim>\<open>am_n_pkt_queued\<close> decides how much the data thread may send, and ends the transmission.  The number is zero while
  the multicast is dead, marked as ended, without credit, or at full rate and at its end with every receiver counted; otherwise it
  is the credit of its rate, and with a known end the smaller one of the credit and what is left, so that never a packet is sent
  behind the end.  The end is marked, at the last slot that is filled and with the tail of the ring, exactly when the multicast
  is at full rate and at its end, every receiver has been counted, and it has not been marked before; the mark is kept in the
  multicast, so that the next call does not mark again, and nothing is sent then.  The only state changes are those of the rate: a
  first attempt, then full rate.\<close>

theorem am_n_pkt_queued_bound:
  assumes r: "am_n_pkt_queued cf now tx m = (n, m', mark)"
  shows "(bcd_state m = BCDSTATE_DEAD \<longrightarrow> n = 0 \<and> m' = m \<and> mark = None)
    \<and> (is_tv_last_data m AND 0x10 \<noteq> 0 \<longrightarrow> n = 0 \<and> mark = None)
    \<and> (bcd_state m = BCDSTATE_FULLRATE \<and> seq_end m \<le> seq_cur m \<and> n_init m = n_first_seq m \<longrightarrow> n = 0)
    \<and> (let due = (bcd_state m' = BCDSTATE_FULLRATE \<and> seq_end m \<le> seq_cur m \<and> n_init m = n_first_seq m
                \<and> is_tv_last_data m AND 0x10 = 0)
       in mark = (if due then Some (slot_before tx, rg_tail tx) else None)
          \<and> is_tv_last_data m' = (if due then is_tv_last_data m OR 0x14 else is_tv_last_data m)
          \<and> (due \<longrightarrow> n = 0 \<and> is_tv_last_data m' AND 0x10 \<noteq> 0))
    \<and> (queue_closed now m' \<longrightarrow> n = 0)
    \<and> (\<not> queue_closed now m' \<and> seq_end m = SEQNUM_MAX \<longrightarrow> n = am_credit now m')
    \<and> (\<not> queue_closed now m' \<and> seq_end m \<noteq> SEQNUM_MAX \<and> seq_cur m \<le> seq_end m \<and> unat (seq_end m - seq_cur m) < 2 ^ 31
         \<longrightarrow> n = min (am_credit now m') (int (unat (seq_end m)) - int (unat (seq_cur m))))
    \<and> (seq_end m \<noteq> SEQNUM_MAX \<and> seq_cur m \<le> seq_end m \<and> unat (seq_end m - seq_cur m) < 2 ^ 31
         \<longrightarrow> 0 \<le> n \<and> n \<le> int (unat (seq_end m)) - int (unat (seq_cur m)))
    \<and> seq_cur m' = seq_cur m \<and> seq_end m' = seq_end m \<and> sender_heap m' = sender_heap m
    \<and> (bcd_state m' \<noteq> bcd_state m \<longrightarrow>
         bcd_state m = BCDSTATE_INITIATED \<and> bcd_state m' \<in> {BCDSTATE_ATTEMPT, BCDSTATE_FULLRATE} \<and> n_packet_total m = 0
       \<or> bcd_state m = BCDSTATE_ATTEMPT \<and> bcd_state m' = BCDSTATE_FULLRATE)"
proof -
  obtain m1 where m1: "bcd_state m = BCDSTATE_DEAD \<longrightarrow> m1 = m" "bcd_state m \<noteq> BCDSTATE_DEAD \<longrightarrow> m1 = am_fullrate cf now (am_attempt cf now m)"
    and m': "m' = (if end_due m1 then m1\<lparr>is_tv_last_data := is_tv_last_data m OR 0x14\<rparr> else m1)"
    and mark: "mark = (if end_due m1 then Some (slot_before tx, rg_tail tx) else None)"
    and n: "n = (if queue_closed now m1 then 0
           else if seq_end m \<noteq> SEQNUM_MAX \<and> to_s32 (seq_end m - seq_cur m) < am_credit now m1
           then to_s32 (seq_end m - seq_cur m) else am_credit now m1)"
    using am_n_pkt_queued_cases [OF r] by blast
  have same: "seq_cur m1 = seq_cur m" "seq_end m1 = seq_end m" "is_tv_last_data m1 = is_tv_last_data m" "n_init m1 = n_init m"
    "n_first_seq m1 = n_first_seq m" "sender_heap m1 = sender_heap m"
    using m1 am_upgrade_same [of m1 cf now m] by (cases "bcd_state m = BCDSTATE_DEAD"; simp)+
  have st: "bcd_state m1 \<noteq> bcd_state m \<longrightarrow>
         bcd_state m = BCDSTATE_INITIATED \<and> bcd_state m1 \<in> {BCDSTATE_ATTEMPT, BCDSTATE_FULLRATE} \<and> n_packet_total m = 0
       \<or> bcd_state m = BCDSTATE_ATTEMPT \<and> bcd_state m1 = BCDSTATE_FULLRATE"
    using m1 am_upgrade_state [of m1 cf now m] by (cases "bcd_state m = BCDSTATE_DEAD") simp_all
  have up: "bcd_state m' = bcd_state m1" "am_credit now m' = am_credit now m1" "seq_cur m' = seq_cur m" "seq_end m' = seq_end m"
    "sender_heap m' = sender_heap m" "n_init m' = n_init m" "n_first_seq m' = n_first_seq m"
    "is_tv_last_data m' = (if end_due m1 then is_tv_last_data m OR 0x14 else is_tv_last_data m)"
    using m' same by (simp_all add: am_credit_def)
  have due: "bcd_state m' = BCDSTATE_FULLRATE \<and> seq_end m \<le> seq_cur m \<and> n_init m = n_first_seq m \<and> is_tv_last_data m AND 0x10 = 0
      \<longleftrightarrow> end_due m1" unfolding end_due_def up same by blast
  have cl: "queue_closed now m' = queue_closed now m1"
  proof (cases "end_due m1")
    case True
    then have "queue_closed now m1" by (simp add: queue_closed_def end_due_def)
    moreover have "queue_closed now m'" using True up(8) by (simp add: queue_closed_def end_mark_set)
    ultimately show ?thesis by simp
  next
    case False
    then show ?thesis using m' by simp
  qed
  have c0: "0 \<le> am_credit now m1" if "\<not> queue_closed now m1" using that by (simp add: queue_closed_def)
  have z: "end_due m1 \<Longrightarrow> queue_closed now m1" "is_tv_last_data m AND 0x10 \<noteq> 0 \<Longrightarrow> queue_closed now m1 \<and> \<not> end_due m1"
    "bcd_state m = BCDSTATE_DEAD \<Longrightarrow> queue_closed now m1 \<and> \<not> end_due m1"
    "bcd_state m = BCDSTATE_FULLRATE \<and> seq_end m \<le> seq_cur m \<and> n_init m = n_first_seq m \<Longrightarrow> queue_closed now m1"
    using same st m1(1) by (auto simp: queue_closed_def end_due_def)
  have left: "to_s32 (seq_end m - seq_cur m) = int (unat (seq_end m)) - int (unat (seq_cur m))"
    if "seq_cur m \<le> seq_end m" "unat (seq_end m - seq_cur m) < 2 ^ 31" using packets_left [OF that] .
  have le: "int (unat (seq_cur m)) \<le> int (unat (seq_end m))" if "seq_cur m \<le> seq_end m" using that by (simp add: word_le_def)
  show ?thesis
    unfolding Let_def due cl up(2)
  proof (intro conjI impI)
    assume "queue_closed now m1" then show "n = 0" using n by simp
  qed (use z n mark m' m1(1) st up left le c0 end_mark_set in \<open>auto simp: min_def split: if_splits\<close>)
qed

definition example_config :: config where
  "example_config = \<lparr>hostinaddress_ctrl = 0, hostinaddress_data = 0, hostethhdr_data = [], data_payload_len = 2,
       seq_zero_notify = False, connect_controller = False, first_first_seq_fullrate = True, attempt_scale = 2, nm_burst = 4,
       cf_rate_type = RATE_GBPS, rate_f = 1, ctrl_nic_name = []\<rparr>"

theorem am_n_pkt_queued_bound_witness:
  "(\<exists>n m' mark. am_n_pkt_queued example_config (Timeval 5 0) example_ring
       (example_multicast\<lparr>bcd_state := BCDSTATE_FULLRATE, seq_end := 5, seq_cur := 2\<rparr>) = (n, m', mark) \<and> 0 \<le> n \<and> n \<le> 3)
   \<and> (\<exists>m'. am_n_pkt_queued example_config (Timeval 5 0) example_ring
       (example_multicast\<lparr>bcd_state := BCDSTATE_FULLRATE, seq_end := 5, seq_cur := 5\<rparr>) = (0, m', Some (3, 3)))"
proof
  let ?m = "example_multicast\<lparr>bcd_state := BCDSTATE_FULLRATE, seq_end := 5, seq_cur := 2\<rparr>"
  obtain n m' mark where q: "am_n_pkt_queued example_config (Timeval 5 0) example_ring ?m = (n, m', mark)" by (metis surj_pair)
  have "seq_end ?m \<noteq> SEQNUM_MAX \<and> seq_cur ?m \<le> seq_end ?m \<and> unat (seq_end ?m - seq_cur ?m) < 2 ^ 31
         \<longrightarrow> 0 \<le> n \<and> n \<le> int (unat (seq_end ?m)) - int (unat (seq_cur ?m))"
    using am_n_pkt_queued_bound [OF q] by blast
  moreover have "(5 :: u32) \<noteq> SEQNUM_MAX" by code_simp
  ultimately have "0 \<le> n \<and> n \<le> 3" by simp
  with q show "\<exists>n m' mark. am_n_pkt_queued example_config (Timeval 5 0) example_ring ?m = (n, m', mark) \<and> 0 \<le> n \<and> n \<le> 3" by blast
next
  let ?m = "example_multicast\<lparr>bcd_state := BCDSTATE_FULLRATE, seq_end := 5, seq_cur := 5\<rparr>"
  obtain n m' mark where q: "am_n_pkt_queued example_config (Timeval 5 0) example_ring ?m = (n, m', mark)" by (metis surj_pair)
  have u: "bcd_state ?m = BCDSTATE_FULLRATE" "seq_end ?m \<le> seq_cur ?m" "n_init ?m = n_first_seq ?m" "is_tv_last_data ?m AND 0x10 = 0"
    by (simp_all add: example_multicast_def zero_multicast_def)
  have st: "bcd_state m' \<noteq> bcd_state ?m \<longrightarrow> bcd_state ?m = BCDSTATE_INITIATED \<or> bcd_state ?m = BCDSTATE_ATTEMPT"
    using am_n_pkt_queued_bound [OF q] by blast
  then have d: "bcd_state m' = BCDSTATE_FULLRATE" by (auto simp: u(1))
  have "mark = Some (slot_before example_ring, rg_tail example_ring) \<and> n = 0"
    using am_n_pkt_queued_bound [OF q] unfolding Let_def using d u by simp
  moreover have "slot_before example_ring = 3" "rg_tail example_ring = 3"
    by (simp_all add: slot_before_def example_ring_def)
  ultimately show "\<exists>m'. am_n_pkt_queued example_config (Timeval 5 0) example_ring ?m = (0, m', Some (3, 3))" using q by auto
qed

subsection \<open>Properties: moving packets\<close>

text \<open>The packets that are taken from the receive ring, and what the receivers make of those of the fast path.\<close>

definition taken :: "ring \<Rightarrow> nat \<Rightarrow> slot list" where
  "taken rx i = map (\<lambda>l. rg_slot rx ! ring_at rx l) [0..<i]"

definition fast_slot :: "(nat \<Rightarrow> byte list) \<Rightarrow> u8 \<Rightarrow> slot \<Rightarrow> bool" where
  "fast_slot bufs dirc s \<longleftrightarrow> is_fast_packet dirc (bufs (sl_buf s))"

definition deliver :: "config \<Rightarrow> timeval \<Rightarrow> bool \<times> bool \<Rightarrow> byte list list \<Rightarrow> ('q, 's, 'u) agent \<Rightarrow> ('q, 's, 'u) agent res" where
  "deliver cf now opens ps g = foldl (\<lambda>x p. rbind x (data_packet cf now opens p)) (Inr g) ps"

lemma deliver_snoc: "deliver cf now opens (ps @ [p]) g = rbind (deliver cf now opens ps g) (data_packet cf now opens p)"
  by (simp add: deliver_def)

lemma taken_Suc: "taken rx (Suc i) = taken rx i @ [rg_slot rx ! ring_at rx i]"
  by (simp add: taken_def)

lemma process_loop_cons: "process_loop N cf now opens bufs dirc (Suc i) st
    = rbind (process_loop N cf now opens bufs dirc (Suc 0) st) (process_loop N cf now opens bufs dirc i)"
proof -
  obtain rx tx j k n g where st: "st = (rx, tx, j, k, n, g)" by (cases st)
  show ?thesis
    by (simp add: st rbind_assoc split: prod.splits) (simp add: rbind_def split: sum.splits prod.splits)
qed

lemma process_loop_snoc:
  fixes st :: "ring \<times> ring \<times> nat \<times> nat \<times> nat \<times> ('q, 's, 'u) agent"
  shows "process_loop N cf now opens bufs dirc (Suc i) st
    = rbind (process_loop N cf now opens bufs dirc i st) (process_loop N cf now opens bufs dirc (Suc 0))"
proof (induction i arbitrary: st)
  case 0
  then show ?case by (simp del: process_loop.simps(2))
next
  case (Suc i)
  let ?p = "process_loop N cf now opens bufs dirc"
  have f: "?p (Suc i) = (\<lambda>st :: ring \<times> ring \<times> nat \<times> nat \<times> nat \<times> ('q, 's, 'u) agent. rbind (?p i st) (?p (Suc 0)))"
    by (intro ext) (rule Suc.IH)
  have "?p (Suc (Suc i)) st = rbind (?p (Suc 0) st) (?p (Suc i))" by (rule process_loop_cons)
  also have "\<dots> = rbind (rbind (?p (Suc 0) st) (?p i)) (?p (Suc 0))" unfolding f by (rule rbind_assoc [symmetric])
  also have "rbind (?p (Suc 0) st) (?p i) = ?p (Suc i) st" by (rule process_loop_cons [symmetric])
  finally show ?case .
qed

text \<open>After \<open>i\<close> packets: positions, slots, buffers and receivers.\<close>

definition moved :: "(nat \<Rightarrow> byte list) \<Rightarrow> u8 \<Rightarrow> ring \<Rightarrow> nat \<Rightarrow> slot list" where
  "moved bufs dirc rx i = filter (\<lambda>s. \<not> fast_slot bufs dirc s) (taken rx i)"

definition buffers :: "ring \<Rightarrow> ring \<Rightarrow> nat multiset" where
  "buffers rx tx = mset (map sl_buf (rg_slot rx)) + mset (map sl_buf (rg_slot tx))"

definition move_inv :: "config \<Rightarrow> timeval \<Rightarrow> bool \<times> bool \<Rightarrow> (nat \<Rightarrow> byte list) \<Rightarrow> u8 \<Rightarrow> ring \<Rightarrow> ring \<Rightarrow> ('q, 's, 'u) agent
    \<Rightarrow> nat \<Rightarrow> ring \<times> ring \<times> nat \<times> nat \<times> nat \<times> ('q, 's, 'u) agent \<Rightarrow> bool" where
  "move_inv cf now opens bufs dirc rx tx g i st \<longleftrightarrow> (case st of (rx', tx', j, k, n, g') \<Rightarrow>
     j = ring_at rx i \<and> n = length (moved bufs dirc rx i) \<and> k = ring_at tx n
   \<and> num_slots rx' = num_slots rx \<and> num_slots tx' = num_slots tx
   \<and> length (rg_slot rx') = length (rg_slot rx) \<and> length (rg_slot tx') = length (rg_slot tx)
   \<and> (\<forall>l. i \<le> l \<and> l < num_slots rx \<longrightarrow> rg_slot rx' ! ring_at rx l = rg_slot rx ! ring_at rx l)
   \<and> (\<forall>l < n. sl_buf (rg_slot tx' ! ring_at tx l) = sl_buf (moved bufs dirc rx i ! l)
        \<and> sl_len (rg_slot tx' ! ring_at tx l) = sl_len (moved bufs dirc rx i ! l))
   \<and> buffers rx' tx' = buffers rx tx
   \<and> deliver cf now opens (map (\<lambda>s. bufs (sl_buf s)) (filter (fast_slot bufs dirc) (taken rx i))) g = Inr g')"

lemma mset_swap:
  assumes "j < length xs" "k < length ys"
  shows "mset (xs[j := ys ! k]) + mset (ys[k := xs ! j]) = mset xs + mset ys"
proof -
  have u: "mset (xs[j := ys ! k]) = add_mset (ys ! k) (mset xs - {#xs ! j#})"
    "mset (ys[k := xs ! j]) = add_mset (xs ! j) (mset ys - {#ys ! k#})"
    using assms by (simp_all add: mset_update)
  obtain A where A: "mset xs = add_mset (xs ! j) A" using assms(1) by (metis nth_mem_mset insert_DiffM)
  obtain B where B: "mset ys = add_mset (ys ! k) B" using assms(2) by (metis nth_mem_mset insert_DiffM)
  show ?thesis unfolding u by (simp add: A B)
qed

lemma moved_le: "length (moved bufs dirc rx i) \<le> i"
  unfolding moved_def taken_def by (rule order_trans [OF length_filter_le]) simp

lemma process_loop_inv:
  assumes N: "netmap N" and r: "process_loop N cf now opens bufs dirc i (rx, tx, rg_cur rx, rg_cur tx, 0, g) = Inr st"
    and rx: "rg_cur rx < num_slots rx" "length (rg_slot rx) = num_slots rx" "i \<le> num_slots rx"
    and tx: "rg_cur tx < num_slots tx" "length (rg_slot tx) = num_slots tx" "i \<le> num_slots tx"
  shows "move_inv cf now opens bufs dirc rx tx g i st"
  using r rx(3) tx(3)
proof (induction i arbitrary: st)
  case 0
  then show ?case using rx(1) tx(1) by (auto simp: move_inv_def ring_at_def moved_def taken_def deliver_def)
next
  case (Suc i)
  let ?f = "\<lambda>s. bufs (sl_buf s)"
  obtain rx' tx' j k n g' where m: "process_loop N cf now opens bufs dirc i (rx, tx, rg_cur rx, rg_cur tx, 0, g)
      = Inr (rx', tx', j, k, n, g')"
    and s: "process_loop N cf now opens bufs dirc (Suc 0) (rx', tx', j, k, n, g') = Inr st"
    using Suc.prems(1) unfolding process_loop_snoc [of N cf now opens bufs dirc i] by (auto simp: rbind_Inr_iff simp del: process_loop.simps)
  have "move_inv cf now opens bufs dirc rx tx g i (rx', tx', j, k, n, g')"
    using Suc.IH [OF m] Suc.prems by simp
  note inv = this [unfolded move_inv_def prod.case]
  define sl where "sl = rg_slot rx ! ring_at rx i"
  have jk: "j < length (rg_slot rx')" "k < length (rg_slot tx')" "j < num_slots rx'" "k < num_slots tx'"
    using inv rx tx by (auto simp: ring_at_def)
  have cur: "rg_slot rx' ! j = sl" using inv Suc.prems(2) by (simp add: sl_def)
  have nj: "nm_ring_next N rx' j = ring_at rx (Suc i)"
    using netmap.next_law [OF N jk(3)] inv rx by (auto simp: ring_at_def mod_Suc)
  have nj': "nm_ring_next N (rx'\<lparr>rg_slot := x\<rparr>) j = ring_at rx (Suc i)" for x
    using netmap.next_law [OF N, of j "rx'\<lparr>rg_slot := x\<rparr>"] jk(3) inv rx by (auto simp: ring_at_def mod_Suc)
  have nk: "nm_ring_next N tx' k = ring_at tx (Suc n)"
    using netmap.next_law [OF N jk(4)] inv tx by (auto simp: ring_at_def mod_Suc)
  have other: "j \<noteq> ring_at rx l" if "Suc i \<le> l" "l < num_slots rx" for l
    using ring_at_inj [of l rx i] that inv by auto
  show ?case
  proof (cases "fast_slot bufs dirc sl")
    case True
    then obtain g2 where g2: "data_packet cf now opens (bufs (sl_buf sl)) g' = Inr g2"
      "st = (rx', tx', ring_at rx (Suc i), k, n, g2)"
      using s cur by (auto simp: rbind_Inr_iff fast_slot_def nj)
    have "deliver cf now opens (map ?f (filter (fast_slot bufs dirc) (taken rx (Suc i)))) g = Inr g2"
      using True inv g2(1) by (simp add: taken_Suc deliver_snoc flip: sl_def)
    moreover have "moved bufs dirc rx (Suc i) = moved bufs dirc rx i"
      using True by (simp add: moved_def taken_Suc flip: sl_def)
    ultimately show ?thesis using inv g2(2) by (simp add: move_inv_def)
  next
    case False
    define t where "t = rg_slot tx' ! k"
    have st: "st = (rx'\<lparr>rg_slot := (rg_slot rx')[j := sl\<lparr>sl_buf := sl_buf t, sl_flags := sl_flags sl OR ns_buf_changed N\<rparr>]\<rparr>,
        tx'\<lparr>rg_slot := (rg_slot tx')[k := t\<lparr>sl_len := sl_len sl, sl_buf := sl_buf sl, sl_flags := sl_flags t OR ns_buf_changed N\<rparr>]\<rparr>,
        ring_at rx (Suc i), ring_at tx (Suc n), n + 1, g')"
      using s cur False nk by (simp add: fast_slot_def swap_slots_def t_def nj')
    have mv: "moved bufs dirc rx (Suc i) = moved bufs dirc rx i @ [sl]"
      using False by (simp add: moved_def taken_Suc flip: sl_def)
    have n: "n = length (moved bufs dirc rx i)" "k = ring_at tx n" "n < num_slots tx"
      using inv moved_le [of bufs dirc rx i] Suc.prems(3) by auto
    have dif: "k \<noteq> ring_at tx l" if "l < n" for l using ring_at_inj [of l tx n] that n by auto
    have "buffers (rx'\<lparr>rg_slot := (rg_slot rx')[j := sl\<lparr>sl_buf := sl_buf t, sl_flags := sl_flags sl OR ns_buf_changed N\<rparr>]\<rparr>)
        (tx'\<lparr>rg_slot := (rg_slot tx')[k := t\<lparr>sl_len := sl_len sl, sl_buf := sl_buf sl, sl_flags := sl_flags t OR ns_buf_changed N\<rparr>]\<rparr>)
        = buffers rx' tx'"
      using mset_swap [of j "map sl_buf (rg_slot rx')" k "map sl_buf (rg_slot tx')"] jk(1,2) cur
      by (simp add: buffers_def map_update t_def)
    moreover have "deliver cf now opens (map ?f (filter (fast_slot bufs dirc) (taken rx (Suc i)))) g = Inr g'"
      using False inv by (simp add: taken_Suc flip: sl_def)
    moreover have "\<forall>l < Suc n. sl_buf ((rg_slot tx')[k := t\<lparr>sl_len := sl_len sl, sl_buf := sl_buf sl, sl_flags := sl_flags t OR ns_buf_changed N\<rparr>] ! ring_at tx l)
          = sl_buf (moved bufs dirc rx (Suc i) ! l)
        \<and> sl_len ((rg_slot tx')[k := t\<lparr>sl_len := sl_len sl, sl_buf := sl_buf sl, sl_flags := sl_flags t OR ns_buf_changed N\<rparr>] ! ring_at tx l)
          = sl_len (moved bufs dirc rx (Suc i) ! l)"
      using inv n dif jk(2) by (auto simp: mv nth_append less_Suc_eq)
    ultimately show ?thesis using inv mv other unfolding st by (simp add: move_inv_def)
  qed
qed

text \<open>C29: \<^verbatim>\<open>process_rings\<close> neither loses nor duplicates a packet or a buffer.  When it returns, it has taken the first
  packets of the receive ring, as many as the limit and the space of both rings allow.  Those of the fast path were
  given to their receivers in the order of arrival; all others, and only those, are in the transmit ring in
  the order of arrival with their lengths, their number is the result, and both rings advance accordingly.  Each buffer
  is still in exactly one slot of the two rings.\<close>

theorem process_rings_moves:
  assumes "netmap N" and "process_rings N cf now opens bufs limit dirc (rx, tx, g) = Inr (rx', tx', n, g')"
    and "rg_cur rx < num_slots rx" "rg_tail rx < num_slots rx" "length (rg_slot rx) = num_slots rx"
    and "rg_cur tx < num_slots tx" "rg_tail tx < num_slots tx" "length (rg_slot tx) = num_slots tx"
  shows "\<exists>i. i = min (min limit (nm_ring_space N rx)) (nm_ring_space N tx)
    \<and> rg_cur rx' = ring_at rx i \<and> n = length (moved bufs dirc rx i) \<and> rg_cur tx' = ring_at tx n
    \<and> (\<forall>l < n. sl_buf (rg_slot tx' ! ring_at tx l) = sl_buf (moved bufs dirc rx i ! l)
        \<and> sl_len (rg_slot tx' ! ring_at tx l) = sl_len (moved bufs dirc rx i ! l))
    \<and> buffers rx' tx' = buffers rx tx
    \<and> deliver cf now opens (map (\<lambda>s. bufs (sl_buf s)) (filter (fast_slot bufs dirc) (taken rx i))) g = Inr g'"
proof -
  let ?i = "min (min limit (nm_ring_space N rx)) (nm_ring_space N tx)"
  obtain rx1 tx1 j k where r: "process_loop N cf now opens bufs dirc ?i (rx, tx, rg_cur rx, rg_cur tx, 0, g) = Inr (rx1, tx1, j, k, n, g')"
    "rx' = rx1\<lparr>rg_head := j, rg_cur := j\<rparr>" "tx' = tx1\<lparr>rg_head := k, rg_cur := k\<rparr>"
    using assms(2) by (auto simp: process_rings_def rbind_Inr_iff)
  have "?i \<le> num_slots rx" "?i \<le> num_slots tx"
    using space_lt [OF assms(1,3,4)] space_lt [OF assms(1,6,7)] by simp_all
  with process_loop_inv [OF assms(1) r(1) assms(3,5) _ assms(6,8)]
  have "move_inv cf now opens bufs dirc rx tx g ?i (rx1, tx1, j, k, n, g')" by simp
  then show ?thesis unfolding r(2,3) by (simp add: move_inv_def buffers_def)
qed

theorem process_rings_moves_witness:
  "\<exists>rx' tx' g'. process_rings list_netmap example_config TV0 (True, True) (\<lambda>_. replicate 60 0) 2 NM_H2N
      (example_ring, example_ring, initSharedDataStructures (cmp_skiplist (\<lambda>_ _. 1)) :: (nat, nat, BcdID list) agent) = Inr (rx', tx', 2, g')
    \<and> buffers rx' tx' = buffers example_ring example_ring"
proof -
  let ?g = "initSharedDataStructures (cmp_skiplist (\<lambda>_ _. 1)) :: (nat, nat, BcdID list) agent"
  have nf: "\<not> is_fast_packet NM_H2N (replicate 60 0)" by (simp add: is_fast_packet_def const_defs)
  obtain rx' tx' g' where r: "process_rings list_netmap example_config TV0 (True, True) (\<lambda>_. replicate 60 0) 2 NM_H2N
      (example_ring, example_ring, ?g) = Inr (rx', tx', 2, g')"
    by (simp add: process_rings_def list_netmap_def example_ring_def nf numeral_2_eq_2 swap_slots_def)
  show ?thesis
    using process_rings_moves [OF ln.netmap_axioms r] r by (auto simp: example_ring_def)
qed

subsection \<open>A round of one broadcast through the receiver's rings\<close>

text \<open>Packets of one broadcast through \<^verbatim>\<open>data_packet\<close>, for a receiver that is known.\<close>

lemma data_packet_known:
  assumes "hashRecver g bid = Some rv" "r_fds_p rv \<noteq> None" "files g (r_bcd_filename rv) = Some fl"
    and "dh_bcd_id (parseDataHdr p DATA_HDR_OFFSET) = bid"
    and "fast_path now rv fl p (parseDataHdr p DATA_HDR_OFFSET) = Inr (rv', fl', out)"
  shows "data_packet cf now opens p g = Inr (g\<lparr>hashRecver := (hashRecver g)(bid \<mapsto> rv'),
    pipe_n2c := pipe_n2c g @ out, files := (files g)(r_bcd_filename rv \<mapsto> fl')\<rparr>)"
proof -
  obtain a where a: "r_fds_p rv = Some a" using assms(2) by blast
  have "r_bcd_filename rv' = r_bcd_filename rv" using fast_path_identity [OF assms(5)] by (simp add: identity_def)
  then show ?thesis
    using assms(1,3-5) a by (simp add: data_packet_def data_recver_def Let_def file_of_def put_file_def)
qed

lemma deliver_cons: "deliver cf now opens (p # ps) g = rbind (data_packet cf now opens p g) (deliver cf now opens ps)"
proof -
  have "foldl (\<lambda>x p. rbind x (data_packet cf now opens p)) x ps = rbind x (deliver cf now opens ps)" for x
  proof (cases x)
    case (Inl e)
    then show ?thesis by (induction ps arbitrary: x) (auto simp: deliver_def)
  next
    case (Inr y)
    then show ?thesis by (simp add: deliver_def)
  qed
  then show ?thesis by (simp add: deliver_def)
qed

lemma deliver_known:
  assumes "hashRecver g bid = Some rv" "r_fds_p rv \<noteq> None" "files g (r_bcd_filename rv) = Some fl"
    and "\<forall>p \<in> set ps. dh_bcd_id (parseDataHdr p DATA_HDR_OFFSET) = bid"
    and "fast_run now ps (rv, fl) = Inr (rv', fl')"
  shows "\<exists>out. deliver cf now opens ps g = Inr (g\<lparr>hashRecver := (hashRecver g)(bid \<mapsto> rv'),
    pipe_n2c := pipe_n2c g @ out, files := (files g)(r_bcd_filename rv \<mapsto> fl')\<rparr>)"
  using assms
proof (induction ps arbitrary: g rv fl)
  case Nil
  then have "g\<lparr>hashRecver := (hashRecver g)(bid \<mapsto> rv'), pipe_n2c := pipe_n2c g @ [], files := (files g)(r_bcd_filename rv \<mapsto> fl')\<rparr> = g"
    by (simp add: fun_upd_idem)
  then show ?case
    by (intro exI [of _ "[]"]) (simp only: deliver_def foldl.simps)
next
  case (Cons p ps)
  obtain r1 f1 o1 where s: "fast_path now rv fl p (parseDataHdr p DATA_HDR_OFFSET) = Inr (r1, f1, o1)"
    "fast_run now ps (r1, f1) = Inr (rv', fl')" using Cons.prems(5) by (auto simp: rbind_Inr_iff)
  let ?g = "g\<lparr>hashRecver := (hashRecver g)(bid \<mapsto> r1), pipe_n2c := pipe_n2c g @ o1, files := (files g)(r_bcd_filename rv \<mapsto> f1)\<rparr>"
  have d: "data_packet cf now opens p g = Inr ?g"
    by (rule data_packet_known [OF Cons.prems(1-3) _ s(1)]) (use Cons.prems(4) in simp)
  have i: "r_fds_p r1 = r_fds_p rv" "r_bcd_filename r1 = r_bcd_filename rv"
    using fast_path_identity [OF s(1)] by (simp_all add: identity_def)
  have "\<exists>out. deliver cf now opens ps ?g = Inr (?g\<lparr>hashRecver := (hashRecver ?g)(bid \<mapsto> rv'),
    pipe_n2c := pipe_n2c ?g @ out, files := (files ?g)(r_bcd_filename r1 \<mapsto> fl')\<rparr>)"
    by (rule Cons.IH [OF _ _ _ _ s(2)]) (use Cons.prems i in simp_all)
  then obtain out where "deliver cf now opens ps ?g = Inr (?g\<lparr>hashRecver := (hashRecver ?g)(bid \<mapsto> rv'),
    pipe_n2c := pipe_n2c ?g @ out, files := (files ?g)(r_bcd_filename r1 \<mapsto> fl')\<rparr>)" by blast
  then show ?case using i(2) by (intro exI [of _ "o1 @ out"]) (simp add: deliver_cons d del: fun_upd_apply)
qed

text \<open>The first packet of a broadcast makes its receiver.\<close>

definition src_of :: "byte list \<Rightarrow> string" where
  "src_of p = inet_ntoa (le_dec (peek (ETH_HLEN + 12) 4 p))"

lemma data_packet_new:
  assumes "hashRecver g bid = None" "hashApp g (app_id bid) \<noteq> None" "dh_bcd_id (parseDataHdr p DATA_HDR_OFFSET) = bid"
    and "find_rsock (fds_heap g) (src_of p) (rsockList g) = Inr (Some a)" "existAppDir (dirs g) (app_id bid)"
    and "createRecverState (data_payload_len cf) True True True bid = Some rv"
  shows "data_packet cf now (True, True) p g = data_packet cf now (True, True) p
    (g\<lparr>files := (files g)(BcdIdtoFilename bid \<mapsto> []), hashRecver := (hashRecver g)(bid \<mapsto> startFathPath now (rv\<lparr>r_fds_p := Some a\<rparr>))\<rparr>)"
proof -
  let ?g = "g\<lparr>files := (files g)(BcdIdtoFilename bid \<mapsto> []), hashRecver := (hashRecver g)(bid \<mapsto> startFathPath now (rv\<lparr>r_fds_p := Some a\<rparr>))\<rparr>"
  have "data_recver cf now (True, True) bid p g = Inr ?g"
    using assms(1,2,4-6) by (simp add: data_recver_def src_of_def Let_def)
  moreover have "data_recver cf now (True, True) bid p ?g = Inr ?g" by (simp add: data_recver_def)
  ultimately show ?thesis by (simp add: data_packet_def assms(3) Let_def)
qed

lemma createRecverState_fields:
  "createRecverState n True True True bid = Some rv \<Longrightarrow> r_bcd_filename rv = BcdIdtoFilename bid"
  by (auto simp: createRecverState_def)

lemma startFathPath_fields [simp]:
  "r_fds_p (startFathPath now r) = r_fds_p r" "r_bcd_filename (startFathPath now r) = r_bcd_filename r"
  by (simp_all add: startFathPath_def)

lemma deliver_new:
  assumes g: "hashRecver g bid = None" "hashApp g (app_id bid) \<noteq> None" "existAppDir (dirs g) (app_id bid)"
    and ps: "ps \<noteq> []" "\<forall>p \<in> set ps. dh_bcd_id (parseDataHdr p DATA_HDR_OFFSET) = bid
      \<and> find_rsock (fds_heap g) (src_of p) (rsockList g) = Inr (Some a)"
    and rv: "createRecverState (data_payload_len cf) True True True bid = Some rv"
    and run: "fast_run now ps (startFathPath now (rv\<lparr>r_fds_p := Some a\<rparr>), []) = Inr (rv', fl')"
  shows "\<exists>out. deliver cf now (True, True) ps g = Inr (g\<lparr>hashRecver := (hashRecver g)(bid \<mapsto> rv'),
    pipe_n2c := pipe_n2c g @ out, files := (files g)(BcdIdtoFilename bid \<mapsto> fl')\<rparr>)"
proof -
  let ?rv = "startFathPath now (rv\<lparr>r_fds_p := Some a\<rparr>)"
  let ?g = "g\<lparr>files := (files g)(BcdIdtoFilename bid \<mapsto> []), hashRecver := (hashRecver g)(bid \<mapsto> ?rv)\<rparr>"
  obtain p qs where pq: "ps = p # qs" using ps(1) by (cases ps) auto
  have fn: "r_bcd_filename ?rv = BcdIdtoFilename bid" using createRecverState_fields [OF rv] by simp
  have "deliver cf now (True, True) ps g = deliver cf now (True, True) ps ?g"
    unfolding pq deliver_cons using data_packet_new [OF g(1,2) _ _ g(3) rv] ps(2) pq by simp
  moreover obtain out where "deliver cf now (True, True) ps ?g = Inr (?g\<lparr>hashRecver := (hashRecver ?g)(bid \<mapsto> rv'),
    pipe_n2c := pipe_n2c ?g @ out, files := (files ?g)(r_bcd_filename ?rv \<mapsto> fl')\<rparr>)"
    using deliver_known [of ?g bid ?rv "[]" ps now rv' fl' cf "(True, True)"] ps(2) run fn by auto
  ultimately show ?thesis using fn by (intro exI [of _ out]) (simp del: fun_upd_apply)
qed

end
