(* ===== verification/Repair.thy ===== *)
theory Repair
  imports Recver
begin

text \<open>
  Losses on the fast path and their repair: a receiver of \<^verbatim>\<open>hero.c\<close> under every sequence of packets
  (\<^verbatim>\<open>thread_data.c\<close>), patches and \<^verbatim>\<open>MSG_FAST_DONE\<close> (\<^verbatim>\<open>thread_recv.c\<close>) that the network can bring,
  in any interleaving of the two threads.
\<close>

subsection \<open>Files that agree with what they shall become\<close>

definition agree :: "byte list \<Rightarrow> byte list \<Rightarrow> nat set \<Rightarrow> bool" where
  "agree E f D \<longleftrightarrow> length f \<le> length E \<and> (\<forall>i \<in> D. i < length f \<and> f ! i = E ! i)"

lemma length_write_at:
  "length (write_at f p bs) = (if bs = [] then length f else max (length f) (p + length bs))"
  by (auto simp: write_at_def)

lemma write_at_nth:
  assumes "bs \<noteq> []" "i < length (write_at f p bs)"
  shows "write_at f p bs ! i = (if p \<le> i \<and> i < p + length bs then bs ! (i - p) else if i < length f then f ! i else 0)"
proof -
  let ?g = "f @ replicate (p - length f) 0"
  have w: "write_at f p bs = take p ?g @ bs @ drop (p + length bs) f" and l: "length (take p ?g) = p"
    using assms(1) by (simp_all add: write_at_def)
  have gen: "(A @ bs @ B) ! i = (if i < length A then A ! i else if i < length A + length bs then bs ! (i - length A)
      else B ! (i - length A - length bs))" for A B by (auto simp: nth_append)
  have pre: "take p ?g ! i = (if i < length f then f ! i else 0)" if "i < p"
    unfolding nth_take [OF that] using that by (auto simp: nth_append)
  show ?thesis
    unfolding w gen l using pre assms(2) by (auto simp: length_write_at assms(1))
qed

lemma agree_write:
  assumes "agree E f D" "p + l \<le> length E" "peek p l E = bs"
  shows "agree E (write_at f p bs) (D \<union> {p..<p + l})"
proof (cases "l = 0")
  case True
  then show ?thesis using assms(1,3) by (simp add: write_at_def peek_def)
next
  case False
  have bs: "bs \<noteq> []" "length bs = l" using assms(2,3) False by (auto simp: peek_def)
  have b: "bs ! (i - p) = E ! i" if "p \<le> i" "i < p + l" for i
    using that assms(2,3) by (auto simp: peek_def)
  have len: "length (write_at f p bs) = max (length f) (p + l)" using bs by (simp add: length_write_at)
  have "write_at f p bs ! i = E ! i" if "i \<in> D \<union> {p..<p + l}" for i
  proof -
    have "i < length (write_at f p bs)" using that assms(1) by (auto simp: agree_def len)
    from write_at_nth [OF bs(1) this] show ?thesis using that b assms(1) bs(2) by (auto simp: agree_def)
  qed
  then show ?thesis using assms(1,2) by (auto simp: agree_def len)
qed

lemma agree_total:
  assumes "agree E f {..<length E}"
  shows "f = E"
proof -
  have "length E \<le> length f"
  proof (rule ccontr)
    assume "\<not> length E \<le> length f"
    then have "length f \<in> {..<length E}" by simp
    then show False using assms unfolding agree_def by blast
  qed
  then show ?thesis using assms by (intro nth_equalityI) (auto simp: agree_def)
qed

lemma agree_subset: "agree E f D \<Longrightarrow> D' \<subseteq> D \<Longrightarrow> agree E f D'"
  by (auto simp: agree_def)

subsection \<open>Where the parts are\<close>

text \<open>Without a loss at the end of the data the file is the data rotated to the first part received.  With such a loss,
  behind part \<open>t\<close>, the beginning of the data follows on part \<open>t\<close>, and the parts behind \<open>t\<close> go to the tail buffer.\<close>

definition start_at :: "byte list \<Rightarrow> nat \<Rightarrow> nat \<Rightarrow> nat \<Rightarrow> nat" where
  "start_at xs P first t = min ((t + 1) * P) (length xs) - first * P"

definition layout :: "byte list \<Rightarrow> nat \<Rightarrow> nat \<Rightarrow> nat \<Rightarrow> byte list" where
  "layout xs P first t = take (start_at xs P first t) (drop (first * P) xs) @ take (first * P) xs"

definition place :: "byte list \<Rightarrow> nat \<Rightarrow> nat \<Rightarrow> nat \<Rightarrow> nat \<Rightarrow> nat" where
  "place xs P first t s = (if first \<le> s then (s - first) * P else start_at xs P first t + s * P)"

definition tail_of :: "byte list \<Rightarrow> nat \<Rightarrow> nat \<Rightarrow> byte list" where
  "tail_of xs P t = drop ((t + 1) * P) xs"

definition part_span :: "byte list \<Rightarrow> nat \<Rightarrow> nat \<Rightarrow> nat \<Rightarrow> nat \<Rightarrow> nat set" where
  "part_span xs P first t s = {place xs P first t s..<place xs P first t s + length (chunk P xs s)}"

lemma length_chunk_min: "length (chunk P xs s) = min P (length xs - s * P)"
  by (simp add: chunk_def)

lemma take_chunk: "take (length (chunk P xs s)) (drop (s * P) xs) = chunk P xs s"
  by (metis chunk_def append_eq_conv_conj append_take_drop_id)

lemma first_before: "fits xs P first \<Longrightarrow> first \<le> t \<Longrightarrow> first * P < min ((t + 1) * P) (length xs)"
proof -
  assume f: "fits xs P first" and t: "first \<le> t"
  have "0 < P" using f by (simp add: fits_def)
  have "first * P \<le> t * P" using t by (rule mult_le_mono1)
  moreover have "(t + 1) * P = t * P + P" by simp
  ultimately have "first * P < (t + 1) * P" using \<open>0 < P\<close> by linarith
  then show ?thesis using first_bytes [OF f] by simp
qed

lemma length_layout:
  assumes "fits xs P first" "first \<le> t"
  shows "length (layout xs P first t) = start_at xs P first t + first * P" "0 < start_at xs P first t"
  using first_before [OF assms] by (auto simp: layout_def start_at_def)

lemma layout_part:
  assumes f: "fits xs P first" and t: "first \<le> t" and s: "s < n_packets (length xs) P" "s \<le> t"
  shows "place xs P first t s + length (chunk P xs s) \<le> length (layout xs P first t)"
    "peek (place xs P first t s) (length (chunk P xs s)) (layout xs P first t) = chunk P xs s"
    "first \<le> s \<Longrightarrow> place xs P first t s + length (chunk P xs s) \<le> start_at xs P first t"
proof -
  note fb = first_before [OF f t]
  let ?st = "start_at xs P first t"
  let ?A = "take ?st (drop (first * P) xs)"
  have lA: "length ?A = ?st" by (simp add: start_at_def)
  have part: "(s - first) * P + length (chunk P xs s) \<le> ?st \<and> peek ((s - first) * P) (length (chunk P xs s)) ?A = chunk P xs s"
    if "first \<le> s"
  proof -
    have m: "first * P \<le> s * P" "(s + 1) * P \<le> (t + 1) * P" using that s(2) by (intro mult_le_mono1; simp)+
    have d: "(s - first) * P = s * P - first * P" by (simp add: diff_mult_distrib)
    have sx: "s * P < length xs"
    proof -
      have "xs \<noteq> []" "0 < P" using f by (simp_all add: fits_def)
      then show ?thesis using chunk_nonempty [OF _ _ s(1)] length_chunk_min [of P xs s] by (cases "s * P < length xs") auto
    qed
    have le: "(s - first) * P + length (chunk P xs s) \<le> ?st"
    proof -
      have "s * P + length (chunk P xs s) = min ((s + 1) * P) (length xs)"
        using sx by (auto simp: length_chunk_min min_def)
      also have "\<dots> \<le> min ((t + 1) * P) (length xs)" using m(2) by (intro min.mono) simp_all
      finally show ?thesis unfolding d start_at_def using m(1) by linarith
    qed
    have "drop ((s - first) * P) ?A = take (?st - (s - first) * P) (drop (s * P) xs)"
      using m(1) by (simp add: drop_take d)
    moreover have "length (chunk P xs s) \<le> ?st - (s - first) * P" using le by linarith
    ultimately have "peek ((s - first) * P) (length (chunk P xs s)) ?A = take (length (chunk P xs s)) (drop (s * P) xs)"
      by (simp add: peek_def min_def)
    then show ?thesis using le by (simp only: take_chunk)
  qed
  have early: "s * P + length (chunk P xs s) \<le> first * P \<and> peek (s * P) (length (chunk P xs s)) (take (first * P) xs) = chunk P xs s"
    if "s < first"
  proof -
    have "(s + 1) * P \<le> first * P" using that by (intro mult_le_mono1) simp
    then have le: "s * P + P \<le> first * P" by simp
    then have "length (chunk P xs s) \<le> first * P - s * P" unfolding length_chunk_min by simp
    then have "peek (s * P) (length (chunk P xs s)) (take (first * P) xs) = take (length (chunk P xs s)) (drop (s * P) xs)"
      by (simp add: peek_def drop_take min_def)
    then show ?thesis using le \<open>length (chunk P xs s) \<le> first * P - s * P\<close> unfolding take_chunk by linarith
  qed
  show "place xs P first t s + length (chunk P xs s) \<le> length (layout xs P first t)"
    unfolding length_layout(1) [OF f t] place_def using part early by (cases "first \<le> s") auto
  show "first \<le> s \<Longrightarrow> place xs P first t s + length (chunk P xs s) \<le> ?st" using part by (simp add: place_def)
  show "peek (place xs P first t s) (length (chunk P xs s)) (layout xs P first t) = chunk P xs s"
  proof (cases "first \<le> s")
    case True
    then have "peek (place xs P first t s) (length (chunk P xs s)) (layout xs P first t)
        = peek ((s - first) * P) (length (chunk P xs s)) ?A"
      using part lA unfolding layout_def place_def by (simp add: peek_append_left)
    then show ?thesis using part True by simp
  next
    case False
    then show ?thesis using early lA by (simp add: layout_def place_def peek_skip)
  qed
qed

lemma spans_cover:
  assumes f: "fits xs P first" and t: "first \<le> t" and i: "i < length (layout xs P first t)"
  shows "\<exists>s \<le> t. i \<in> part_span xs P first t s"
proof -
  have P: "0 < P" using f by (simp add: fits_def)
  note fb = first_before [OF f t]
  show ?thesis
  proof (cases "i < start_at xs P first t")
    case True
    let ?d = "i div P"
    have di: "?d * P \<le> i" "i < ?d * P + P" using P dividend_less_times_div [of P i] by (simp_all add: mult.commute)
    have "i < (t + 1) * P - first * P" "i < length xs - first * P" using True by (auto simp: start_at_def)
    moreover have "(t + 1) * P - first * P = (t + 1 - first) * P" by (simp add: diff_mult_distrib)
    ultimately have d: "?d < t + 1 - first" "i + first * P < length xs" using less_mult_imp_div_less by auto
    have e: "(first + ?d) * P = first * P + ?d * P" by (simp add: add_mult_distrib)
    have "i < ?d * P + length (chunk P xs (first + ?d))" unfolding length_chunk_min e using di d(2) by linarith
    then have "i \<in> part_span xs P first t (first + ?d)" using di(1) by (simp add: part_span_def place_def)
    moreover have "first + ?d \<le> t" using d(1) t by linarith
    ultimately show ?thesis by blast
  next
    case False
    let ?j = "i - start_at xs P first t"
    let ?d = "?j div P"
    have j: "?j < first * P" using False i length_layout(1) [OF f t] by linarith
    then have d: "?d < first" by (rule less_mult_imp_div_less)
    have dj: "?d * P \<le> ?j" "?j < ?d * P + P" using P dividend_less_times_div [of P ?j] by (simp_all add: mult.commute)
    have "(?d + 1) * P \<le> first * P" using d by (intro mult_le_mono1) simp
    then have "?d * P + P \<le> length xs" using fb by simp
    then have "length (chunk P xs ?d) = P" unfolding length_chunk_min by linarith
    moreover have "start_at xs P first t + ?d * P \<le> i" "i < start_at xs P first t + ?d * P + P" using dj False by linarith+
    ultimately have "i \<in> part_span xs P first t ?d" using d by (simp add: part_span_def place_def)
    then show ?thesis using d t by (intro exI [of _ ?d]) simp
  qed
qed

subsection \<open>What the network can bring\<close>

text \<open>A patch message that carries part \<open>s\<close> of the data.\<close>

definition carries_patch :: "byte list \<Rightarrow> nat \<Rightarrow> byte list \<Rightarrow> nat \<Rightarrow> bool" where
  "carries_patch xs P m s \<longleftrightarrow>
     (let dh = parseDataHdr m MSG_HDRLEN
      in seq_num dh = of_nat s \<and> patch_data m dh = chunk P xs s
       \<and> (s = 0 \<longrightarrow> (let bm = parseBcdMetadata m (MSG_HDRLEN + DATA_HDRLEN + unat (dh_len dh))
            in bm_data_size bm = int (length xs) \<and> length (takeWhile (\<lambda>b. b \<noteq> 0) (bm_app_id bm)) < APPID_LEN)))"

text \<open>What happened so far: the packets are counted from the first one received; the last packet that arrived, and the last one that
  the fast path took; whether it stopped; the last part received before a loss of part 0 on the fast path; whether the metadata
  came with a packet that was not taken; the parts received on the fast path and by patches.\<close>

record net =
  nt_pos :: nat
  nt_last :: nat
  nt_stop :: bool
  nt_tail :: "nat option"
  nt_meta :: bool
  nt_fast :: "nat set"
  nt_patch :: "nat set"

definition got :: "net \<Rightarrow> nat set" where
  "got w = nt_fast w \<union> nt_patch w"

definition known :: "net \<Rightarrow> bool" where
  "known w \<longleftrightarrow> 0 \<in> got w \<or> nt_meta w"

datatype repair_event = FastPacket "byte list" | PatchMessage "byte list" | FastDone

text \<open>Packets of one round arrive in their order, some are lost.  When everything between the first packet and the end of the
  data is lost, the fast path rejects the rest of the round, of which it keeps only the metadata.  Patches are sent for what is
  missing, once each: for parts before the last packet, and after the end of the fast path for all.  A request across the end of
  the data is served from part 0 on, since \<^verbatim>\<open>patch_req\<close> cuts it there: part 0 is the first of the parts before \<open>first\<close> when the
  end of the round was lost, and comes before the parts behind \<open>t\<close>.\<close>

inductive net_step :: "byte list \<Rightarrow> nat \<Rightarrow> nat \<Rightarrow> net \<Rightarrow> repair_event \<Rightarrow> net \<Rightarrow> bool" for xs P first where
  packet: "\<not> nt_stop w \<Longrightarrow> nt_pos w < j \<Longrightarrow> j < n_packets (length xs) P \<Longrightarrow> s = (first + j) mod n_packets (length xs) P
    \<Longrightarrow> carries xs P p s
    \<Longrightarrow> nt_last w = 0 \<and> first \<noteq> 0 \<and> n_packets (length xs) P \<le> first + j \<longrightarrow> j = 1
    \<Longrightarrow> tp = (if first \<noteq> 0 \<and> first + nt_last w < n_packets (length xs) P \<and> n_packets (length xs) P < first + j
             then Some (first + nt_last w) else nt_tail w)
    \<Longrightarrow> net_step xs P first w (FastPacket p)
         (w\<lparr>nt_pos := j, nt_last := j, nt_stop := (j + 1 = n_packets (length xs) P), nt_tail := tp, nt_fast := insert s (nt_fast w)\<rparr>)"
| reject: "\<not> nt_stop w \<Longrightarrow> nt_pos w < j \<Longrightarrow> j < n_packets (length xs) P \<Longrightarrow> s = (first + j) mod n_packets (length xs) P
    \<Longrightarrow> carries xs P p s
    \<Longrightarrow> nt_last w = 0 \<and> first \<noteq> 0 \<and> n_packets (length xs) P \<le> first + j \<and> j \<noteq> 1
    \<Longrightarrow> net_step xs P first w (FastPacket p)
         (w\<lparr>nt_pos := j, nt_stop := (j + 1 = n_packets (length xs) P), nt_meta := (nt_meta w \<or> s = 0)\<rparr>)"
| patch: "s < n_packets (length xs) P \<Longrightarrow> s \<notin> got w
    \<Longrightarrow> nt_stop w \<or> s \<in> (\<lambda>i. (first + i) mod n_packets (length xs) P) ` {..<nt_last w}
    \<Longrightarrow> (case nt_tail w of None \<Rightarrow> 0 < s \<and> s < first \<longrightarrow> 0 \<in> got w | Some t \<Rightarrow> t < s \<longrightarrow> 0 \<in> got w)
    \<Longrightarrow> carries_patch xs P m s
    \<Longrightarrow> net_step xs P first w (PatchMessage m) (w\<lparr>nt_patch := insert s (nt_patch w)\<rparr>)"
| stop: "net_step xs P first w FastDone (w\<lparr>nt_stop := True\<rparr>)"

text \<open>The code that runs at each of these events.\<close>

definition repair_do :: "timeval \<Rightarrow> repair_event \<Rightarrow> RecverState \<times> byte list \<Rightarrow> (RecverState \<times> byte list) res" where
  "repair_do now e st = (case st of (r, file) \<Rightarrow> (case e of
     FastPacket p \<Rightarrow> rbind (fast_path now r file p (parseDataHdr p DATA_HDR_OFFSET)) (\<lambda>(r, file, _). Inr (r, file))
   | PatchMessage m \<Rightarrow> rbind (slow_path now r file m) (\<lambda>(r, file, _). Inr (r, file))
   | FastDone \<Rightarrow> Inr (if is_finished r then r else stopFathPath now r, file)))"

subsection \<open>The invariant\<close>

definition tail_part :: "byte list \<Rightarrow> nat \<Rightarrow> net \<Rightarrow> nat" where
  "tail_part xs P w = (case nt_tail w of None \<Rightarrow> n_packets (length xs) P - 1 | Some t \<Rightarrow> t)"

definition net_ok :: "byte list \<Rightarrow> nat \<Rightarrow> nat \<Rightarrow> net \<Rightarrow> bool" where
  "net_ok xs P first w \<longleftrightarrow>
     (let n = n_packets (length xs) P; k = nt_last w; F = nt_fast w; S = nt_patch w
      in k \<le> nt_pos w \<and> nt_pos w < n \<and> (nt_pos w + 1 = n \<longrightarrow> nt_stop w)
       \<and> (nt_pos w \<noteq> k \<longrightarrow> k = 0 \<and> first \<noteq> 0 \<and> n \<le> first + nt_pos w) \<and> (nt_meta w \<longrightarrow> nt_pos w \<noteq> k)
       \<and> k < n \<and> F \<subseteq> (\<lambda>i. (first + i) mod n) ` {..k} \<and> first \<in> F \<and> (first + k) mod n \<in> F
       \<and> S \<subseteq> {..<n} \<and> F \<inter> S = {} \<and> (k + 1 = n \<longrightarrow> nt_stop w)
       \<and> (\<not> nt_stop w \<longrightarrow> S \<subseteq> (\<lambda>i. (first + i) mod n) ` {..<k})
       \<and> (case nt_tail w of
            None \<Rightarrow> (first = 0 \<or> n \<le> first + k \<longrightarrow> 0 \<in> F) \<and> (\<forall>s \<in> got w. s < first \<longrightarrow> 0 \<in> got w)
          | Some t \<Rightarrow> first < t \<and> t < n \<and> n < first + k \<and> 0 \<notin> F \<and> (\<forall>s \<in> F. s \<le> t) \<and> (\<forall>s \<in> S. t < s \<longrightarrow> 0 \<in> S)))"

definition tail_parts :: "byte list \<Rightarrow> nat \<Rightarrow> nat \<Rightarrow> nat set \<Rightarrow> nat set" where
  "tail_parts xs P t S = (\<Union>s \<in> {s \<in> S. t < s}. {(s - t - 1) * P..<(s - t - 1) * P + length (chunk P xs s)})"

lemma tail_parts_insert:
  "t < s \<Longrightarrow> tail_parts xs P t (insert s S) = tail_parts xs P t S \<union> {(s - t - 1) * P..<(s - t - 1) * P + length (chunk P xs s)}"
  "s \<le> t \<Longrightarrow> tail_parts xs P t (insert s S) = tail_parts xs P t S"
  by (auto simp: tail_parts_def)

lemma tail_parts_none: "\<forall>x \<in> S. x \<le> t \<Longrightarrow> tail_parts xs P t S = {}"
  by (fastforce simp: tail_parts_def)

definition buffer_ok :: "byte list \<Rightarrow> nat \<Rightarrow> net \<Rightarrow> RecverState \<Rightarrow> bool" where
  "buffer_ok xs P w r \<longleftrightarrow> (case nt_tail w of
     None \<Rightarrow> tail_patch_buffer r = NullBuf \<and> tail_patch_buffer_len r = 0
   | Some t \<Rightarrow> if 0 \<in> nt_patch w \<and> tail_of xs P t \<noteq> []
       then \<exists>b. tail_patch_buffer r = Buf b \<and> tail_patch_buffer_len r = int (length b) \<and> length b = length (tail_of xs P t)
          \<and> agree (tail_of xs P t) b (tail_parts xs P t (nt_patch w))
       else tail_patch_buffer r = NullBuf \<and> tail_patch_buffer_len r = 0)"

definition data_ok :: "byte list \<Rightarrow> nat \<Rightarrow> nat \<Rightarrow> net \<Rightarrow> RecverState \<Rightarrow> byte list \<Rightarrow> bool" where
  "data_ok xs P first w r file \<longleftrightarrow>
     (let n = n_packets (length xs) P; t = tail_part xs P w
      in is_seq_fst r \<and> \<not> is_finished r \<and> seq_fst r = of_nat first \<and> seq_lst r = of_nat ((first + nt_last w) mod n)
       \<and> seq_tail r = (case nt_tail w of None \<Rightarrow> 0 | Some t \<Rightarrow> of_nat t) \<and> r_byte_payload r = of_nat P
       \<and> num_fast_recv_ed r = int (card (nt_fast w)) \<and> num_slow_recv_ed r = int (card (nt_patch w))
       \<and> fd_p r \<noteq> None \<and> fd_patch_p r \<noteq> None
       \<and> (is_seq_zero r \<longleftrightarrow> known w) \<and> r_seq_max r = (if known w then of_nat n else 0)
       \<and> fm_start (fileMetadata r) = (if nt_tail w \<noteq> None \<or> known w then int (start_at xs P first t mod length xs) else -1)
       \<and> buffer_ok xs P w r
       \<and> agree (layout xs P first t) file (\<Union>s \<in> {s \<in> got w. s \<le> t}. part_span xs P first t s))"

text \<open>While the fast path runs, its position is the end of the file, behind the last part.\<close>

definition end_ok :: "byte list \<Rightarrow> nat \<Rightarrow> nat \<Rightarrow> net \<Rightarrow> RecverState \<Rightarrow> byte list \<Rightarrow> bool" where
  "end_ok xs P first w r file \<longleftrightarrow>
     (let s = (first + nt_last w) mod n_packets (length xs) P
      in fd_p r = Some (length file) \<and> length file = place xs P first (tail_part xs P w) s + length (chunk P xs s))"

text \<open>The whole state: finished as soon as all parts are there.\<close>

definition repair_inv :: "byte list \<Rightarrow> nat \<Rightarrow> nat \<Rightarrow> net \<Rightarrow> RecverState \<times> byte list \<Rightarrow> bool" where
  "repair_inv xs P first w st \<longleftrightarrow> (case st of (r, file) \<Rightarrow> net_ok xs P first w
     \<and> (if got w = {..<n_packets (length xs) P}
        then is_finished r \<and> \<not> is_fastpath r
           \<and> read_order file (fm_start (fileMetadata r)) (fm_jump (fileMetadata r)) = xs
        else data_ok xs P first w r file \<and> is_fastpath r = (\<not> nt_stop w)
           \<and> (\<not> nt_stop w \<longrightarrow> end_ok xs P first w r file)))"

subsection \<open>A packet of the fast path\<close>

lemma fits_small:
  assumes "fits xs P first" "s < n_packets (length xs) P"
  shows "unat (of_nat s :: u32) = s" "unat (of_nat P :: u16) = P" "chunk P xs s \<noteq> []" "length (chunk P xs s) \<le> P" "0 < P"
    "s + 1 < n_packets (length xs) P \<Longrightarrow> length (chunk P xs s) = P"
proof -
  have f: "xs \<noteq> []" "0 < P" "P < 65536" "n_packets (length xs) P < 2147483547" using assms(1) by (auto simp: fits_def)
  show "unat (of_nat s :: u32) = s" using assms(2) f(4) by (intro unat_of_nat_u32) linarith
  show "unat (of_nat P :: u16) = P" using f(3) by (intro unat_of_nat_u16) simp
  show "chunk P xs s \<noteq> []" "length (chunk P xs s) \<le> P" by (rule chunk_nonempty [OF f(1,2) assms(2)])+
  show "0 < P" by (rule f(2))
  show "length (chunk P xs s) = P" if "s + 1 < n_packets (length xs) P"
  proof -
    have "0 < length xs" using f(1) by simp
    note c = packets_cover [OF this f(2)]
    have "(s + 1) * P \<le> (n_packets (length xs) P - 1) * P" using that by (intro mult_le_mono1) simp
    then have "s * P + P \<le> length xs" using c(2) by simp
    then show ?thesis unfolding length_chunk_min by linarith
  qed
qed

lemma cyc_cases: "first < (n :: nat) \<Longrightarrow> k < n \<Longrightarrow> (first + k) mod n = (if first + k < n then first + k else first + k - n)"
  by (auto simp: not_less le_mod_geq)

lemma unat_diff_nat:
  assumes "a < b" "b < 4294967296"
  shows "unat (of_nat b - of_nat a - 1 :: u32) = b - a - 1" "(of_nat b - of_nat a :: u32) = 1 \<longleftrightarrow> b = a + 1"
proof -
  have e: "(of_nat b - of_nat a :: u32) = of_nat (b - a)" using assms by (simp add: of_nat_diff)
  have "(of_nat (b - a) - 1 :: u32) = of_nat (b - a - 1)" using assms(1) by (simp add: of_nat_diff)
  then show "unat (of_nat b - of_nat a - 1 :: u32) = b - a - 1"
    unfolding e using assms by (simp add: unat_of_nat_u32 del: of_nat_diff)
  have "(of_nat (b - a) :: u32) = of_nat 1 \<longleftrightarrow> b - a = 1" using assms by (intro of_nat_eq_u32) linarith+
  then show "(of_nat b - of_nat a :: u32) = 1 \<longleftrightarrow> b = a + 1" unfolding e using assms(1) by auto
qed

lemma fp_write_at:
  assumes "carries xs P p s" "fd_p r = Some pos"
  shows "fp_write r fl p (parseDataHdr p DATA_HDR_OFFSET)
    = Inr (r\<lparr>fd_p := Some (pos + length (chunk P xs s)), num_fast_recv_ed := num_fast_recv_ed r + 1\<rparr>, write_at fl pos (chunk P xs s))"
  using assms by (simp add: fp_write_def carries_def Let_def)

lemma fp_gap_at:
  assumes "carries xs P p s" "fd_p r = Some pos" "int pos + ext = int pos'"
  shows "\<exists>mk. fp_gap r fl p (parseDataHdr p DATA_HDR_OFFSET) ext e z
    = Inr (r\<lparr>fd_p := Some (pos' + length (chunk P xs s)), num_fast_recv_ed := num_fast_recv_ed r + 1\<rparr>, write_at fl pos' (chunk P xs s), mk)
    \<and> \<not> fp_error mk"
proof -
  have e: "fp_extend r ext = Inr (r\<lparr>fd_p := Some pos'\<rparr>)"
    using assms(2,3) by (simp add: fp_extend_def extendFile_def assert_c_def)
  have "fd_p (r\<lparr>fd_p := Some pos'\<rparr>) = Some pos'" by simp
  from fp_write_at [OF assms(1) this] show ?thesis
    by (simp add: fp_gap_def e Let_def fp_none_def)
qed

text \<open>The next part, or one behind a gap, on the same side of part 0.\<close>

lemma place_step:
  assumes f: "fits xs P first" and s: "l < s" "s < n_packets (length xs) P" "first \<le> l \<or> s < first"
  shows "place xs P first t l + length (chunk P xs l) + (s - l - 1) * P = place xs P first t s"
proof -
  have "length (chunk P xs l) = P" using fits_small(6) [OF f, of l] s by simp
  moreover have "(s - l - 1) * P + P = (s - l) * P" using s(1) by (cases "s - l") auto
  moreover have "s * P = l * P + (s - l) * P" using s(1) by (simp flip: add_mult_distrib)
  moreover have "first \<le> l \<Longrightarrow> (s - first) * P = (l - first) * P + (s - l) * P"
    using s(1) by (simp flip: add_mult_distrib)
  ultimately show ?thesis using s by (auto simp: place_def)
qed

lemma fp_place_ordinary:
  assumes f: "fits xs P first" and s: "l < s" "s < n_packets (length xs) P" "first \<le> l \<or> s < first"
    and r: "seq_lst r = of_nat l" "seq_fst r = of_nat first" "r_byte_payload r = of_nat P"
    and e: "fd_p r = Some (length file)" "length file = place xs P first t l + length (chunk P xs l)" and c: "carries xs P p s"
  shows "\<exists>mk. fp_place r file p (parseDataHdr p DATA_HDR_OFFSET)
    = Inr (r\<lparr>fd_p := Some (place xs P first t s + length (chunk P xs s)), num_fast_recv_ed := num_fast_recv_ed r + 1\<rparr>,
        write_at file (place xs P first t s) (chunk P xs s), mk) \<and> \<not> fp_error mk"
proof -
  let ?dh = "parseDataHdr p DATA_HDR_OFFSET"
  have n: "n_packets (length xs) P < 2147483547" "first < n_packets (length xs) P" using f by (auto simp: fits_def)
  have b: "s < 4294967296" "l < n_packets (length xs) P" using s n by linarith+
  have sn: "seq_num ?dh = of_nat s" using c by (simp add: carries_def Let_def)
  note u = fits_small(1) [OF f s(2)] fits_small(1) [OF f b(2)] fits_small(1) [OF f n(2)] fits_small(2) [OF f s(2)]
  note d = unat_diff_nat [OF s(1) b(1)]
  have z: "seq_num ?dh \<noteq> 0" using sn s(1) of_nat_zero_u32 [OF b(1)] by simp
  have lt: "seq_lst r < seq_num ?dh" "seq_lst r < seq_fst r \<longleftrightarrow> l < first" "seq_num ?dh < seq_fst r \<longleftrightarrow> s < first"
    "seq_fst r \<le> seq_lst r \<longleftrightarrow> first \<le> l"
    unfolding r(1,2) sn word_less_nat_alt word_le_nat_alt u using s(1) by simp_all
  have p: "place xs P first t s = length file + (s - l - 1) * P" using place_step [OF f s, of t] e(2) by simp
  have g: "int (unat (seq_num ?dh - seq_lst r - 1)) * int (unat (r_byte_payload r)) = int ((s - l - 1) * P)"
    unfolding r sn d(1) u(4) by simp
  have one: "seq_num ?dh - seq_lst r = 1 \<longleftrightarrow> s = l + 1" unfolding sn r(1) by (rule d(2))
  show ?thesis
  proof (cases "s = l + 1")
    case True
    then have "place xs P first t s = length file" using p by simp
    then show ?thesis using True z one fp_write_at [OF c e(1), where fl = "file"] by (simp add: fp_place_def fp_none_def)
  next
    case False
    obtain mk where "fp_gap r file p ?dh (int ((s - l - 1) * P)) (seq_num ?dh) False
      = Inr (r\<lparr>fd_p := Some (place xs P first t s + length (chunk P xs s)), num_fast_recv_ed := num_fast_recv_ed r + 1\<rparr>,
          write_at file (place xs P first t s) (chunk P xs s), mk)" "\<not> fp_error mk"
      using fp_gap_at [OF c e(1), where ext = "int ((s - l - 1) * P)" and pos' = "place xs P first t s" and fl = "file" and e = "seq_num ?dh" and z = False] p by auto
    moreover have "fp_place r file p ?dh = fp_gap r file p ?dh (int ((s - l - 1) * P)) (seq_num ?dh) False"
      unfolding fp_place_def Let_def g using False z one lt s(1,3) by auto
    ultimately show ?thesis by (intro exI [of _ mk] conjI) (simp_all only: simp_thms)
  qed
qed

text \<open>Part 0 on the fast path, with or without a loss before it.\<close>

lemma packets_enough:
  assumes "fits xs P first"
  shows "length xs \<le> n_packets (length xs) P * P"
proof -
  have f: "xs \<noteq> []" "0 < P" using assms by (auto simp: fits_def)
  then have "0 < length xs" by simp
  note c = packets_cover [OF this f(2)]
  have "n_packets (length xs) P * P = (n_packets (length xs) P - 1) * P + P" using c(1) by (cases "n_packets (length xs) P") simp_all
  then show ?thesis using c by linarith
qed

lemma start_last:
  assumes "fits xs P first"
  shows "start_at xs P first (n_packets (length xs) P - 1) = length xs - first * P"
    "first * P < length xs" "n_packets (length xs) P = Suc l \<Longrightarrow> start_at xs P first l = length xs - first * P"
proof -
  have "n_packets (length xs) P - 1 + 1 = n_packets (length xs) P" using assms by (simp add: fits_def)
  then have "length xs \<le> (n_packets (length xs) P - 1 + 1) * P" using packets_enough [OF assms] by (simp only:)
  then show "start_at xs P first (n_packets (length xs) P - 1) = length xs - first * P" by (simp add: start_at_def)
  then show "n_packets (length xs) P = Suc l \<Longrightarrow> start_at xs P first l = length xs - first * P" by simp
  show "first * P < length xs" by (rule first_bytes [OF assms])
qed

lemma place_end:
  assumes f: "fits xs P first" and l: "first \<le> l" "l < n_packets (length xs) P"
  shows "place xs P first t l + length (chunk P xs l) = start_at xs P first l"
proof -
  have "l * P < length xs"
    using fits_small(3) [OF f l(2)] length_chunk_min [of P xs l] by (cases "l * P < length xs") auto
  moreover have "(l - first) * P = l * P - first * P" "first * P \<le> l * P"
    using l(1) by (simp_all add: diff_mult_distrib mult_le_mono1)
  moreover have "(l + 1) * P = l * P + P" by simp
  ultimately show ?thesis using l(1) unfolding place_def start_at_def length_chunk_min by auto
qed

lemma fp_place_zero:
  assumes f: "fits xs P first" and l: "first \<le> l" "l < n_packets (length xs) P" "first \<noteq> 0" "first < l \<or> l + 1 = n_packets (length xs) P"
    and r: "seq_lst r = of_nat l" "seq_fst r = of_nat first" "r_byte_payload r = of_nat P" "\<not> is_seq_zero r" "seq_tail r = 0"
      "fm_start (fileMetadata r) = -1" "tail_patch_buffer_len r = 0"
    and e: "fd_p r = Some (length file)" "length file = start_at xs P first l" and c: "carries xs P p 0"
  defines "pos \<equiv> length xs - first * P"
  shows "\<exists>app mk. fp_place r file p (parseDataHdr p DATA_HDR_OFFSET)
    = Inr (r\<lparr>r_data_size := int (length xs), r_app_id_str := app,
        r_seq_max := of_nat (n_packets (length xs) P), r_byte_payload_min := of_nat (last_bytes (length xs) P),
        fileMetadata := \<lparr>fm_start = int ((length xs - first * P) mod length xs), fm_jump = int (length xs)\<rparr>,
        is_seq_zero := True, fd_p := Some (pos + length (chunk P xs 0)), num_fast_recv_ed := num_fast_recv_ed r + 1\<rparr>,
        write_at file pos (chunk P xs 0), mk) \<and> \<not> fp_error mk"
proof -
  let ?dh = "parseDataHdr p DATA_HDR_OFFSET" and ?n = "n_packets (length xs) P"
  let ?bm = "parseBcdMetadata p (DATA_PAYLOAD_OFFSET + unat (dh_len ?dh))"
  have n: "?n < 2147483547" "first < ?n" "0 < ?n" using f by (auto simp: fits_def)
  have b: "DATA_PAYLOAD_OFFSET + unat (dh_len ?dh) + BCDMETADATA_LEN \<le> length p"
    "bm_data_size ?bm = int (length xs)" "length (takeWhile (\<lambda>b. b \<noteq> 0) (bm_app_id ?bm)) < APPID_LEN" "seq_num ?dh = 0"
    using c by (simp_all add: carries_def Let_def)
  define r1 where "r1 = r\<lparr>r_data_size := int (length xs), r_app_id_str := strncpy (bm_app_id ?bm) APPID_LEN,
        r_seq_max := of_nat ?n, r_byte_payload_min := of_nat (last_bytes (length xs) P),
        fileMetadata := \<lparr>fm_start = int ((length xs - first * P) mod length xs), fm_jump = int (length xs)\<rparr>, is_seq_zero := True\<rparr>"
  have up: "updateBcdMetadata r ?bm = Inr (0, r1)"
    using updateBcdMetadata_lossless [OF f b(2,3) r(4,5,3,2,6,7)] by (auto simp: r1_def)
  have fd: "fd_p r1 = Some (length file)" using e(1) by (simp add: r1_def)
  have ul: "unat (of_nat l :: u32) = l" "unat (of_nat first :: u32) = first" "unat (of_nat ?n :: u32) = ?n"
    using l n by (simp_all add: unat_of_nat_u32)
  have adj: "seq_lst r1 = r_seq_max r1 - 1 \<longleftrightarrow> l + 1 = ?n" "seq_lst r1 \<noteq> SEQNUM_MAX"
  proof -
    have "(of_nat ?n - 1 :: u32) = of_nat (?n - 1)" using n(3) by (simp add: of_nat_diff)
    moreover have "(of_nat l :: u32) = of_nat (?n - 1) \<longleftrightarrow> l = ?n - 1" using l n by (intro of_nat_eq_u32) linarith+
    ultimately show "seq_lst r1 = r_seq_max r1 - 1 \<longleftrightarrow> l + 1 = ?n" using n(3) r(1) by (auto simp: r1_def)
    have "unat SEQNUM_MAX = 2147483547" by (simp add: SEQNUM_MAX_def)
    moreover have "unat (seq_lst r1) \<noteq> 2147483547" using l n ul(1) r(1) by (simp add: r1_def)
    ultimately show "seq_lst r1 \<noteq> SEQNUM_MAX" by metis
  qed
  show ?thesis
  proof (cases "l + 1 = ?n")
    case True
    have p: "length file = pos" using start_last(3) [OF f, of l] True e(2) by (simp add: pos_def)
    have "fp_seq_zero r file p ?dh = Inr (r1\<lparr>fd_p := Some (pos + length (chunk P xs 0)), num_fast_recv_ed := num_fast_recv_ed r1 + 1\<rparr>,
        write_at file pos (chunk P xs 0), fp_none\<lparr>fp_zero := True\<rparr>)"
      using b(1) up adj True fp_write_at [OF c fd, where fl = "file"] p by (simp add: fp_seq_zero_def)
    then show ?thesis using b(4)
      by (intro exI [of _ "strncpy (bm_app_id ?bm) APPID_LEN"] exI [of _ "fp_none\<lparr>fp_zero := True\<rparr>"])
        (simp add: fp_place_def fp_none_def r1_def)
  next
    case False
    then have lt: "first < l" "l + 1 < ?n" using l by auto
    have s: "seq_fst r1 < seq_lst r1" "seq_fst r1 \<noteq> 0"
      using r(1,2) lt ul l(3) of_nat_zero_u32 [of first] n by (simp_all add: r1_def word_less_nat_alt)
    have g: "int (unat (r_seq_max r1 - seq_lst r1 - 2)) * int (unat (r_byte_payload r1)) + int (unat (r_byte_payload_min r1))
        = int ((?n - l - 2) * P + last_bytes (length xs) P)"
    proof -
      have "(of_nat ?n - of_nat l - 2 :: u32) = of_nat (?n - l - 2)" using lt by (simp add: of_nat_diff)
      then have "unat (r_seq_max r1 - seq_lst r1 - 2) = ?n - l - 2" using n(1) r(1) by (simp add: r1_def unat_of_nat_u32 del: of_nat_diff)
      moreover have "unat (r_byte_payload r1) = P" using r(3) fits_small(2) [OF f n(2)] by (simp add: r1_def)
      moreover have "unat (r_byte_payload_min r1) = last_bytes (length xs) P"
      proof -
        have "last_bytes (length xs) P \<le> P" using f packets_cover(4) [of "length xs" P] by (auto simp: fits_def)
        then have "last_bytes (length xs) P < 65536" using f by (auto simp: fits_def)
        then show ?thesis by (simp add: r1_def unat_of_nat_u16)
      qed
      ultimately show ?thesis by simp
    qed
    have p: "int (length file) + int ((?n - l - 2) * P + last_bytes (length xs) P) = int pos"
    proof -
      have "0 < length xs" "0 < P" using f by (auto simp: fits_def)
      note pc = packets_cover(2) [OF this]
      have a: "?n - l - 2 + (l + 1) = ?n - 1" using lt(2) by simp
      have "(?n - l - 2) * P + (l + 1) * P = (?n - 1) * P" by (simp only: a flip: add_mult_distrib)
      moreover have "first * P \<le> (l + 1) * P" using l(1) by (intro mult_le_mono1) simp
      moreover have "start_at xs P first l = (l + 1) * P - first * P"
      proof -
        have "(l + 1) * P \<le> (?n - 1) * P" using lt(2) by (intro mult_le_mono1) simp
        then have "(l + 1) * P \<le> length xs" using pc by linarith
        then show ?thesis by (simp add: start_at_def)
      qed
      ultimately have "length file + ((?n - l - 2) * P + last_bytes (length xs) P) = pos" using pc e(2) unfolding pos_def by linarith
      then show ?thesis by linarith
    qed
    obtain mk where "fp_gap r1 file p ?dh (int ((?n - l - 2) * P + last_bytes (length xs) P)) (r_seq_max r1) True
      = Inr (r1\<lparr>fd_p := Some (pos + length (chunk P xs 0)), num_fast_recv_ed := num_fast_recv_ed r1 + 1\<rparr>,
          write_at file pos (chunk P xs 0), mk)" "\<not> fp_error mk"
      using fp_gap_at [OF c fd p, where fl = "file" and e = "r_seq_max r1" and z = True] by auto
    moreover have "fp_seq_zero r file p ?dh = fp_gap r1 file p ?dh (int ((?n - l - 2) * P + last_bytes (length xs) P)) (r_seq_max r1) True"
    proof -
      have "fp_seq_zero r file p ?dh = fp_gap r1 file p ?dh (int (unat (r_seq_max r1 - seq_lst r1 - 2)) * int (unat (r_byte_payload r1))
          + int (unat (r_byte_payload_min r1))) (r_seq_max r1) True"
        unfolding fp_seq_zero_def up using b(1) adj False s by simp
      then show ?thesis unfolding g .
    qed
    ultimately show ?thesis using b(4)
      by (intro exI [of _ "strncpy (bm_app_id ?bm) APPID_LEN"] exI [of _ mk]) (simp add: fp_place_def r1_def)
  qed
qed

text \<open>A part behind part 0, which was lost: the rest of the round goes behind part \<open>l\<close>.\<close>

lemma fp_place_wrap:
  assumes f: "fits xs P first" and l: "first < l" "l < n_packets (length xs) P" and s: "0 < s" "s < first"
    and r: "seq_lst r = of_nat l" "seq_fst r = of_nat first" "r_byte_payload r = of_nat P" "seq_tail r = 0" "fm_start (fileMetadata r) = -1"
    and e: "fd_p r = Some (length file)" "length file = start_at xs P first l" and c: "carries xs P p s"
  shows "\<exists>mk. fp_place r file p (parseDataHdr p DATA_HDR_OFFSET)
    = Inr (r\<lparr>seq_tail := of_nat l, fileMetadata := (fileMetadata r)\<lparr>fm_start := int (start_at xs P first l)\<rparr>,
        fd_p := Some (place xs P first l s + length (chunk P xs s)), num_fast_recv_ed := num_fast_recv_ed r + 1\<rparr>,
        write_at file (place xs P first l s) (chunk P xs s), mk) \<and> \<not> fp_error mk"
proof -
  let ?dh = "parseDataHdr p DATA_HDR_OFFSET"
  have n: "n_packets (length xs) P < 2147483547" "first < n_packets (length xs) P" using f by (auto simp: fits_def)
  have b: "s < n_packets (length xs) P" "s < 4294967296" using s n by linarith+
  have sn: "seq_num ?dh = of_nat s" using c by (simp add: carries_def Let_def)
  note u = fits_small(1) [OF f b(1)] fits_small(1) [OF f l(2)] fits_small(1) [OF f n(2)] fits_small(2) [OF f b(1)]
  have z: "seq_num ?dh \<noteq> 0" using sn s(1) of_nat_zero_u32 [OF b(2)] by simp
  have lt: "\<not> seq_lst r < seq_num ?dh" "seq_num ?dh < seq_fst r" "seq_fst r < seq_lst r"
    unfolding r(1,2) sn word_less_nat_alt u using s l by simp_all
  have no: "seq_num ?dh - seq_lst r \<noteq> 1"
  proof
    assume "seq_num ?dh - seq_lst r = 1"
    then have "(of_nat s :: u32) = of_nat (l + 1)" unfolding sn r(1) by (metis add.commute diff_add_cancel of_nat_1 of_nat_add)
    moreover have "l + 1 < 4294967296" using l n by linarith
    ultimately have "s = l + 1" using of_nat_eq_u32 [OF b(2)] by blast
    then show False using s l by simp
  qed
  let ?r = "r\<lparr>seq_tail := seq_lst r, fileMetadata := (fileMetadata r)\<lparr>fm_start := int (length file)\<rparr>\<rparr>"
  have p: "int (length file) + int (s * P) = int (place xs P first l s)"
    using s(2) e(2) by (simp add: place_def)
  have g: "int (unat (seq_num ?dh)) * int (unat (r_byte_payload r)) = int (s * P)" unfolding sn r(3) u by simp
  have fd: "fd_p ?r = Some (length file)" using e(1) by simp
  obtain mk where "fp_gap ?r file p ?dh (int (s * P)) (seq_num ?dh) False
    = Inr (?r\<lparr>fd_p := Some (place xs P first l s + length (chunk P xs s)), num_fast_recv_ed := num_fast_recv_ed r + 1\<rparr>,
        write_at file (place xs P first l s) (chunk P xs s), mk)" "\<not> fp_error mk"
    using fp_gap_at [OF c fd p, where fl = "file" and e = "seq_num ?dh" and z = False] by auto
  moreover have "fp_place r file p ?dh = fp_wrap r file p ?dh"
    unfolding fp_place_def Let_def using z no lt by auto
  moreover have "fp_wrap r file p ?dh = fp_gap ?r file p ?dh (int (s * P)) (seq_num ?dh) False"
    unfolding fp_wrap_def using r(4,5) e(1) by (simp add: assert_c_def Let_def g [simplified])
  ultimately show ?thesis using r(1) e(2) by (intro exI [of _ mk]) simp
qed

subsection \<open>What is received\<close>

lemma cyc_inj: "first < (n :: nat) \<Longrightarrow> i < n \<Longrightarrow> j < n \<Longrightarrow> (first + i) mod n = (first + j) mod n \<Longrightarrow> i = j"
  by (auto simp: cyc_cases split: if_splits)

lemma got_image:
  assumes "net_ok xs P first w" "\<not> nt_stop w" "x \<in> got w"
  shows "\<exists>i \<le> nt_last w. x = (first + i) mod n_packets (length xs) P"
proof -
  have "got w \<subseteq> (\<lambda>i. (first + i) mod n_packets (length xs) P) ` {..nt_last w}"
    using assms(1,2) by (auto simp: net_ok_def got_def Let_def)
  then show ?thesis using assms(3) by auto
qed

lemma packet_new:
  assumes "fits xs P first" "net_ok xs P first w" "\<not> nt_stop w" "nt_last w < j" "j < n_packets (length xs) P"
  shows "(first + j) mod n_packets (length xs) P \<notin> got w"
proof
  let ?n = "n_packets (length xs) P"
  assume "(first + j) mod ?n \<in> got w"
  then obtain i where i: "i \<le> nt_last w" "(first + j) mod ?n = (first + i) mod ?n"
    using got_image [OF assms(2,3)] by blast
  have "first < ?n" using assms(1) by (simp add: fits_def)
  from cyc_inj [OF this assms(5) _ i(2)] show False using i(1) assms(4,5) by simp
qed

text \<open>A packet is taken only when none was rejected before it.\<close>

lemma packet_taken:
  assumes "net_ok xs P first w" "nt_pos w < j" "nt_last w = 0 \<and> first \<noteq> 0 \<and> n_packets (length xs) P \<le> first + j \<longrightarrow> j = 1"
  shows "nt_pos w = nt_last w" "nt_last w < j" "\<not> nt_meta w"
proof -
  note ok = assms(1) [unfolded net_ok_def Let_def]
  show p: "nt_pos w = nt_last w"
  proof (rule ccontr)
    assume "nt_pos w \<noteq> nt_last w"
    then have "nt_last w = 0" "first \<noteq> 0" "n_packets (length xs) P \<le> first + nt_pos w" "0 < nt_pos w" using ok by auto
    then show False using assms(2,3) by auto
  qed
  then show "nt_last w < j" "\<not> nt_meta w" using assms(2) ok by auto
qed

lemma net_step_ok:
  assumes f: "fits xs P first" and w: "net_ok xs P first w" and st: "net_step xs P first w e w'"
  shows "net_ok xs P first w'"
  using st w
proof cases
  let ?n = "n_packets (length xs) P" and ?k = "nt_last w" and ?F = "nt_fast w" and ?S = "nt_patch w"
  have n: "first < ?n" using f by (simp add: fits_def)
  note ok = w [unfolded net_ok_def Let_def]
  note cc = cyc_cases [OF n]
  {
    case (packet j s p tp)
    note pt = packet_taken [OF w packet(4,8)]
    have F: "\<exists>i \<le> ?k. x = (first + i) mod ?n" if "x \<in> ?F" for x using ok that by auto
    have S: "\<exists>i < ?k. x = (first + i) mod ?n" if "x \<in> ?S" for x using ok packet(3) that by auto
    have new: "s \<notin> got w" using packet_new [OF f w packet(3) pt(2) packet(5)] packet(6) by simp
    have sj: "s = (if first + j < ?n then first + j else first + j - ?n)" using cc packet(5,6) by simp
    have base: "j < ?n \<and> insert s ?F \<subseteq> (\<lambda>i. (first + i) mod ?n) ` {..j} \<and> first \<in> insert s ?F \<and> (first + j) mod ?n \<in> insert s ?F
       \<and> ?S \<subseteq> {..<?n} \<and> insert s ?F \<inter> ?S = {} \<and> ?S \<subseteq> (\<lambda>i. (first + i) mod ?n) ` {..<j}"
    proof (intro conjI)
      show "insert s ?F \<subseteq> (\<lambda>i. (first + i) mod ?n) ` {..j}"
        using F pt(2) packet(6) by (auto simp: image_iff) (meson atMost_iff less_imp_le order_trans)
      show "?S \<subseteq> (\<lambda>i. (first + i) mod ?n) ` {..<j}"
        using S pt(2) by (auto simp: image_iff) (meson lessThan_iff less_trans)
    qed (use ok packet new in \<open>auto simp: got_def\<close>)
    consider (cross) "first \<noteq> 0" "first + ?k < ?n" "?n < first + j" "tp = Some (first + ?k)"
      | (none) "nt_tail w = None" "tp = None" "first = 0 \<or> ?n \<le> first + ?k \<or> first + j \<le> ?n"
      | (some) t where "nt_tail w = Some t" "tp = Some t"
      using packet(9) by (cases "nt_tail w") (auto split: if_splits)
    then have "case tp of
            None \<Rightarrow> (first = 0 \<or> ?n \<le> first + j \<longrightarrow> 0 \<in> insert s ?F) \<and> (\<forall>x \<in> insert s ?F \<union> ?S. x < first \<longrightarrow> 0 \<in> insert s ?F \<union> ?S)
          | Some t \<Rightarrow> first < t \<and> t < ?n \<and> ?n < first + j \<and> 0 \<notin> insert s ?F \<and> (\<forall>x \<in> insert s ?F. x \<le> t) \<and> (\<forall>x \<in> ?S. t < x \<longrightarrow> 0 \<in> ?S)"
    proof cases
      case cross
      have "0 < ?k" using packet(8) cross n by (cases ?k) auto
      moreover have "first \<le> x \<and> x \<le> first + ?k" if xF: "x \<in> ?F" for x
      proof -
        obtain i where i: "i \<le> ?k" "x = (first + i) mod ?n" using F [OF xF] by blast
        then have "x = first + i" using cross(2) by simp
        then show ?thesis using i(1) by simp
      qed
      moreover have "x < first + ?k" if xS: "x \<in> ?S" for x
      proof -
        obtain i where i: "i < ?k" "x = (first + i) mod ?n" using S [OF xS] by blast
        then show ?thesis using cross(2) by simp
      qed
      moreover have "0 < s" "s < first" using sj cross packet(5) by auto
      ultimately show ?thesis using cross by fastforce
    next
      case none
      have old: "first = 0 \<or> ?n \<le> first + ?k \<longrightarrow> 0 \<in> ?F" "\<forall>x \<in> ?F \<union> ?S. x < first \<longrightarrow> 0 \<in> ?F \<union> ?S"
        using ok none(1) by (auto simp: got_def)
      have z: "first = 0 \<or> ?n \<le> first + j \<longrightarrow> 0 \<in> insert s ?F" using old(1) none(3) sj by auto
      moreover have "s < first \<longrightarrow> ?n \<le> first + j" using sj by auto
      ultimately show ?thesis using none(2) old(2) by auto
    next
      case (some t)
      have t: "first < t" "t < ?n" "?n < first + ?k" "0 \<notin> ?F" "\<forall>x \<in> ?F. x \<le> t" "\<forall>x \<in> ?S. t < x \<longrightarrow> 0 \<in> ?S"
        using ok some(1) by auto
      moreover have "0 < s" "s < first" using sj t(3) pt(2) packet(5) by auto
      ultimately show ?thesis using some(2) pt(2) by auto
    qed
    moreover have "nt_pos w' = j" "nt_meta w' = False" "nt_last w' = j" "nt_stop w' = (j + 1 = ?n)" "nt_tail w' = tp" "nt_fast w' = insert s ?F" "nt_patch w' = ?S"
      using pt(3) by (simp_all add: packet(2))
    ultimately show ?thesis
      using base unfolding net_ok_def Let_def got_def by (simp only:) blast
  next
    case (reject j s p)
    then have g: "got w' = got w" "nt_fast w' = ?F" "nt_patch w' = ?S" "nt_tail w' = nt_tail w" "nt_last w' = ?k" "nt_pos w' = j"
      "nt_stop w' = (j + 1 = ?n)" by (simp_all add: got_def)
    have k: "?k < j" using ok reject(4) by auto
    show ?thesis
      unfolding net_ok_def Let_def g
    proof (intro conjI)
      show "?k \<le> j" "j < ?n" "j + 1 = ?n \<longrightarrow> j + 1 = ?n" using k reject(5) by simp_all
      show "j \<noteq> ?k \<longrightarrow> ?k = 0 \<and> first \<noteq> 0 \<and> ?n \<le> first + j" using reject(8) by simp
      show "nt_meta w' \<longrightarrow> j \<noteq> ?k" "?k + 1 = ?n \<longrightarrow> j + 1 = ?n" using k reject(5) by simp_all
    qed (use ok reject(3) in \<open>simp_all only: simp_thms\<close>)
  next
    case (patch s m)
    have "S \<subseteq> X \<Longrightarrow> s \<in> X \<Longrightarrow> insert s S \<subseteq> X" for S X by auto
    then show ?thesis
      using ok patch unfolding net_ok_def Let_def
      by (auto simp: got_def split: option.splits)
  next
    case stop
    then show ?thesis using ok unfolding net_ok_def Let_def by (auto simp: got_def split: option.splits)
  }
qed

lemma agree_part:
  assumes "fits xs P first" "first \<le> t" "s < n_packets (length xs) P" "s \<le> t"
    and "agree (layout xs P first t) file (\<Union>x \<in> {x \<in> G. x \<le> t}. part_span xs P first t x)"
  shows "agree (layout xs P first t) (write_at file (place xs P first t s) (chunk P xs s))
    (\<Union>x \<in> {x \<in> insert s G. x \<le> t}. part_span xs P first t x)"
proof -
  note a = agree_write [OF assms(5) layout_part(1,2) [OF assms(1-4)]]
  have "(\<Union>x \<in> {x \<in> insert s G. x \<le> t}. part_span xs P first t x)
      = (\<Union>x \<in> {x \<in> G. x \<le> t}. part_span xs P first t x) \<union> part_span xs P first t s" using assms(4) by auto
  then show ?thesis using a by (simp add: part_span_def)
qed

lemma agree_retail:
  assumes f: "fits xs P first" and l: "first \<le> l" "l \<le> t" and G: "\<forall>x \<in> G. first \<le> x \<and> x \<le> l"
    and len: "length file \<le> start_at xs P first l"
    and a: "agree (layout xs P first t) file (\<Union>x \<in> {x \<in> G. x \<le> t}. part_span xs P first t x)"
  shows "agree (layout xs P first l) file (\<Union>x \<in> {x \<in> G. x \<le> l}. part_span xs P first l x)"
proof -
  have "(l + 1) * P \<le> (t + 1) * P" using l(2) by (intro mult_le_mono1) simp
  then have st: "start_at xs P first l \<le> start_at xs P first t"
    unfolding start_at_def by (intro diff_le_mono min.mono) simp_all
  have le: "start_at xs P first l \<le> length xs - first * P" for l by (simp add: start_at_def)
  have nth: "layout xs P first l ! i = xs ! (first * P + i)" if "i < start_at xs P first l" for i l
    using that le [of l] by (simp add: layout_def nth_append)
  have sp: "(\<Union>x \<in> {x \<in> G. x \<le> l}. part_span xs P first l x) = (\<Union>x \<in> {x \<in> G. x \<le> t}. part_span xs P first t x)"
  proof (rule SUP_cong)
    show "{x \<in> G. x \<le> l} = {x \<in> G. x \<le> t}" using G l by auto
  qed (use G in \<open>auto simp: part_span_def place_def\<close>)
  have "layout xs P first l ! i = layout xs P first t ! i" if "i < length file" for i
    using nth [of i l] nth [of i t] that len st by simp
  then show ?thesis
    unfolding sp using a len length_layout(1) [OF f l(1)] by (simp add: agree_def)
qed

lemma tail_part_bounds:
  assumes "fits xs P first" "net_ok xs P first w"
  shows "first \<le> tail_part xs P w" "tail_part xs P w < n_packets (length xs) P"
  using assms by (auto simp: tail_part_def net_ok_def Let_def fits_def split: option.splits)

lemma got_bounds:
  assumes "fits xs P first" "net_ok xs P first w"
  shows "got w \<subseteq> {..<n_packets (length xs) P}" "finite (nt_fast w)" "finite (nt_patch w)"
proof -
  have n: "0 < n_packets (length xs) P" using assms(1) by (auto simp: fits_def)
  show 1: "got w \<subseteq> {..<n_packets (length xs) P}" using assms(2) n by (fastforce simp: net_ok_def Let_def got_def)
  have "finite (got w)" by (rule finite_subset [OF 1]) simp
  then show "finite (nt_fast w)" "finite (nt_patch w)" by (simp_all add: got_def)
qed

lemma start_small:
  assumes "fits xs P first" "first \<noteq> 0"
  shows "start_at xs P first l < length xs"
proof -
  have "0 < first * P" using assms by (simp add: fits_def)
  moreover have "start_at xs P first l \<le> length xs - first * P" by (simp add: start_at_def)
  ultimately show ?thesis using first_bytes [OF assms(1)] by linarith
qed

text \<open>The state after a packet.\<close>

definition after_packet :: "nat \<Rightarrow> nat \<Rightarrow> nat option \<Rightarrow> nat \<Rightarrow> net \<Rightarrow> net" where
  "after_packet n j tp s w = w\<lparr>nt_pos := j, nt_last := j, nt_stop := (j + 1 = n), nt_tail := tp, nt_fast := insert s (nt_fast w)\<rparr>"

lemma after_packet_sel [simp]:
  "nt_meta (after_packet n j tp s w) = nt_meta w" "nt_pos (after_packet n j tp s w) = j"
  "nt_last (after_packet n j tp s w) = j" "nt_stop (after_packet n j tp s w) = (j + 1 = n)" "nt_tail (after_packet n j tp s w) = tp"
  "nt_fast (after_packet n j tp s w) = insert s (nt_fast w)" "nt_patch (after_packet n j tp s w) = nt_patch w"
  "got (after_packet n j tp s w) = insert s (got w)"
  by (auto simp: after_packet_def got_def)

text \<open>The part that was written, at its place: the end of the file moves behind it.\<close>

lemma end_after:
  assumes f: "fits xs P first" and t: "first \<le> t" "s < n_packets (length xs) P" "length file \<le> place xs P first t s"
  shows "length (write_at file (place xs P first t s) (chunk P xs s)) = place xs P first t s + length (chunk P xs s)"
  using fits_small(3) [OF f t(2)] t(3) by (simp add: length_write_at)

lemma packet_ordinary:
  fixes xs P first w
  defines "n \<equiv> n_packets (length xs) P"
  assumes f: "fits xs P first" and w: "net_ok xs P first w" "data_ok xs P first w r file" "end_ok xs P first w r file" "\<not> nt_stop w"
    and j: "nt_last w < j" "j < n" and s: "s = (first + j) mod n" and c: "carries xs P p s"
    and side: "first = 0 \<or> n \<le> first + nt_last w \<or> first + j < n"
  shows "\<exists>r' mk. fp_place r file p (parseDataHdr p DATA_HDR_OFFSET) = Inr (r', write_at file (place xs P first (tail_part xs P w) s) (chunk P xs s), mk)
    \<and> \<not> fp_error mk \<and> is_fastpath r' = is_fastpath r
    \<and> data_ok xs P first (after_packet n j (nt_tail w) s w) (r'\<lparr>seq_lst := of_nat s\<rparr>) (write_at file (place xs P first (tail_part xs P w) s) (chunk P xs s))
    \<and> end_ok xs P first (after_packet n j (nt_tail w) s w) (r'\<lparr>seq_lst := of_nat s\<rparr>) (write_at file (place xs P first (tail_part xs P w) s) (chunk P xs s))"
proof -
  let ?l = "(first + nt_last w) mod n" and ?t = "tail_part xs P w" and ?w = "after_packet n j (nt_tail w) s w"
  have n: "first < n" "nt_last w < n" using f j by (auto simp: fits_def n_def)
  note cc = cyc_cases [OF n(1) n(2)] cyc_cases [OF n(1) j(2)]
  have ls: "?l < s" "first \<le> ?l \<or> s < first" "s < n" using cc j side n unfolding s by auto
  have z: "s \<noteq> 0" using ls(1) by simp
  note tb = tail_part_bounds [OF f w(1)]
  have st: "s \<le> ?t"
  proof (cases "nt_tail w")
    case None
    then show ?thesis using ls(3) by (simp add: tail_part_def n_def)
  next
    case (Some t)
    then have "first < t" "n < first + nt_last w" using w(1) by (auto simp: net_ok_def Let_def n_def)
    then show ?thesis using Some cc n j unfolding s by (auto simp: tail_part_def)
  qed
  have new: "s \<notin> got w" using packet_new [OF f w(1,4) j(1)] j(2) s by (simp add: n_def)
  note d = w(2) [unfolded data_ok_def Let_def, folded n_def]
  note e = w(3) [unfolded end_ok_def Let_def, folded n_def]
  obtain mk where fp: "fp_place r file p (parseDataHdr p DATA_HDR_OFFSET)
    = Inr (r\<lparr>fd_p := Some (place xs P first ?t s + length (chunk P xs s)), num_fast_recv_ed := num_fast_recv_ed r + 1\<rparr>,
        write_at file (place xs P first ?t s) (chunk P xs s), mk)" "\<not> fp_error mk"
    using fp_place_ordinary [OF f ls(1) ls(3)[unfolded n_def] ls(2), of r "file" ?t p] d e c by blast
  let ?r = "r\<lparr>fd_p := Some (place xs P first ?t s + length (chunk P xs s)), num_fast_recv_ed := num_fast_recv_ed r + 1\<rparr>"
  let ?file = "write_at file (place xs P first ?t s) (chunk P xs s)"
  have tp: "tail_part xs P ?w = ?t" by (simp add: tail_part_def)
  have ag: "agree (layout xs P first ?t) ?file (\<Union>x \<in> {x \<in> insert s (got w). x \<le> ?t}. part_span xs P first ?t x)"
    using agree_part [OF f tb(1) ls(3)[unfolded n_def] st] d by blast
  have le: "length file \<le> place xs P first ?t s"
    using place_step [OF f ls(1) ls(3)[unfolded n_def] ls(2), of ?t] e by simp
  have len: "length ?file = place xs P first ?t s + length (chunk P xs s)" by (rule end_after [OF f tb(1) ls(3)[unfolded n_def] le])
  have card: "card (insert s (nt_fast w)) = Suc (card (nt_fast w))"
    using new got_bounds(2) [OF f w(1)] by (simp add: got_def)
  have "data_ok xs P first ?w (?r\<lparr>seq_lst := of_nat s\<rparr>) ?file"
  proof -
    have b: "buffer_ok xs P ?w (?r\<lparr>seq_lst := of_nat s\<rparr>) = buffer_ok xs P w r" by (simp add: buffer_ok_def split: option.split)
    show ?thesis
      unfolding data_ok_def Let_def tp n_def [symmetric] after_packet_sel b s [symmetric] using d ag z card by (simp add: known_def)
  qed
  moreover have "end_ok xs P first ?w (?r\<lparr>seq_lst := of_nat s\<rparr>) ?file"
    unfolding end_ok_def Let_def tp n_def [symmetric] after_packet_sel using s len by simp
  ultimately show ?thesis using fp by (intro exI [of _ ?r] exI [of _ mk]) simp
qed

lemma packet_zero:
  fixes xs P first w
  defines "n \<equiv> n_packets (length xs) P"
  assumes f: "fits xs P first" and w: "net_ok xs P first w" "data_ok xs P first w r file" "end_ok xs P first w r file" "\<not> nt_stop w"
    and j: "nt_last w < j" "j < n" and s: "s = (first + j) mod n" and c: "carries xs P p s"
    and side: "first \<noteq> 0" "first + nt_last w < n" "first + j = n" "nt_last w = 0 \<longrightarrow> j = 1" and nm: "\<not> nt_meta w"
  shows "\<exists>r' mk. fp_place r file p (parseDataHdr p DATA_HDR_OFFSET) = Inr (r', write_at file (place xs P first (tail_part xs P w) s) (chunk P xs s), mk)
    \<and> \<not> fp_error mk \<and> is_fastpath r' = is_fastpath r
    \<and> data_ok xs P first (after_packet n j (nt_tail w) s w) (r'\<lparr>seq_lst := of_nat s\<rparr>) (write_at file (place xs P first (tail_part xs P w) s) (chunk P xs s))
    \<and> end_ok xs P first (after_packet n j (nt_tail w) s w) (r'\<lparr>seq_lst := of_nat s\<rparr>) (write_at file (place xs P first (tail_part xs P w) s) (chunk P xs s))"
proof -
  let ?l = "first + nt_last w" and ?t = "tail_part xs P w" and ?w = "after_packet n j (nt_tail w) s w"
  have n: "first < n" "nt_last w < n" using f j by (auto simp: fits_def n_def)
  have l: "(first + nt_last w) mod n = ?l" using side(2) by simp
  have s0: "s = 0" using side(3) s by simp
  have none: "nt_tail w = None" using w(1) side(2) by (auto simp: net_ok_def Let_def n_def split: option.splits)
  have t: "?t = n - 1" by (simp add: tail_part_def none n_def)
  have new: "0 \<notin> got w" using packet_new [OF f w(1,4) j(1)] j(2) s s0 by (simp add: n_def)
  note d = w(2) [unfolded data_ok_def Let_def, folded n_def]
  note e = w(3) [unfolded end_ok_def Let_def, folded n_def]
  have st: "?t = n_packets (length xs) P - 1" using t by (simp add: n_def)
  have pos: "place xs P first ?t 0 = length xs - first * P"
    using side(1) start_last(1) [OF f] by (simp add: place_def st)
  have lens: "length file = start_at xs P first ?l"
  proof -
    have "length file = place xs P first ?l ?l + length (chunk P xs ?l)" using e l by (simp add: place_def)
    then show ?thesis using place_end [OF f, of ?l] side(2) by (simp add: n_def)
  qed
  have early: "first < ?l \<or> ?l + 1 = n_packets (length xs) P" using side by (cases "nt_last w") (auto simp: n_def)
  have dd: "seq_lst r = of_nat ?l" "seq_fst r = of_nat first" "r_byte_payload r = of_nat P" "\<not> is_seq_zero r" "seq_tail r = 0"
    "fm_start (fileMetadata r) = -1" "tail_patch_buffer_len r = 0" "fd_p r = Some (length file)"
    using d e l new none nm by (auto simp: buffer_ok_def known_def)
  let ?file = "write_at file (length xs - first * P) (chunk P xs 0)"
  obtain app mk where fp: "fp_place r file p (parseDataHdr p DATA_HDR_OFFSET)
    = Inr (r\<lparr>r_data_size := int (length xs), r_app_id_str := app,
        r_seq_max := of_nat (n_packets (length xs) P), r_byte_payload_min := of_nat (last_bytes (length xs) P),
        fileMetadata := \<lparr>fm_start = int ((length xs - first * P) mod length xs), fm_jump = int (length xs)\<rparr>,
        is_seq_zero := True, fd_p := Some (length xs - first * P + length (chunk P xs 0)), num_fast_recv_ed := num_fast_recv_ed r + 1\<rparr>,
        ?file, mk)" "\<not> fp_error mk"
    using fp_place_zero [OF f _ _ side(1) early dd(1-8) lens c[unfolded s0]] side(2) by (auto simp: n_def)
  let ?r = "r\<lparr>r_data_size := int (length xs), r_app_id_str := app,
        r_seq_max := of_nat (n_packets (length xs) P), r_byte_payload_min := of_nat (last_bytes (length xs) P),
        fileMetadata := \<lparr>fm_start = int ((length xs - first * P) mod length xs), fm_jump = int (length xs)\<rparr>,
        is_seq_zero := True, fd_p := Some (length xs - first * P + length (chunk P xs 0)), num_fast_recv_ed := num_fast_recv_ed r + 1\<rparr>"
  have tp: "tail_part xs P ?w = ?t" by (simp add: tail_part_def)
  note tb = tail_part_bounds [OF f w(1)]
  have n0: "0 < n_packets (length xs) P" using n by (simp add: n_def)
  have ag: "agree (layout xs P first ?t) ?file (\<Union>x \<in> {x \<in> insert 0 (got w). x \<le> ?t}. part_span xs P first ?t x)"
    using agree_part [OF f tb(1) n0 le0] d unfolding pos by blast
  have "length file \<le> place xs P first ?t 0"
    unfolding pos lens start_at_def by simp
  then have len: "length ?file = length xs - first * P + length (chunk P xs 0)"
    using end_after [OF f tb(1) n0, of "file"] unfolding pos by blast
  have card: "card (insert 0 (nt_fast w)) = Suc (card (nt_fast w))"
    using new got_bounds(2) [OF f w(1)] by (simp add: got_def)
  have "data_ok xs P first ?w (?r\<lparr>seq_lst := of_nat s\<rparr>) ?file"
  proof -
    have b: "buffer_ok xs P ?w (?r\<lparr>seq_lst := of_nat s\<rparr>)" using d none by (simp add: buffer_ok_def)
    have sa: "start_at xs P first ?t = length xs - first * P" using start_last(1) [OF f] by (simp add: st)
    have m: "(first + j) mod n = 0" "s = 0" using s s0 by simp_all
    have tp0: "tail_part xs P (after_packet n' j None 0 w) = ?t" for n' by (simp add: tail_part_def none)
    show ?thesis
      unfolding data_ok_def Let_def n_def [symmetric]
      using d ag card none b sa m tp0 by (simp add: n_def known_def)
  qed
  moreover have "end_ok xs P first ?w (?r\<lparr>seq_lst := of_nat s\<rparr>) ?file"
    unfolding end_ok_def Let_def tp n_def [symmetric] after_packet_sel s [symmetric] using len pos s0 by simp
  ultimately show ?thesis using fp pos s0 by (intro exI [of _ ?r] exI [of _ mk]) simp
qed

lemma packet_wrap:
  fixes xs P first w
  defines "n \<equiv> n_packets (length xs) P"
  assumes f: "fits xs P first" and w: "net_ok xs P first w" "data_ok xs P first w r file" "end_ok xs P first w r file" "\<not> nt_stop w"
    and j: "nt_last w < j" "j < n" and s: "s = (first + j) mod n" and c: "carries xs P p s"
    and side: "first \<noteq> 0" "first + nt_last w < n" "n < first + j" "0 < nt_last w" and nm: "\<not> nt_meta w"
  defines "l \<equiv> first + nt_last w"
  shows "\<exists>r' mk. fp_place r file p (parseDataHdr p DATA_HDR_OFFSET) = Inr (r', write_at file (place xs P first l s) (chunk P xs s), mk)
    \<and> \<not> fp_error mk \<and> is_fastpath r' = is_fastpath r
    \<and> data_ok xs P first (after_packet n j (Some l) s w) (r'\<lparr>seq_lst := of_nat s\<rparr>) (write_at file (place xs P first l s) (chunk P xs s))
    \<and> end_ok xs P first (after_packet n j (Some l) s w) (r'\<lparr>seq_lst := of_nat s\<rparr>) (write_at file (place xs P first l s) (chunk P xs s))"
proof -
  let ?t = "tail_part xs P w" and ?w = "after_packet n j (Some l) s w"
  have n: "first < n" "nt_last w < n" using f j by (auto simp: fits_def n_def)
  have l: "(first + nt_last w) mod n = l" "l < n" "first < l" using side by (simp_all add: l_def)
  have sv: "0 < s" "s < first" "s < n" using cyc_cases [OF n(1) j(2)] side j unfolding s by auto
  have none: "nt_tail w = None" using w(1) side(2) by (auto simp: net_ok_def Let_def n_def split: option.splits)
  have t: "?t = n - 1" by (simp add: tail_part_def none n_def)
  have new: "s \<notin> got w" using packet_new [OF f w(1,4) j(1)] j(2) s by (simp add: n_def)
  have G: "\<forall>x \<in> got w. first \<le> x \<and> x \<le> l"
  proof
    fix x assume "x \<in> got w"
    then obtain i where i: "i \<le> nt_last w" "x = (first + i) mod n"
      using got_image [OF w(1,4)] unfolding n_def by blast
    then have "x = first + i" using side(2) by simp
    then show "first \<le> x \<and> x \<le> l" using i(1) by (simp add: l_def)
  qed
  have z: "0 \<notin> got w" using G side(1) by auto
  note d = w(2) [unfolded data_ok_def Let_def, folded n_def]
  note e = w(3) [unfolded end_ok_def Let_def, folded n_def]
  have ln: "l < n_packets (length xs) P" using l(2) by (simp add: n_def)
  have lens: "length file = start_at xs P first l"
  proof -
    have "length file = place xs P first l l + length (chunk P xs l)" using e l by (simp add: place_def)
    then show ?thesis using place_end [OF f _ ln] l(3) by simp
  qed
  have dd: "seq_lst r = of_nat l" "seq_fst r = of_nat first" "r_byte_payload r = of_nat P" "seq_tail r = 0"
    "fm_start (fileMetadata r) = -1" "fd_p r = Some (length file)"
    using d e l z none nm by (auto simp: known_def)
  let ?file = "write_at file (place xs P first l s) (chunk P xs s)"
  obtain mk where fp: "fp_place r file p (parseDataHdr p DATA_HDR_OFFSET)
    = Inr (r\<lparr>seq_tail := of_nat l, fileMetadata := (fileMetadata r)\<lparr>fm_start := int (start_at xs P first l)\<rparr>,
        fd_p := Some (place xs P first l s + length (chunk P xs s)), num_fast_recv_ed := num_fast_recv_ed r + 1\<rparr>, ?file, mk)" "\<not> fp_error mk"
    using fp_place_wrap [OF f l(3) ln sv(1,2) dd lens c] by blast
  let ?r = "r\<lparr>seq_tail := of_nat l, fileMetadata := (fileMetadata r)\<lparr>fm_start := int (start_at xs P first l)\<rparr>,
        fd_p := Some (place xs P first l s + length (chunk P xs s)), num_fast_recv_ed := num_fast_recv_ed r + 1\<rparr>"
  have tp: "tail_part xs P ?w = l" by (simp add: tail_part_def)
  have sn: "s < n_packets (length xs) P" "first \<le> l" "l \<le> ?t" "s \<le> l" using sv l t by (simp_all add: n_def)
  have ag0: "agree (layout xs P first l) file (\<Union>x \<in> {x \<in> got w. x \<le> l}. part_span xs P first l x)"
    by (rule agree_retail [OF f sn(2,3) G]) (use lens d in simp_all)
  have ag: "agree (layout xs P first l) ?file (\<Union>x \<in> {x \<in> insert s (got w). x \<le> l}. part_span xs P first l x)"
    by (rule agree_part [OF f sn(2,1,4) ag0])
  have "length file \<le> place xs P first l s" unfolding lens place_def using sv by simp
  then have len: "length ?file = place xs P first l s + length (chunk P xs s)" by (rule end_after [OF f sn(2,1)])
  have card: "card (insert s (nt_fast w)) = Suc (card (nt_fast w))"
    using new got_bounds(2) [OF f w(1)] by (simp add: got_def)
  have "data_ok xs P first ?w (?r\<lparr>seq_lst := of_nat s\<rparr>) ?file"
  proof -
    have b: "buffer_ok xs P ?w (?r\<lparr>seq_lst := of_nat s\<rparr>)" using d none z by (simp add: buffer_ok_def got_def)
    have "start_at xs P first l < length xs" by (rule start_small [OF f side(1)])
    then have sa: "start_at xs P first l mod length xs = start_at xs P first l" by simp
    show ?thesis
      unfolding data_ok_def Let_def tp n_def [symmetric] after_packet_sel s [symmetric]
      using d ag card b sa z nm sv(1) by (simp add: known_def)
  qed
  moreover have "end_ok xs P first ?w (?r\<lparr>seq_lst := of_nat s\<rparr>) ?file"
    unfolding end_ok_def Let_def tp n_def [symmetric] after_packet_sel s [symmetric] using len by simp
  ultimately show ?thesis using fp by (intro exI [of _ ?r] exI [of _ mk]) simp
qed

subsection \<open>The end\<close>

lemma all_data_iff:
  assumes f: "fits xs P first" and w: "net_ok xs P first w" "data_ok xs P first w r file"
  shows "hasGottenAllData r \<longleftrightarrow> got w = {..<n_packets (length xs) P}"
proof -
  let ?n = "n_packets (length xs) P"
  note b = got_bounds [OF f w(1)]
  have n: "?n < 4294967296" using f by (simp add: fits_def)
  have "nt_fast w \<inter> nt_patch w = {}" "first \<in> got w" using w(1) by (auto simp: net_ok_def Let_def got_def)
  then have c: "card (got w) = card (nt_fast w) + card (nt_patch w)" "0 < card (got w)"
    using b(2,3) by (auto simp: got_def card_Un_disjoint card_gt_0_iff)
  have cn: "card (got w) \<le> ?n" using card_mono [OF _ b(1)] by simp
  have sum: "num_fast_recv_ed r + num_slow_recv_ed r = int (card (got w))" and mx: "r_seq_max r = (if known w then of_nat ?n else 0)"
    using w(2) c(1) by (simp_all add: data_ok_def Let_def)
  have all: "got w = {..<?n} \<longleftrightarrow> card (got w) = ?n" using b(1) by (metis card_lessThan card_subset_eq finite_lessThan)
  have z: "(of_nat (card (got w)) :: u32) \<noteq> 0" using of_nat_zero_u32 [of "card (got w)"] cn n c(2) by simp
  have e: "(of_nat (card (got w)) :: u32) = of_nat ?n \<longleftrightarrow> card (got w) = ?n" using of_nat_eq_u32 [of "card (got w)" ?n] cn n by simp
  have "0 < ?n" using cn c(2) by linarith
  then have "got w = {..<?n} \<Longrightarrow> known w" by (simp add: known_def)
  moreover have "hasGottenAllData r \<longleftrightarrow> known w \<and> card (got w) = ?n"
    unfolding hasGottenAllData_def sum mx using z e by simp
  ultimately show ?thesis using all by blast
qed

lemma read_order_parts: "read_order ((A @ B) @ T) (int (length A)) (int (length (A @ B))) = B @ A @ T"
  unfolding read_order_def nat_int by simp

lemma read_layout:
  assumes f: "fits xs P first" and t: "first \<le> t" "t < n_packets (length xs) P" "first = 0 \<longrightarrow> t = n_packets (length xs) P - 1"
  shows "read_order (layout xs P first t @ tail_of xs P t) (int (start_at xs P first t mod length xs)) (int (length (layout xs P first t))) = xs"
proof (cases "first = 0")
  case True
  have st: "start_at xs P first t = length xs" using start_last(1) [OF f] t(3) True by simp
  have "length xs \<le> (t + 1) * P" using st True by (simp add: start_at_def)
  then have "layout xs P first t @ tail_of xs P t = xs" using st True by (simp add: layout_def tail_of_def)
  moreover have "length (layout xs P first t) = length xs" using st True by (simp add: layout_def)
  ultimately show ?thesis unfolding st by (simp add: read_order_def)
next
  case False
  let ?st = "start_at xs P first t"
  have st: "?st mod length xs = ?st" using start_small [OF f False] by simp
  note fb = first_before [OF f t(1)]
  have lA: "length (take ?st (drop (first * P) xs)) = ?st" by (simp add: start_at_def)
  have "take ?st (drop (first * P) xs) @ tail_of xs P t = drop (first * P) xs"
  proof (cases "(t + 1) * P \<le> length xs")
    case True
    then have "?st = (t + 1) * P - first * P" "first * P \<le> (t + 1) * P" using fb by (simp_all add: start_at_def)
    then have "tail_of xs P t = drop ?st (drop (first * P) xs)" by (simp add: tail_of_def)
    then show ?thesis by (simp only: append_take_drop_id)
  next
    case False
    then show ?thesis by (simp add: start_at_def tail_of_def)
  qed
  moreover have "read_order (layout xs P first t @ tail_of xs P t) (int ?st) (int (length (layout xs P first t)))
      = take (first * P) xs @ take ?st (drop (first * P) xs) @ tail_of xs P t"
    using read_order_parts [of "take ?st (drop (first * P) xs)" "take (first * P) xs" "tail_of xs P t"] unfolding lA layout_def by blast
  ultimately show ?thesis unfolding st by simp
qed

lemma finish_ok:
  assumes f: "fits xs P first" and w: "net_ok xs P first w" "data_ok xs P first w r file" and all: "got w = {..<n_packets (length xs) P}"
  shows "\<exists>r' file'. finishRecv now r file = Inr (r', file') \<and> is_finished r' \<and> is_fastpath r' = is_fastpath r
    \<and> read_order file' (fm_start (fileMetadata r')) (fm_jump (fileMetadata r')) = xs"
proof -
  let ?n = "n_packets (length xs) P" and ?t = "tail_part xs P w"
  note tb = tail_part_bounds [OF f w(1)]
  note d = w(2) [unfolded data_ok_def Let_def]
  have n0: "0 < ?n" using tb(2) by simp
  have z: "0 \<in> got w" using all n0 by simp
  have fl: "file = layout xs P first ?t"
  proof (rule agree_total)
    have "{..<length (layout xs P first ?t)} \<subseteq> (\<Union>s \<in> {s \<in> got w. s \<le> ?t}. part_span xs P first ?t s)"
      using spans_cover [OF f tb(1)] all tb(2) by fastforce
    then show "agree (layout xs P first ?t) file {..<length (layout xs P first ?t)}"
      using d agree_subset by blast
  qed
  have f0: "first = 0 \<longrightarrow> ?t = ?n - 1" using w(1) by (auto simp: net_ok_def Let_def tail_part_def split: option.splits)
  have start: "fm_start (fileMetadata r) = int (start_at xs P first ?t mod length xs)" using d z by (simp add: known_def)
  note rd = read_layout [OF f tb f0]
  obtain p1 p2 where fds: "fd_p r = Some p1" "fd_patch_p r = Some p2" using d by auto
  consider (no) "tail_patch_buffer r = NullBuf" "tail_patch_buffer_len r = 0" "tail_of xs P ?t = []"
    | (buf) b where "tail_patch_buffer r = Buf b" "tail_patch_buffer_len r = int (length b)" "b = tail_of xs P ?t"
  proof (cases "nt_tail w")
    case None
    then have "?t + 1 = ?n" using n0 by (simp add: tail_part_def)
    then have "tail_of xs P ?t = []" unfolding tail_of_def using packets_enough [OF f] by (simp only: drop_all)
    then show ?thesis using no d None by (simp add: buffer_ok_def)
  next
    case (Some t)
    then have t: "?t = t" by (simp add: tail_part_def)
    have zS: "0 \<in> nt_patch w" using w(1) Some z by (simp add: net_ok_def Let_def got_def)
    show ?thesis
    proof (cases "tail_of xs P t = []")
      case True
      then show ?thesis using no d Some t by (simp add: buffer_ok_def)
    next
      case False
      then obtain b where b: "tail_patch_buffer r = Buf b" "tail_patch_buffer_len r = int (length b)"
        "length b = length (tail_of xs P t)"
        "agree (tail_of xs P t) b (tail_parts xs P t (nt_patch w))"
        using d Some zS by (auto simp: buffer_ok_def)
      have "b = tail_of xs P t"
      proof (rule agree_total, rule agree_subset [OF b(4)], rule subsetI)
        fix i assume "i \<in> {..<length (tail_of xs P t)}"
        then have i: "i + (t + 1) * P < length xs" by (simp add: tail_of_def)
        have P: "0 < P" using f by (simp add: fits_def)
        let ?s = "t + 1 + i div P"
        have di: "i div P * P \<le> i" "i < i div P * P + P" using P dividend_less_times_div [of P i] by (simp_all add: mult.commute)
        have e: "?s * P = (t + 1) * P + i div P * P" by (simp only: add_mult_distrib)
        have "?s * P < length xs" using e di(1) i by linarith
        moreover note packets_enough [OF f]
        ultimately have "?s * P < ?n * P" by linarith
        then have sn: "?s < ?n" using mult_less_cancel2 [of ?s P ?n] by blast
        moreover have "\<forall>x \<in> nt_fast w. x \<le> t" using w(1) Some by (simp add: net_ok_def Let_def)
        moreover have "?s \<in> got w" "\<not> ?s \<le> t" using all sn by auto
        ultimately have sS: "?s \<in> nt_patch w" "t < ?s" by (auto simp: got_def)
        have "i < i div P * P + length (chunk P xs ?s)" unfolding length_chunk_min e using di i by linarith
        then have "i \<in> {(?s - t - 1) * P..<(?s - t - 1) * P + length (chunk P xs ?s)}" using di(1) by simp
        then show "i \<in> tail_parts xs P t (nt_patch w)"
          unfolding tail_parts_def using sS by blast
      qed
      then show ?thesis using buf b t by simp
    qed
  qed
  then show ?thesis
  proof cases
    case no
    then show ?thesis using fds rd start fl by (simp add: finishRecv_def Let_def)
  next
    case (buf b)
    have "write_at file (length file) b = file @ b" by (simp add: write_at_def)
    then show ?thesis using fds rd start fl buf by (simp add: finishRecv_def Let_def)
  qed
qed

subsection \<open>A packet keeps the invariant\<close>

text \<open>Fields that do not matter.\<close>

lemma data_ok_lock: "data_ok xs P first w (r\<lparr>lock_processingFastData := b\<rparr>) file = data_ok xs P first w r file"
  by (simp add: data_ok_def buffer_ok_def Let_def split: option.split)

lemma end_ok_lock: "end_ok xs P first w (r\<lparr>lock_processingFastData := b\<rparr>) file = end_ok xs P first w r file"
  by (simp add: end_ok_def Let_def)

lemma data_ok_stop: "data_ok xs P first w (stopFathPath now r) file = data_ok xs P first w r file"
  by (simp add: stopFathPath_def data_ok_def buffer_ok_def Let_def split: option.split)

lemma data_ok_jump:
  "data_ok xs P first w (r\<lparr>fileMetadata := (fileMetadata r)\<lparr>fm_jump := i\<rparr>\<rparr>) file = data_ok xs P first w r file"
  by (simp add: data_ok_def buffer_ok_def Let_def split: option.split)

lemma data_ok_net:
  "data_ok xs P first (w\<lparr>nt_stop := b\<rparr>) r file = data_ok xs P first w r file"
  by (simp add: data_ok_def buffer_ok_def Let_def got_def known_def tail_part_def split: option.split)

lemma stop_not_fast [simp]: "\<not> is_fastpath (stopFathPath now r)"
  by (simp add: stopFathPath_def)

text \<open>The last packet of the round ends the fast path.\<close>

lemma last_packet_iff:
  assumes f: "fits xs P first" and w: "net_ok xs P first w" "data_ok xs P first w r file"
    and j: "j < n_packets (length xs) P" and dh: "seq_num dh = of_nat ((first + j) mod n_packets (length xs) P)"
  shows "fp_is_last r dh \<longleftrightarrow> j + 1 = n_packets (length xs) P"
proof -
  let ?n = "n_packets (length xs) P" and ?s = "(first + j) mod n_packets (length xs) P"
  have n: "first < ?n" "?n < 2147483547" "j < ?n" using f j by (auto simp: fits_def)
  have small: "?s + 1 < 4294967296" "first < 4294967296" "?n < 4294967296"
  proof -
    have "?s < ?n" using n(1) by simp
    then show "?s + 1 < 4294967296" using n(2) by linarith
  qed (use n in linarith)+
  have e: "of_nat ?s + 1 = (of_nat m :: u32) \<longleftrightarrow> ?s + 1 = m" if "m < 4294967296" for m
    using of_nat_eq_u32 [OF small(1) that] by (simp add: add.commute)
  have fz: "(of_nat first :: u32) = 0 \<longleftrightarrow> first = 0" by (rule of_nat_zero_u32 [OF small(2)])
  have "first = 0 \<longrightarrow> 0 \<in> got w" using w(1) by (auto simp: net_ok_def Let_def got_def)
  then have d: "seq_fst r = of_nat first" "first = 0 \<longrightarrow> r_seq_max r = of_nat ?n"
    using w(2) by (simp_all add: data_ok_def Let_def known_def)
  have "fp_is_last r dh \<longleftrightarrow> (if first = 0 then ?s + 1 = ?n else ?s + 1 = first)"
    using d fz e [OF small(2)] e [OF small(3)] by (auto simp: fp_is_last_def dh)
  then show ?thesis using last_iff [OF n(3,1)] by simp
qed

text \<open>What follows the placing of a packet.\<close>

lemma after_place:
  assumes f: "fits xs P first" and w: "net_ok xs P first w" "data_ok xs P first w r file" "end_ok xs P first w r file"
    and fast: "is_fastpath r" "nt_stop w = (j + 1 = n_packets (length xs) P)"
    and j: "nt_last w \<le> j" "j < n_packets (length xs) P" and dh: "seq_num dh = of_nat ((first + j) mod n_packets (length xs) P)"
  shows "\<exists>r' file' all. fp_last now r file dh = Inr (r', file', all)
    \<and> repair_inv xs P first w (r'\<lparr>lock_processingFastData := b\<rparr>, file')"
proof (cases "j + 1 = n_packets (length xs) P")
  case False
  then have "\<not> fp_is_last r dh" using last_packet_iff [OF f w(1,2) j(2) dh] by simp
  moreover have "got w \<noteq> {..<n_packets (length xs) P}"
  proof
    assume g: "got w = {..<n_packets (length xs) P}"
    have "first < n_packets (length xs) P" "nt_last w < n_packets (length xs) P" "nt_last w + 1 < n_packets (length xs) P"
      using f w(1) False j by (auto simp: fits_def net_ok_def Let_def)
    moreover have "(first + (nt_last w + 1)) mod n_packets (length xs) P \<in> got w" using g calculation by simp
    then obtain i where "i \<le> nt_last w" "(first + (nt_last w + 1)) mod n_packets (length xs) P = (first + i) mod n_packets (length xs) P"
      using got_image [OF w(1)] fast(2) False by blast
    ultimately show False using cyc_inj [of first "n_packets (length xs) P" "nt_last w + 1" i] by simp
  qed
  ultimately show ?thesis
    using w fast False by (intro exI [of _ r] exI [of _ "file"] exI [of _ False])
      (simp add: fp_last_def repair_inv_def data_ok_lock end_ok_lock)
next
  case True
  then have last: "fp_is_last r dh" using last_packet_iff [OF f w(1,2) j(2) dh] by simp
  obtain pos where pos: "fd_p r = Some pos" using w(2) by (auto simp: data_ok_def Let_def)
  define r1 where "r1 = (stopFathPath now r)\<lparr>fileMetadata := (fileMetadata (stopFathPath now r))\<lparr>fm_jump := int pos\<rparr>\<rparr>"
  have d1: "data_ok xs P first w r1 file" unfolding r1_def data_ok_jump data_ok_stop by (rule w(2))
  have f1: "\<not> is_fastpath r1" by (simp add: r1_def)
  have fd: "fd_p (stopFathPath now r) = Some pos" using pos by (simp add: stopFathPath_def)
  have e: "fp_last now r file dh = (if hasGottenAllData r1 then rbind (finishRecv now r1 file) (\<lambda>(r, file). Inr (r, file, True))
      else Inr (r1, file, False))"
    using last fd by (simp add: fp_last_def Let_def r1_def)
  show ?thesis
  proof (cases "got w = {..<n_packets (length xs) P}")
    case False
    then have "fp_last now r file dh = Inr (r1, file, False)" using e all_data_iff [OF f w(1) d1] by simp
    then show ?thesis using False True fast(2) w(1) d1 f1
      by (intro exI [of _ r1] exI [of _ "file"] exI [of _ False]) (simp add: repair_inv_def data_ok_lock)
  next
    case all: True
    obtain r' fl where "finishRecv now r1 file = Inr (r', fl)" "is_finished r'" "is_fastpath r' = is_fastpath r1"
      "read_order fl (fm_start (fileMetadata r')) (fm_jump (fileMetadata r')) = xs"
      using finish_ok [OF f w(1) d1 all] by blast
    then show ?thesis using e all_data_iff [OF f w(1) d1] all f1 w(1)
      by (intro exI [of _ r'] exI [of _ fl] exI [of _ True]) (simp add: repair_inv_def)
  qed
qed

text \<open>Packets behind a loss of everything between the first packet and the end of the data are not taken.\<close>

definition after_reject :: "nat \<Rightarrow> nat \<Rightarrow> nat \<Rightarrow> net \<Rightarrow> net" where
  "after_reject n j s w = w\<lparr>nt_pos := j, nt_stop := (j + 1 = n), nt_meta := (nt_meta w \<or> s = 0)\<rparr>"

lemma after_reject_sel [simp]:
  "nt_last (after_reject n j s w) = nt_last w" "nt_stop (after_reject n j s w) = (j + 1 = n)" "nt_tail (after_reject n j s w) = nt_tail w"
  "nt_fast (after_reject n j s w) = nt_fast w" "nt_patch (after_reject n j s w) = nt_patch w"
  "nt_meta (after_reject n j s w) = (nt_meta w \<or> s = 0)" "got (after_reject n j s w) = got w"
  "tail_part xs P (after_reject n j s w) = tail_part xs P w"
  by (auto simp: after_reject_def got_def tail_part_def)

lemma fp_place_reject:
  fixes xs P first w
  defines "n \<equiv> n_packets (length xs) P"
  assumes f: "fits xs P first" and w: "net_ok xs P first w" "data_ok xs P first w r file" "is_fastpath r" "end_ok xs P first w r file"
    and j: "j < n" "s = (first + j) mod n" and c: "carries xs P p s"
    and side: "nt_last w = 0 \<and> first \<noteq> 0 \<and> n \<le> first + j \<and> j \<noteq> 1"
  shows "\<exists>r1 mk. fp_place (r\<lparr>lock_processingFastData := True\<rparr>) file p (parseDataHdr p DATA_HDR_OFFSET) = Inr (r1, file, mk)
    \<and> fp_error mk \<and> is_fastpath r1 \<and> data_ok xs P first (after_reject n j s w) r1 file \<and> end_ok xs P first (after_reject n j s w) r1 file"
proof -
  let ?dh = "parseDataHdr p DATA_HDR_OFFSET" and ?r = "r\<lparr>lock_processingFastData := True\<rparr>" and ?w = "after_reject n j s w"
  have n: "first < n" "n < 2147483547" "first < 4294967296" using f by (auto simp: fits_def n_def)
  have sv: "s < first" "s = first + j - n" using side j cyc_cases [OF n(1) j(1)] by auto
  have sn: "seq_num ?dh = of_nat s" using c by (simp add: carries_def Let_def)
  have none: "nt_tail w = None" using w(1) side n(1) by (auto simp: net_ok_def Let_def n_def split: option.splits)
  have l: "(first + nt_last w) mod n = first" using side n(1) by simp
  note d = w(2) [unfolded data_ok_def Let_def, folded n_def, unfolded l]
  have lst: "seq_lst r = of_nat first" "seq_fst r = of_nat first" using d by auto
  have e: "end_ok xs P first ?w r1 file" if "fd_p r1 = fd_p r" for r1
    using w(4) that by (simp add: end_ok_def Let_def)
  have b: "buffer_ok xs P ?w r1 = buffer_ok xs P w r1" for r1 by (simp add: buffer_ok_def none)
  show ?thesis
  proof (cases "s = 0")
    case False
    have u: "unat (of_nat s :: u32) = s" "unat (of_nat first :: u32) = first" using sv(1) n(3) by (simp_all add: unat_of_nat_u32)
    have z: "seq_num ?dh \<noteq> 0" using of_nat_zero_u32 [of s] sv(1) n(3) False by (simp add: sn)
    have lt: "\<not> seq_lst r < seq_num ?dh" "\<not> seq_fst r < seq_lst r"
      unfolding lst sn using sv(1) by (simp_all add: word_less_nat_alt u)
    have no: "seq_num ?dh - seq_lst r \<noteq> 1"
    proof
      assume "seq_num ?dh - seq_lst r = 1"
      then have "(of_nat s :: u32) = of_nat (first + 1)" unfolding sn lst by (metis add.commute diff_add_cancel of_nat_1 of_nat_add)
      then show False using of_nat_eq_u32 [of s "first + 1"] sv(1) n by simp
    qed
    have run: "fp_place ?r file p ?dh = Inr (?r, file, fp_none\<lparr>fp_error := True\<rparr>)"
      using z lt no by (simp add: fp_place_def Let_def)
    have "data_ok xs P first ?w ?r file"
      unfolding data_ok_lock using w(2) False by (simp add: data_ok_def Let_def known_def buffer_ok_def none)
    then show ?thesis
      using run w(3) e [of ?r] by (intro exI [of _ ?r] exI [of _ "fp_none\<lparr>fp_error := True\<rparr>"]) simp
  next
    case True
    let ?bm = "parseBcdMetadata p (DATA_PAYLOAD_OFFSET + unat (dh_len ?dh))"
    have bm: "DATA_PAYLOAD_OFFSET + unat (dh_len ?dh) + BCDMETADATA_LEN \<le> length p"
      "bm_data_size ?bm = int (length xs)" "length (takeWhile (\<lambda>b. b \<noteq> 0) (bm_app_id ?bm)) < APPID_LEN" "seq_num ?dh = 0"
      using c True by (simp_all add: carries_def Let_def)
    have fn: "first + 1 < n" using sv side j(1) n(1) True by auto
    have kn: "known ?w" using True by (simp add: known_def)
    show ?thesis
    proof (cases "known w")
      case k: True
      then have "is_seq_zero r" using d by simp
      then have run: "fp_place ?r file p ?dh = Inr (?r, file, fp_none\<lparr>fp_error := True\<rparr>)"
        using bm by (simp add: fp_place_def fp_seq_zero_def updateBcdMetadata_def)
      have "data_ok xs P first ?w ?r file"
        unfolding data_ok_lock using w(2) k kn by (simp add: data_ok_def Let_def buffer_ok_def none)
      then show ?thesis
        using run w(3) e [of ?r] by (intro exI [of _ ?r] exI [of _ "fp_none\<lparr>fp_error := True\<rparr>"]) simp
    next
      case k: False
      have dd: "\<not> is_seq_zero ?r" "seq_tail ?r = 0" "r_byte_payload ?r = of_nat P" "seq_fst ?r = of_nat first"
        "fm_start (fileMetadata ?r) = -1" "tail_patch_buffer_len ?r = 0"
        using d none k by (auto simp: buffer_ok_def)
      define r1 where "r1 = ?r\<lparr>r_data_size := int (length xs), r_app_id_str := strncpy (bm_app_id ?bm) APPID_LEN,
        r_seq_max := of_nat n, r_byte_payload_min := of_nat (last_bytes (length xs) P),
        fileMetadata := \<lparr>fm_start = int ((length xs - first * P) mod length xs), fm_jump = int (length xs)\<rparr>, is_seq_zero := True\<rparr>"
      have up: "updateBcdMetadata ?r ?bm = Inr (0, r1)"
        using updateBcdMetadata_lossless [OF f bm(2,3) dd(1-6)] by (auto simp: r1_def n_def)
      have ne: "seq_lst r1 \<noteq> r_seq_max r1 - 1" "seq_lst r1 \<noteq> SEQNUM_MAX" "\<not> seq_fst r1 < seq_lst r1"
      proof -
        have "(of_nat n - 1 :: u32) = of_nat (n - 1)" using n(1) by (simp add: of_nat_diff)
        moreover have "(of_nat first :: u32) \<noteq> of_nat (n - 1)" using of_nat_eq_u32 [of first "n - 1"] fn n by simp
        ultimately show "seq_lst r1 \<noteq> r_seq_max r1 - 1" using lst by (simp add: r1_def)
        have "unat SEQNUM_MAX = 2147483547" "unat (of_nat first :: u32) = first"
          using n(3) by (simp_all add: SEQNUM_MAX_def unat_of_nat_u32)
        then have "unat (of_nat first :: u32) \<noteq> unat SEQNUM_MAX" using n by simp
        then show "seq_lst r1 \<noteq> SEQNUM_MAX" using lst by (auto simp: r1_def)
        show "\<not> seq_fst r1 < seq_lst r1" using lst by (simp add: r1_def)
      qed
      have run: "fp_place ?r file p ?dh = Inr (r1, file, fp_none\<lparr>fp_error := True\<rparr>)"
        using bm(1,4) up ne by (simp add: fp_place_def fp_seq_zero_def)
      have tp: "tail_part xs P ?w = n_packets (length xs) P - 1" "tail_part xs P w = n_packets (length xs) P - 1"
        using none by (simp_all add: tail_part_def)
      have "data_ok xs P first ?w r1 file"
        unfolding data_ok_def Let_def tp start_last(1) [OF f]
        using d kn none l by (simp add: r1_def buffer_ok_def tp n_def)
      then show ?thesis
        using run w(3) e [of r1] by (intro exI [of _ r1] exI [of _ "fp_none\<lparr>fp_error := True\<rparr>"]) (simp add: r1_def)
    qed
  qed
qed

lemma packet_keeps:
  assumes f: "fits xs P first" and inv: "repair_inv xs P first w (r, file)" and st: "net_step xs P first w (FastPacket p) w'"
  shows "\<exists>st'. repair_do now (FastPacket p) (r, file) = Inr st' \<and> repair_inv xs P first w' st'"
  using st
proof cases
  let ?n = "n_packets (length xs) P" and ?dh = "parseDataHdr p DATA_HDR_OFFSET"
  {
    case (packet j s tp)
    have w: "net_ok xs P first w" using inv by (simp add: repair_inv_def)
    have w': "net_ok xs P first w'" by (rule net_step_ok [OF f w st])
    have n: "first < ?n" using f by (simp add: fits_def)
    note pt = packet_taken [OF w packet(3,7)]
    have new: "s \<notin> got w" using packet_new [OF f w packet(2) pt(2) packet(4)] packet(5) by simp
    have sn: "s < ?n" using packet(5) n by simp
    have ng: "got w \<noteq> {..<?n}" using new sn by auto
    then have d: "data_ok xs P first w r file" "is_fastpath r" "end_ok xs P first w r file"
      using inv packet(2) by (simp_all add: repair_inv_def)
    let ?r = "r\<lparr>lock_processingFastData := True\<rparr>"
    have dl: "data_ok xs P first w ?r file" "end_ok xs P first w ?r file" using d by (simp_all only: data_ok_lock end_ok_lock)
    have we: "w' = after_packet ?n j tp s w" unfolding packet(1) after_packet_def ..
    obtain r1 f1 mk where r1: "fp_place ?r file p ?dh = Inr (r1, f1, mk)" "\<not> fp_error mk" "is_fastpath r1"
      "data_ok xs P first w' (r1\<lparr>seq_lst := of_nat s\<rparr>) f1" "end_ok xs P first w' (r1\<lparr>seq_lst := of_nat s\<rparr>) f1"
    proof -
      consider (a) "first = 0 \<or> ?n \<le> first + nt_last w \<or> first + j < ?n" "tp = nt_tail w"
        | (z) "first \<noteq> 0" "first + nt_last w < ?n" "first + j = ?n" "tp = nt_tail w"
        | (x) "first \<noteq> 0" "first + nt_last w < ?n" "?n < first + j" "tp = Some (first + nt_last w)"
      proof (cases "first = 0 \<or> ?n \<le> first + nt_last w")
        case True
        then have "tp = nt_tail w" using packet(8) by auto
        then show ?thesis using a True by blast
      next
        case False
        then have u: "first \<noteq> 0" "first + nt_last w < ?n" by auto
        consider "first + j < ?n" | "first + j = ?n" | "?n < first + j" by linarith
        then show ?thesis by cases (use u packet(8) a z x in simp_all)
      qed
      then show ?thesis
      proof cases
        case a
        show ?thesis
          using packet_ordinary [OF f w dl packet(2) pt(2) packet(4,5,6) a(1)] that d(2) we a(2) by auto
      next
        case z
        have "nt_last w = 0 \<longrightarrow> j = 1" using packet(7) z by simp
        then show ?thesis
          using packet_zero [OF f w dl packet(2) pt(2) packet(4,5,6) z(1-3) _ pt(3)] that d(2) we z(4) by auto
      next
        case x
        have "0 < nt_last w" using packet(7) x n by (cases "nt_last w") auto
        then show ?thesis
          using packet_wrap [OF f w dl packet(2) pt(2) packet(4,5,6) x(1-3) _ pt(3)] that d(2) we x(4) by auto
      qed
    qed
    have dh: "seq_num ?dh = of_nat s" using packet(6) by (simp add: carries_def Let_def)
    have fst: "fp_first ?r ?dh = (?r, False)" using d(1) by (simp add: fp_first_def data_ok_def Let_def)
    have "seq_num ?dh = of_nat ((first + j) mod ?n)" "nt_stop w' = (j + 1 = ?n)" "nt_last w' \<le> j"
      using dh packet(5) by (simp_all add: we)
    note ap = after_place [OF f w' r1(4,5) _ this(2,3) packet(4) this(1), of now False]
    obtain r2 f2 all where r2: "fp_last now (r1\<lparr>seq_lst := of_nat s\<rparr>) f1 ?dh = Inr (r2, f2, all)"
      "repair_inv xs P first w' (r2\<lparr>lock_processingFastData := False\<rparr>, f2)" using ap r1(3) by auto
    have "\<exists>out. fast_path now r file p ?dh = Inr (r2\<lparr>lock_processingFastData := False\<rparr>, f2, out)"
      using d(2) fst r1(1,2) r2(1) by (simp add: fast_path_def dh)
    then show ?thesis using r2(2) by (auto simp: repair_do_def)
  next
    case (reject j s)
    have w: "net_ok xs P first w" using inv by (simp add: repair_inv_def)
    have w': "net_ok xs P first w'" by (rule net_step_ok [OF f w st])
    have nl: "nt_last w < j" using reject(3) w by (auto simp: net_ok_def Let_def)
    have "s \<notin> got w" using packet_new [OF f w reject(2) nl reject(4)] reject(5) by simp
    moreover have "s < ?n" using reject(5) f by (simp add: fits_def)
    ultimately have ng: "got w \<noteq> {..<?n}" by auto
    then have d: "data_ok xs P first w r file" "is_fastpath r" "end_ok xs P first w r file"
      using inv reject(2) by (simp_all add: repair_inv_def)
    have we: "w' = after_reject ?n j s w" unfolding reject(1) after_reject_def ..
    obtain r1 mk where r1: "fp_place (r\<lparr>lock_processingFastData := True\<rparr>) file p ?dh = Inr (r1, file, mk)" "fp_error mk" "is_fastpath r1"
      "data_ok xs P first w' r1 file" "end_ok xs P first w' r1 file"
      using fp_place_reject [OF f w d reject(4,5,6,7)] nl we by blast
    have dh: "seq_num ?dh = of_nat ((first + j) mod ?n)" using reject(5,6) by (simp add: carries_def Let_def)
    have fst: "fp_first (r\<lparr>lock_processingFastData := True\<rparr>) ?dh = (r\<lparr>lock_processingFastData := True\<rparr>, False)"
      using d(1) by (simp add: fp_first_def data_ok_def Let_def)
    have "nt_stop w' = (j + 1 = ?n)" "nt_last w' \<le> j" using nl by (simp_all add: we)
    note ap = after_place [OF f w' r1(4,5,3) this reject(4) dh, of now False]
    obtain r2 f2 all where r2: "fp_last now r1 file ?dh = Inr (r2, f2, all)"
      "repair_inv xs P first w' (r2\<lparr>lock_processingFastData := False\<rparr>, f2)" using ap by auto
    have "\<exists>out. fast_path now r file p ?dh = Inr (r2\<lparr>lock_processingFastData := False\<rparr>, f2, out)"
      using d(2) fst r1(1,2) r2(1) by (simp add: fast_path_def)
    then show ?thesis using r2(2) by (auto simp: repair_do_def)
  }
qed

subsection \<open>A patch\<close>

definition after_patch :: "nat \<Rightarrow> net \<Rightarrow> net" where
  "after_patch s w = w\<lparr>nt_patch := insert s (nt_patch w)\<rparr>"

lemma after_patch_sel [simp]:
  "nt_pos (after_patch s w) = nt_pos w" "nt_meta (after_patch s w) = nt_meta w"
  "nt_last (after_patch s w) = nt_last w" "nt_stop (after_patch s w) = nt_stop w" "nt_tail (after_patch s w) = nt_tail w"
  "nt_fast (after_patch s w) = nt_fast w" "nt_patch (after_patch s w) = insert s (nt_patch w)" "got (after_patch s w) = insert s (got w)"
  "tail_part xs P (after_patch s w) = tail_part xs P w"
  by (auto simp: after_patch_def got_def tail_part_def)

text \<open>The metadata from a patch, when the loss of part 0 was noticed on the fast path: the tail buffer is made.\<close>

lemma tail_len_spec:
  assumes f: "fits xs P first" and t: "0 < t" "t < n_packets (length xs) P" and L: "length xs < 2 ^ 31"
    and r: "r_seq_max r = of_nat (n_packets (length xs) P)" "seq_tail r = of_nat t" "r_byte_payload r = of_nat P"
      "r_byte_payload_min r = of_nat (last_bytes (length xs) P)"
  shows "if tail_of xs P t = [] then tail_len r \<le> 0 else tail_len r = int (length (tail_of xs P t)) \<and> 0 < tail_len r"
proof -
  let ?n = "n_packets (length xs) P" and ?m = "last_bytes (length xs) P"
  have P: "0 < P" "P < 65536" "xs \<noteq> []" using f by (auto simp: fits_def)
  have L0: "0 < length xs" using P(3) by simp
  note c = packets_cover [OF L0 P(1)]
  have up: "(ucast (of_nat P :: u16) :: u32) = of_nat P" "(ucast (of_nat ?m :: u16) :: u32) = of_nat ?m"
    using P(2) c(4) by (simp_all add: u32_eq_iff_unat unsigned_ucast_eq unat_of_nat_u16 unat_of_nat_u32 take_bit_eq_mod)
  show ?thesis
  proof (cases "t + 1 = ?n")
    case True
    have "tail_of xs P t = []" using packets_enough [OF f] unfolding tail_of_def True by simp
    moreover have "tail_len r = int ?m - int P"
    proof -
      have "(of_nat ?n - of_nat t - 1 - 1 :: u32) = -1" unfolding True [symmetric] by simp
      then have "tail_len r = to_s32 (of_nat ?m - of_nat P)" unfolding tail_len_def r up by simp
      also have "(of_nat ?m - of_nat P :: u32) = word_of_int (int ?m - int P)" by simp
      finally have "tail_len r = signed_take_bit 31 (int ?m - int P)" unfolding to_s32_def sint_sbintrunc' by simp
      also have "\<dots> = int ?m - int P" using c(3,4) P(2) by (intro signed_take_bit_int_eq_self) simp_all
      finally show ?thesis .
    qed
    ultimately show ?thesis using c(4) by simp
  next
    case False
    then have lt: "t + 2 \<le> ?n" using t(2) by simp
    have a: "?n - t - 2 + (t + 1) = ?n - 1" using lt by simp
    have "(?n - t - 2) * P + (t + 1) * P = (?n - 1) * P" by (simp only: a flip: add_mult_distrib)
    then have len: "length (tail_of xs P t) = (?n - t - 2) * P + ?m" "0 < length (tail_of xs P t)"
      using c(2,3) by (simp_all add: tail_of_def)
    have "(of_nat ?n - of_nat t - 1 - 1 :: u32) = of_nat (?n - t - 2)" using lt by (simp add: of_nat_diff)
    then have "tail_len r = to_s32 (of_nat (length (tail_of xs P t)))" unfolding tail_len_def r up len by simp
    moreover have "length (tail_of xs P t) < 2 ^ 31" using L by (simp add: tail_of_def)
    moreover have "unat (of_nat (length (tail_of xs P t)) :: u32) = length (tail_of xs P t)"
      using calculation(2) by (intro unat_of_nat_u32) simp
    ultimately have "tail_len r = int (length (tail_of xs P t))" unfolding to_s32_def by (simp add: sint_small)
    then show ?thesis using len(2) by auto
  qed
qed

text \<open>Parts behind the loss go to the buffer.\<close>

lemma patch_tail_ok:
  assumes f: "fits xs P first" and L: "length xs < 2 ^ 31" and w: "net_ok xs P first w" "data_ok xs P first w r file"
    and s: "s < n_packets (length xs) P" "s \<notin> got w" and t: "nt_tail w = Some t" "t < s" "0 \<in> got w" and c: "carries_patch xs P m s"
  shows "\<exists>r'. patch_tail r file m (parseDataHdr m MSG_HDRLEN) = Inr (r', file) \<and> is_fastpath r' = is_fastpath r \<and> fd_p r' = fd_p r
    \<and> data_ok xs P first (after_patch s w) (r'\<lparr>num_slow_recv_ed := num_slow_recv_ed r' + 1\<rparr>) file"
proof -
  let ?n = "n_packets (length xs) P" and ?dh = "parseDataHdr m MSG_HDRLEN"
  note d = w(2) [unfolded data_ok_def Let_def]
  have n: "?n < 2147483547" and P: "0 < P" "P < 65536" using f by (auto simp: fits_def)
  have tn: "first < t" "t < ?n" "0 \<notin> nt_fast w" using w(1) t(1) by (simp_all add: net_ok_def Let_def)
  have z: "0 \<in> nt_patch w" using t(3) tn(3) by (simp add: got_def)
  have sn: "seq_num ?dh = of_nat s" and bs: "patch_data m ?dh = chunk P xs s" using c by (simp_all add: carries_patch_def Let_def)
  have sx: "s * P < length xs"
    using fits_small(3) [OF f s(1)] length_chunk_min [of P xs s] by (cases "s * P < length xs") auto
  have a: "t + 1 + (s - t - 1) = s" using t(2) by simp
  have e: "s * P = (t + 1) * P + (s - t - 1) * P" by (simp only: a flip: add_mult_distrib)
  have len: "(s - t - 1) * P + length (chunk P xs s) \<le> length (tail_of xs P t)" "tail_of xs P t \<noteq> []"
    using e sx by (simp_all add: tail_of_def length_chunk_min)
  obtain b where b: "tail_patch_buffer r = Buf b" "tail_patch_buffer_len r = int (length b)" "length b = length (tail_of xs P t)"
    "agree (tail_of xs P t) b (tail_parts xs P t (nt_patch w))"
    using d t(1) z len(2) by (auto simp: buffer_ok_def)
  have off: "unat ((seq_num ?dh - seq_tail r - 1) * ucast (r_byte_payload r)) = (s - t - 1) * P"
  proof -
    have s32: "s < 4294967296" using s(1) n by linarith
    have u: "unat (seq_num ?dh - seq_tail r - 1) = s - t - 1"
      using unat_diff_nat(1) [OF t(2) s32] sn d t(1) by simp
    have v: "unat (ucast (r_byte_payload r) :: u32) = P" using d P by (simp add: unsigned_ucast_eq unat_of_nat_u16 take_bit_eq_mod)
    have "(s - t - 1) * P < 4294967296" using e sx L by simp
    then show ?thesis by (subst unat_mult_small) (simp_all add: u v)
  qed
  let ?b = "poke ((s - t - 1) * P) (chunk P xs s) b"
  have pk: "?b = write_at b ((s - t - 1) * P) (chunk P xs s)"
    using len b(3) fits_small(3) [OF f s(1)] by (simp add: poke_def write_at_def)
  have "peek ((s - t - 1) * P) (length (chunk P xs s)) (tail_of xs P t) = chunk P xs s"
  proof -
    have "(t + 1) * P + (s - t - 1) * P = s * P" using e by simp
    then have "drop ((s - t - 1) * P) (tail_of xs P t) = drop (s * P) xs" by (simp add: tail_of_def add.commute)
    then show ?thesis by (simp add: peek_def take_chunk)
  qed
  note ag = agree_write [OF b(4) len(1) this]
  let ?r = "r\<lparr>tail_patch_buffer := Buf ?b\<rparr>"
  have run: "patch_tail r file m ?dh = Inr (?r, file)"
    unfolding patch_tail_def Let_def off bs using b(1,3) len(1) by simp
  have buf: "buffer_ok xs P (after_patch s w) (?r\<lparr>num_slow_recv_ed := num_slow_recv_ed r + 1\<rparr>)"
  proof -
    have a: "agree (tail_of xs P t) ?b (tail_parts xs P t (insert s (nt_patch w)))"
      unfolding pk tail_parts_insert(1) [OF t(2)] by (rule ag)
    have l: "length ?b = length b" using len(1) b(3) by (simp add: pk length_write_at)
    show ?thesis
      using t(1) z len(2) b(2,3) a l unfolding buffer_ok_def after_patch_sel by simp
  qed
  have card: "card (insert s (nt_patch w)) = Suc (card (nt_patch w))"
    using s(2) got_bounds(3) [OF f w(1)] by (simp add: got_def)
  have un: "{x \<in> insert s (got w). x \<le> t} = {x \<in> got w. x \<le> t}" using t(2) by auto
  have tp: "tail_part xs P w = t" using t(1) by (simp add: tail_part_def)
  have s0: "0 \<in> insert s (got w)" using t(3) by simp
  have "data_ok xs P first (after_patch s w) (?r\<lparr>num_slow_recv_ed := num_slow_recv_ed r + 1\<rparr>) file"
    unfolding data_ok_def Let_def after_patch_sel tp un using d t(1,3) card buf tp s0 by (simp add: known_def)
  then show ?thesis using run by (intro exI [of _ ?r]) simp
qed

text \<open>Every other part has its place in the file.\<close>

lemma place_before:
  assumes f: "fits xs P first" and w: "net_ok xs P first w" and i: "i < nt_last w" "s = (first + i) mod n_packets (length xs) P"
    and t: "s \<le> tail_part xs P w"
  shows "place xs P first (tail_part xs P w) s + length (chunk P xs s)
    \<le> place xs P first (tail_part xs P w) ((first + nt_last w) mod n_packets (length xs) P)"
proof -
  let ?n = "n_packets (length xs) P" and ?t = "tail_part xs P w" and ?l = "(first + nt_last w) mod n_packets (length xs) P"
  have n: "first < ?n" "nt_last w < ?n" "i < ?n" using f w i(1) by (auto simp: fits_def net_ok_def Let_def)
  note cc = cyc_cases [OF n(1,2)] cyc_cases [OF n(1,3), folded i(2)]
  have sn: "s < ?n" "?l < ?n" using n(1) i(2) by simp_all
  note tb = tail_part_bounds [OF f w]
  have "s < ?l \<and> (first \<le> s \<or> ?l < first) \<or> first \<le> s \<and> ?l < first"
    unfolding cc(1) using cc(2) i(1) n by (cases "first + i < ?n"; cases "first + nt_last w < ?n") auto
  then consider "s < ?l" "first \<le> s \<or> ?l < first" | "first \<le> s" "?l < first" by blast
  then show ?thesis
  proof cases
    case 1
    then show ?thesis using place_step [OF f 1(1) sn(2) 1(2), of ?t] by linarith
  next
    case 2
    have "place xs P first ?t s + length (chunk P xs s) \<le> start_at xs P first ?t"
      by (rule layout_part(3) [OF f tb(1) sn(1) t 2(1)])
    also have "\<dots> \<le> place xs P first ?t ?l" using 2(2) by (simp add: place_def)
    finally show ?thesis .
  qed
qed

text \<open>The metadata from a patch of part 0.\<close>

lemma patch_metadata:
  assumes f: "fits xs P first" and L: "length xs < 2 ^ 31" and w: "net_ok xs P first w" "data_ok xs P first w r file"
    and s: "0 \<notin> got w" "\<not> nt_meta w" and bm: "bm_data_size bm = int (length xs)" "length (takeWhile (\<lambda>b. b \<noteq> 0) (bm_app_id bm)) < APPID_LEN"
  shows "\<exists>ret r1. updateBcdMetadata r bm = Inr (ret, r1) \<and> 0 \<le> fm_start (fileMetadata r1) \<and> is_fastpath r1 = is_fastpath r
    \<and> fm_start (fileMetadata r1) = int (start_at xs P first (tail_part xs P w) mod length xs)
    \<and> fd_p r1 = fd_p r \<and> fd_patch_p r1 = fd_patch_p r \<and> seq_fst r1 = seq_fst r \<and> seq_tail r1 = seq_tail r
    \<and> r_byte_payload r1 = r_byte_payload r \<and> is_seq_zero r1 \<and> r_seq_max r1 = of_nat (n_packets (length xs) P)
    \<and> is_seq_fst r1 = is_seq_fst r \<and> is_finished r1 = is_finished r \<and> seq_lst r1 = seq_lst r
    \<and> num_fast_recv_ed r1 = num_fast_recv_ed r \<and> num_slow_recv_ed r1 = num_slow_recv_ed r
    \<and> buffer_ok xs P (after_patch 0 w) r1"
proof (cases "nt_tail w")
  case None
  note d = w(2) [unfolded data_ok_def Let_def]
  have dd: "\<not> is_seq_zero r" "seq_tail r = 0" "r_byte_payload r = of_nat P" "seq_fst r = of_nat first"
    "fm_start (fileMetadata r) = -1" "tail_patch_buffer_len r = 0" "tail_patch_buffer r = NullBuf"
    using d None s by (auto simp: buffer_ok_def known_def)
  have st: "start_at xs P first (tail_part xs P w) = length xs - first * P"
    using start_last(1) [OF f] None by (simp add: tail_part_def)
  obtain r1 where r1: "updateBcdMetadata r bm = Inr (0, r1)"
    "r1 = r\<lparr>r_data_size := int (length xs), r_app_id_str := strncpy (bm_app_id bm) APPID_LEN,
        r_seq_max := of_nat (n_packets (length xs) P), r_byte_payload_min := of_nat (last_bytes (length xs) P),
        fileMetadata := \<lparr>fm_start = int ((length xs - first * P) mod length xs), fm_jump = int (length xs)\<rparr>, is_seq_zero := True\<rparr>"
    using updateBcdMetadata_lossless [OF f bm dd(1-6)] by blast
  show ?thesis
    using None dd unfolding r1(1) st by (intro exI [of _ 0] exI [of _ r1]) (simp add: r1(2) buffer_ok_def)
next
  case (Some t)
  note d = w(2) [unfolded data_ok_def Let_def]
  let ?n = "n_packets (length xs) P"
  have tn: "first < t" "t < ?n" using w(1) Some by (simp_all add: net_ok_def Let_def)
  have P: "0 < P" "P < 65536" "xs \<noteq> []" "?n < 2147483547" using f by (auto simp: fits_def)
  have L0: "0 < length xs" using P(3) by simp
  have zS: "0 \<notin> nt_patch w" using s(1) by (simp add: got_def)
  have dd: "\<not> is_seq_zero r" "seq_tail r = of_nat t" "r_byte_payload r = of_nat P"
    "fm_start (fileMetadata r) = int (start_at xs P first t mod length xs)" "tail_patch_buffer_len r = 0" "tail_patch_buffer r = NullBuf"
    using d Some s zS by (auto simp: buffer_ok_def tail_part_def known_def)
  have up: "unat (r_byte_payload r) = P" using P dd(3) by (simp add: unat_of_nat_u16)
  define r0 where "r0 = r\<lparr>r_data_size := int (length xs), r_app_id_str := strncpy (bm_app_id bm) APPID_LEN,
    r_seq_max := of_nat ?n, r_byte_payload_min := of_nat (last_bytes (length xs) P)\<rparr>"
  have us: "update_sizes r bm = Inr r0"
    using update_sizes_spec [OF L0 _ bm, of r, unfolded up, OF P(1)] by (simp add: r0_def)
  have tl: "if tail_of xs P t = [] then tail_len r0 \<le> 0 else tail_len r0 = int (length (tail_of xs P t)) \<and> 0 < tail_len r0"
    by (rule tail_len_spec [OF f _ tn(2) L]) (use tn(1) dd in \<open>simp_all add: r0_def\<close>)
  have tz: "seq_tail r0 \<noteq> 0" using of_nat_zero_u32 [of t] tn P(4) dd(2) by (simp add: r0_def)
  have tp: "tail_part xs P w = t" using Some by (simp add: tail_part_def)
  define r1 where "r1 = (if tail_of xs P t = [] then r0\<lparr>tail_patch_buffer_len := 0\<rparr>
     else r0\<lparr>tail_patch_buffer := Buf (replicate (length (tail_of xs P t)) 0), tail_patch_buffer_len := int (length (tail_of xs P t))\<rparr>)"
  have ut: "update_tail r0 = Some r1"
  proof -
    have nb: "tail_patch_buffer r0 = NullBuf" using dd(6) by (simp add: r0_def)
    show ?thesis
    proof (cases "tail_of xs P t = []")
      case True
      then show ?thesis using tz tl nb by (simp add: update_tail_def r1_def)
    next
      case False
      then have "tail_len r0 = int (length (tail_of xs P t))" "\<not> tail_len r0 \<le> 0" using tl by auto
      then show ?thesis using tz nb False by (simp add: update_tail_def r1_def)
    qed
  qed
  have st: "\<not> fm_start (fileMetadata r1) < 0" "fm_start (fileMetadata r1) = int (start_at xs P first t mod length xs)"
    using dd(4) by (simp_all add: r1_def r0_def)
  let ?r = "r1\<lparr>fileMetadata := (fileMetadata r1)\<lparr>fm_jump := r_data_size r1 - tail_patch_buffer_len r1\<rparr>, is_seq_zero := True\<rparr>"
  have run: "updateBcdMetadata r bm = Inr (tail_patch_buffer_len r1, ?r)"
    using dd(1) us ut st(1) by (simp add: updateBcdMetadata_def Let_def)
  have none: "tail_parts xs P t (insert 0 (nt_patch w)) = {}"
  proof (rule tail_parts_none)
    have "\<forall>x \<in> nt_patch w. t < x \<longrightarrow> 0 \<in> nt_patch w" using w(1) Some by (simp add: net_ok_def Let_def)
    then show "\<forall>x \<in> insert 0 (nt_patch w). x \<le> t" using zS by auto
  qed
  have ag: "agree (tail_of xs P t) (replicate (length (tail_of xs P t)) 0) {}" by (simp add: agree_def)
  have buf: "buffer_ok xs P (after_patch 0 w) ?r"
  proof (cases "tail_of xs P t = []")
    case True
    then show ?thesis using Some dd(6) by (simp add: buffer_ok_def r1_def r0_def)
  next
    case False
    then show ?thesis unfolding buffer_ok_def after_patch_sel Some using ag none by (simp add: r1_def)
  qed
  show ?thesis
    unfolding run tp
  proof (intro exI [of _ "tail_patch_buffer_len r1"] exI [of _ ?r] conjI)
    show "buffer_ok xs P (after_patch 0 w) ?r" by (rule buf)
  qed (use st in \<open>simp_all add: r1_def r0_def\<close>)
qed

lemma buffer_ok_same:
  "tail_patch_buffer r' = tail_patch_buffer r \<Longrightarrow> tail_patch_buffer_len r' = tail_patch_buffer_len r
    \<Longrightarrow> buffer_ok xs P w r' = buffer_ok xs P w r"
  by (simp add: buffer_ok_def split: option.split)

lemma patch_file_ok:
  assumes f: "fits xs P first" and L: "length xs < 2 ^ 31" and w: "net_ok xs P first w" "data_ok xs P first w r file"
    and s: "s < n_packets (length xs) P" "s \<notin> got w" "s \<le> tail_part xs P w" and c: "carries_patch xs P m s"
    and z: "0 < s \<longrightarrow> s < first \<longrightarrow> nt_tail w \<noteq> None \<or> 0 \<in> got w"
  defines "file' \<equiv> write_at file (place xs P first (tail_part xs P w) s) (chunk P xs s)"
  shows "\<exists>r'. patch_file r file m (parseDataHdr m MSG_HDRLEN) = Inr (Some (r', file')) \<and> is_fastpath r' = is_fastpath r \<and> fd_p r' = fd_p r
    \<and> data_ok xs P first (after_patch s w) (r'\<lparr>num_slow_recv_ed := num_slow_recv_ed r' + 1\<rparr>) file'"
proof -
  let ?n = "n_packets (length xs) P" and ?dh = "parseDataHdr m MSG_HDRLEN" and ?t = "tail_part xs P w"
  let ?start = "start_at xs P first ?t"
  note d = w(2) [unfolded data_ok_def Let_def]
  have n: "?n < 2147483547" "first < ?n" and P: "P < 65536" using f by (auto simp: fits_def)
  note tb = tail_part_bounds [OF f w(1)]
  have sn: "seq_num ?dh = of_nat s" and bs: "patch_data m ?dh = chunk P xs s" using c by (simp_all add: carries_patch_def Let_def)
  have nf: "s \<noteq> first" using w(1) s(2) by (auto simp: net_ok_def Let_def got_def)
  have s32: "s < 4294967296" "first < 4294967296" using s(1) n by linarith+
  have ne: "seq_num ?dh \<noteq> seq_fst r" using d nf of_nat_eq_u32 [OF s32] sn by simp
  have sz: "seq_num ?dh = 0 \<longleftrightarrow> s = 0" unfolding sn by (rule of_nat_zero_u32 [OF s32(1)])
  obtain r1 where r1: "(if seq_num ?dh = 0
         then rbind (updateBcdMetadata r (parseBcdMetadata m (MSG_HDRLEN + DATA_HDRLEN + unat (dh_len ?dh))))
                (\<lambda>(_, r). assert_c (0 \<le> fm_start (fileMetadata r)) (Inr r))
         else Inr r) = Inr r1"
    and start: "s < first \<longrightarrow> fm_start (fileMetadata r1) = int ?start"
    and same: "is_fastpath r1 = is_fastpath r" "fd_p r1 = fd_p r" "fd_patch_p r1 = fd_patch_p r" "seq_fst r1 = seq_fst r" "seq_tail r1 = seq_tail r"
      "r_byte_payload r1 = r_byte_payload r" "is_seq_fst r1 = is_seq_fst r" "is_finished r1 = is_finished r" "seq_lst r1 = seq_lst r"
      "num_fast_recv_ed r1 = num_fast_recv_ed r" "num_slow_recv_ed r1 = num_slow_recv_ed r"
    and meta: "is_seq_zero r1 \<longleftrightarrow> known (after_patch s w)" "r_seq_max r1 = (if known (after_patch s w) then of_nat ?n else 0)"
      "fm_start (fileMetadata r1) = (if nt_tail w \<noteq> None \<or> known (after_patch s w) then int (?start mod length xs) else -1)"
    and buf: "buffer_ok xs P (after_patch s w) r1"
  proof (cases "s = 0")
    case True
    let ?bm = "parseBcdMetadata m (MSG_HDRLEN + DATA_HDRLEN + unat (dh_len ?dh))"
    have bm: "bm_data_size ?bm = int (length xs)" "length (takeWhile (\<lambda>b. b \<noteq> 0) (bm_app_id ?bm)) < APPID_LEN"
      using c True by (simp_all add: carries_patch_def Let_def)
    have f0: "first \<noteq> 0" using nf True by simp
    have sm: "?start mod length xs = ?start" using start_small [OF f f0] by simp
    have kn: "known (after_patch s w)" using True by (simp add: known_def)
    show ?thesis
    proof (cases "nt_meta w")
      case nm: True
      then have "nt_tail w = None" "known w" using w(1) by (auto simp: net_ok_def Let_def known_def split: option.splits)
      then have "updateBcdMetadata r ?bm = Inr (-1, r)" "fm_start (fileMetadata r) = int (?start mod length xs)"
        "is_seq_zero r" "r_seq_max r = of_nat ?n" "buffer_ok xs P (after_patch 0 w) r"
        using d by (simp_all add: updateBcdMetadata_def buffer_ok_def)
      then show ?thesis using that [of r] True sz sm kn by (simp add: assert_c_def)
    next
      case nm: False
      obtain ret r1 where p: "updateBcdMetadata r ?bm = Inr (ret, r1)" "0 \<le> fm_start (fileMetadata r1)" "is_fastpath r1 = is_fastpath r"
        "fm_start (fileMetadata r1) = int (?start mod length xs)"
        "fd_p r1 = fd_p r" "fd_patch_p r1 = fd_patch_p r" "seq_fst r1 = seq_fst r" "seq_tail r1 = seq_tail r"
        "r_byte_payload r1 = r_byte_payload r" "is_seq_zero r1" "r_seq_max r1 = of_nat ?n"
        "is_seq_fst r1 = is_seq_fst r" "is_finished r1 = is_finished r" "seq_lst r1 = seq_lst r"
        "num_fast_recv_ed r1 = num_fast_recv_ed r" "num_slow_recv_ed r1 = num_slow_recv_ed r" "buffer_ok xs P (after_patch 0 w) r1"
        using patch_metadata [OF f L w s(2)[unfolded True] nm bm] by blast
      show ?thesis
        using that [of r1] True sz p sm kn by (simp add: assert_c_def)
    qed
  next
    case False
    have st: "?start mod length xs = ?start" if "s < first"
      using start_small [OF f, of ?t] that by simp
    have b: "buffer_ok xs P (after_patch s w) r"
    proof (cases "nt_tail w")
      case None
      then show ?thesis using d by (simp add: buffer_ok_def)
    next
      case (Some t)
      then have "s \<le> t" using s(3) by (simp add: tail_part_def)
      note tail_parts_insert(2) [OF this]
      then show ?thesis using d Some False by (simp add: buffer_ok_def)
    qed
    have "known (after_patch s w) = known w" using False by (simp add: known_def)
    moreover have "0 < s \<longrightarrow> s < first \<longrightarrow> nt_tail w \<noteq> None \<or> known w" using z by (auto simp: known_def)
    ultimately show ?thesis
      using that [of r] False sz d st b by auto
  qed
  have tail: "\<not> (0 < seq_tail r1 \<and> seq_tail r1 < seq_num ?dh)"
  proof (cases "nt_tail w")
    case None
    then show ?thesis using d same(5) by simp
  next
    case (Some t)
    then have "s \<le> t" "t < ?n" using s(3) tb(2) by (simp_all add: tail_part_def)
    then have "\<not> (of_nat t :: u32) < of_nat s" using s32(1) n by (simp add: word_less_nat_alt unat_of_nat_u32)
    then show ?thesis using d same(5) Some sn by simp
  qed
  have off: "patch_offset r1 ?dh = int (place xs P first ?t s)"
  proof -
    have u: "unat (of_nat s :: u32) = s" "unat (of_nat first :: u32) = first" "unat (r_byte_payload r1) = P"
      using s32 d same(6) P by (simp_all add: unat_of_nat_u32 unat_of_nat_u16)
    have le: "seq_fst r1 \<le> seq_num ?dh \<longleftrightarrow> first \<le> s" using d same(4) sn u(1,2) by (simp add: word_le_nat_alt)
    show ?thesis
    proof (cases "first \<le> s")
      case True
      have "(of_nat s - of_nat first :: u32) = of_nat (s - first)" using True by (simp add: of_nat_diff)
      then have "unat (seq_num ?dh - seq_fst r1) = s - first"
        using d same(4) sn s32(1) by (simp add: unat_of_nat_u32 del: of_nat_diff)
      moreover have "(0 < seq_tail r1 \<and> seq_tail r1 < seq_num ?dh) = False" using tail by blast
      ultimately show ?thesis unfolding patch_offset_def getFilePosition_def using le True u(3) by (simp only: if_True if_False) (simp add: place_def)
    next
      case False
      have "unat (seq_num ?dh) = s" using sn u(1) by simp
      then show ?thesis unfolding patch_offset_def getFilePosition_def using le False start u(3) by (simp add: place_def)
    qed
  qed
  obtain pos where pos: "fd_patch_p r1 = Some pos" using d same(3) by auto
  let ?r = "r1\<lparr>fd_patch_p := Some (place xs P first ?t s + length (chunk P xs s))\<rparr>"
  have run: "patch_file r file m ?dh = Inr (Some (?r, file'))"
    unfolding patch_file_def using ne r1 pos off bs by (simp add: file'_def Let_def)
  have ag: "agree (layout xs P first ?t) file' (\<Union>x \<in> {x \<in> insert s (got w). x \<le> ?t}. part_span xs P first ?t x)"
    using agree_part [OF f tb(1) s(1,3)] d unfolding file'_def by blast
  have card: "card (insert s (nt_patch w)) = Suc (card (nt_patch w))"
    using s(2) got_bounds(3) [OF f w(1)] by (simp add: got_def)
  have b: "buffer_ok xs P (after_patch s w) (?r\<lparr>num_slow_recv_ed := k\<rparr>)" for k
    using buf by (subst buffer_ok_same [where r = r1]) simp_all
  have "data_ok xs P first (after_patch s w) (?r\<lparr>num_slow_recv_ed := num_slow_recv_ed ?r + 1\<rparr>) file'"
    unfolding data_ok_def Let_def after_patch_sel using d same meta b ag card by simp
  then show ?thesis using run same(1,2) by (intro exI [of _ ?r]) simp
qed

lemma slow_path_cases:
  "slow_path now r file m = rbind
     (if 0 < seq_tail r \<and> seq_tail r < seq_num (parseDataHdr m MSG_HDRLEN)
      then rbind (patch_tail r file m (parseDataHdr m MSG_HDRLEN)) (\<lambda>x. Inr (Some x)) else patch_file r file m (parseDataHdr m MSG_HDRLEN))
     (\<lambda>x. case x of None \<Rightarrow> Inr (r, file, False)
        | Some (r, file) \<Rightarrow> if hasGottenAllData (r\<lparr>num_slow_recv_ed := num_slow_recv_ed r + 1\<rparr>)
            then rbind (finishRecv now (r\<lparr>num_slow_recv_ed := num_slow_recv_ed r + 1\<rparr>) file) (\<lambda>(r, file). Inr (r, file, True))
            else Inr (r\<lparr>num_slow_recv_ed := num_slow_recv_ed r + 1\<rparr>, file, False))"
  by (simp add: slow_path_def Let_def)

lemma patch_keeps:
  assumes f: "fits xs P first" and L: "length xs < 2 ^ 31" and inv: "repair_inv xs P first w (r, file)"
    and st: "net_step xs P first w (PatchMessage m) w'"
  shows "\<exists>st'. repair_do now (PatchMessage m) (r, file) = Inr st' \<and> repair_inv xs P first w' st'"
  using st
proof cases
  let ?n = "n_packets (length xs) P" and ?dh = "parseDataHdr m MSG_HDRLEN" and ?t = "tail_part xs P w"
  {
    case (patch s)
    have w: "net_ok xs P first w" using inv by (simp add: repair_inv_def)
    have w': "net_ok xs P first w'" by (rule net_step_ok [OF f w st])
    have ng: "got w \<noteq> {..<?n}" using patch(2,3) by auto
    then have d: "data_ok xs P first w r file" "is_fastpath r = (\<not> nt_stop w)" "\<not> nt_stop w \<longrightarrow> end_ok xs P first w r file"
      using inv by (simp_all add: repair_inv_def)
    have we: "w' = after_patch s w" unfolding patch(1) after_patch_def ..
    have sn: "seq_num ?dh = of_nat s" using patch(6) by (simp add: carries_patch_def Let_def)
    have s32: "s < 4294967296" using patch(2) f by (simp add: fits_def)
    have big: "0 < seq_tail r \<and> seq_tail r < seq_num ?dh \<longleftrightarrow> (\<exists>t. nt_tail w = Some t \<and> t < s)"
    proof (cases "nt_tail w")
      case None
      then show ?thesis using d(1) by (simp add: data_ok_def Let_def)
    next
      case (Some t)
      have t: "first < t" "t < ?n" using w Some by (simp_all add: net_ok_def Let_def)
      then have u: "unat (of_nat t :: u32) = t" "unat (of_nat s :: u32) = s" using s32 f by (simp_all add: fits_def unat_of_nat_u32)
      have e: "seq_tail r = of_nat t" using d(1) Some by (simp add: data_ok_def Let_def)
      show ?thesis unfolding e sn using Some u t(1) by (simp add: word_less_nat_alt)
    qed
    obtain r1 f1 where run: "(if 0 < seq_tail r \<and> seq_tail r < seq_num ?dh
        then rbind (patch_tail r file m ?dh) (\<lambda>x. Inr (Some x)) else patch_file r file m ?dh) = Inr (Some (r1, f1))"
      and r1: "is_fastpath r1 = is_fastpath r" "fd_p r1 = fd_p r" "data_ok xs P first w' (r1\<lparr>num_slow_recv_ed := num_slow_recv_ed r1 + 1\<rparr>) f1"
      and f1: "\<not> nt_stop w \<longrightarrow> length f1 = length file"
    proof (cases "\<exists>t. nt_tail w = Some t \<and> t < s")
      case True
      then obtain t where t: "nt_tail w = Some t" "t < s" by blast
      have "0 \<in> got w" using patch(5) t by simp
      then show ?thesis
        using that patch_tail_ok [OF f L w d(1) patch(2,3) t _ patch(6)] True big we by auto
    next
      case False
      have st: "s \<le> ?t" using False patch(2) by (auto simp: tail_part_def split: option.splits)
      have z: "0 < s \<longrightarrow> s < first \<longrightarrow> nt_tail w \<noteq> None \<or> 0 \<in> got w" using patch(5) by (auto split: option.splits)
      let ?f = "write_at file (place xs P first ?t s) (chunk P xs s)"
      have "length ?f = length file" if run: "\<not> nt_stop w"
      proof -
        obtain i where i: "i < nt_last w" "s = (first + i) mod ?n" using patch(4) run by auto
        have "place xs P first ?t s + length (chunk P xs s) \<le> length file"
          using place_before [OF f w i st] d(3) run by (simp add: end_ok_def Let_def)
        then show ?thesis by (simp add: length_write_at)
      qed
      then show ?thesis
        using that patch_file_ok [OF f L w d(1) patch(2,3) st patch(6) z] False big we by auto
    qed
    let ?r = "r1\<lparr>num_slow_recv_ed := num_slow_recv_ed r1 + 1\<rparr>"
    have sl: "slow_path now r file m = (if hasGottenAllData ?r then rbind (finishRecv now ?r f1) (\<lambda>(r, file). Inr (r, file, True))
        else Inr (?r, f1, False))"
      unfolding slow_path_cases run by simp
    show ?thesis
    proof (cases "got w' = {..<?n}")
      case True
      obtain r2 f2 where fin: "finishRecv now ?r f1 = Inr (r2, f2)" "is_finished r2" "is_fastpath r2 = is_fastpath ?r"
        "read_order f2 (fm_start (fileMetadata r2)) (fm_jump (fileMetadata r2)) = xs"
        using finish_ok [OF f w' r1(3) True] by blast
      have "nt_stop w"
      proof (rule ccontr)
        assume ns: "\<not> nt_stop w"
        have k: "nt_last w + 1 < ?n" "first < ?n" using w ns f by (auto simp: net_ok_def Let_def fits_def)
        then have "(first + (?n - 1)) mod ?n \<in> got w'" using True by simp
        then obtain i where "i \<le> nt_last w'" "(first + (?n - 1)) mod ?n = (first + i) mod ?n"
          using got_image [OF w'] ns we by auto
        then show False using cyc_inj [OF k(2), of "?n - 1" i] k we by simp
      qed
      then have "\<not> is_fastpath r2" using fin(3) r1(1) d(2) by simp
      then show ?thesis
        using sl fin True all_data_iff [OF f w' r1(3)] w' by (simp add: repair_do_def repair_inv_def)
    next
      case False
      have "\<not> nt_stop w' \<longrightarrow> end_ok xs P first w' ?r f1"
        using d(3) f1 r1(2) we by (simp add: end_ok_def Let_def)
      then show ?thesis
        using sl False all_data_iff [OF f w' r1(3)] w' r1 d(2) we by (simp add: repair_do_def repair_inv_def)
    qed
  }
qed

lemma stop_keeps:
  assumes f: "fits xs P first" and inv: "repair_inv xs P first w (r, file)" and st: "net_step xs P first w FastDone w'"
  shows "\<exists>st'. repair_do now FastDone (r, file) = Inr st' \<and> repair_inv xs P first w' st'"
proof -
  have w: "net_ok xs P first w" using inv by (simp add: repair_inv_def)
  have w': "net_ok xs P first w'" by (rule net_step_ok [OF f w st])
  have we: "w' = w\<lparr>nt_stop := True\<rparr>" using st by cases
  have g: "got w' = got w" "nt_stop w'" by (simp_all add: we got_def)
  show ?thesis
  proof (cases "got w = {..<n_packets (length xs) P}")
    case True
    then have "is_finished r" "\<not> is_fastpath r" "read_order file (fm_start (fileMetadata r)) (fm_jump (fileMetadata r)) = xs"
      using inv by (simp_all add: repair_inv_def)
    then show ?thesis using w' g True by (simp add: repair_do_def repair_inv_def)
  next
    case False
    then have d: "data_ok xs P first w r file" using inv by (simp add: repair_inv_def)
    then have "\<not> is_finished r" by (simp add: data_ok_def Let_def)
    moreover have "data_ok xs P first w' (stopFathPath now r) file" using d by (simp only: we data_ok_net data_ok_stop)
    ultimately show ?thesis using w' g False by (simp add: repair_do_def repair_inv_def)
  qed
qed

subsection \<open>Properties: losses are repaired\<close>

inductive net_run :: "byte list \<Rightarrow> nat \<Rightarrow> nat \<Rightarrow> net \<Rightarrow> repair_event list \<Rightarrow> net \<Rightarrow> bool" for xs P first where
  none: "net_run xs P first w [] w"
| step: "net_step xs P first w e w' \<Longrightarrow> net_run xs P first w' es w'' \<Longrightarrow> net_run xs P first w (e # es) w''"

definition net_start :: "byte list \<Rightarrow> nat \<Rightarrow> nat \<Rightarrow> net" where
  "net_start xs P first = \<lparr>nt_pos = 0, nt_last = 0, nt_stop = (n_packets (length xs) P = 1), nt_tail = None, nt_meta = False, nt_fast = {first}, nt_patch = {}\<rparr>"

fun repair_run :: "timeval \<Rightarrow> repair_event list \<Rightarrow> RecverState \<times> byte list \<Rightarrow> (RecverState \<times> byte list) res" where
  "repair_run now [] st = Inr st"
| "repair_run now (e # es) st = rbind (repair_do now e st) (repair_run now es)"

lemma step_keeps:
  assumes "fits xs P first" "length xs < 2 ^ 31" "repair_inv xs P first w st" "net_step xs P first w e w'"
  shows "\<exists>st'. repair_do now e st = Inr st' \<and> repair_inv xs P first w' st'"
  using assms packet_keeps [OF assms(1)] patch_keeps [OF assms(1,2)] stop_keeps [OF assms(1)]
  by (cases st; cases e) blast+

lemma run_keeps:
  assumes "fits xs P first" "length xs < 2 ^ 31" "net_run xs P first w es w'" "repair_inv xs P first w st"
  shows "\<exists>st'. repair_run now es st = Inr st' \<and> repair_inv xs P first w' st'"
  using assms(3,4)
proof (induction arbitrary: st rule: net_run.induct)
  case (none w)
  then show ?case by simp
next
  case (step w e w' es w'')
  obtain st1 where s1: "repair_do now e st = Inr st1" "repair_inv xs P first w' st1"
    using step_keeps [OF assms(1,2) step.prems step.hyps(1)] by blast
  then show ?case using step.IH [OF s1(2)] by simp
qed

text \<open>The first packet.\<close>

lemma first_packet:
  assumes f: "fits xs P first" and r: "createRecverState (of_nat P) True True True bid = Some r" and c: "carries xs P p first"
  shows "\<exists>st. repair_do now (FastPacket p) (startFathPath now (r\<lparr>r_fds_p := Some a\<rparr>), []) = Inr st
    \<and> repair_inv xs P first (net_start xs P first) st"
proof -
  let ?n = "n_packets (length xs) P" and ?r = "startFathPath now (r\<lparr>r_fds_p := Some a\<rparr>)" and ?dh = "parseDataHdr p DATA_HDR_OFFSET"
  have n: "0 < ?n" "first < ?n" using f by (auto simp: fits_def)
  have r0: "\<not> is_seq_fst ?r" "is_fastpath ?r" using r by (auto simp: createRecverState_def startFathPath_def)
  have i0: "round_inv xs P first 0 (fst (fp_first ?r ?dh)) []" by (rule round_inv_start [OF f r c])
  have ch: "carries xs P p ((first + 0) mod ?n)" using c n(2) by simp
  obtain r1 out where r1: "fast_path now (fst (fp_first ?r ?dh)) [] p ?dh = Inr (r1, [] @ chunk P xs ((first + 0) mod ?n), out)"
    "if Suc 0 = ?n then round_done xs P first r1 else round_inv xs P first (Suc 0) r1 ([] @ chunk P xs ((first + 0) mod ?n))"
    using fast_path_lossless [OF f n(1) i0 ch, of now] by blast
  have cf: "[] @ chunk P xs ((first + 0) mod ?n) = chunk P xs first" using n(2) by simp
  note r2 = r1 [unfolded cf]
  obtain o2 where run: "fast_path now ?r [] p ?dh = Inr (r1, chunk P xs first, o2)"
    using fast_path_first [OF r0 r2(1)] by blast
  have w0: "net_ok xs P first (net_start xs P first)"
    using n by (auto simp: net_ok_def net_start_def Let_def got_def)
  have "repair_inv xs P first (net_start xs P first) (r1, chunk P xs first)"
  proof (cases "Suc 0 = ?n")
    case True
    then have f0: "first = 0" using n(2) by simp
    have "length xs \<le> P" using packets_enough [OF f] by (simp flip: True)
    then have ch: "chunk P xs 0 = xs" by (simp add: chunk_def)
    have "got (net_start xs P first) = {..<?n}" using f0 True [symmetric] by (auto simp: got_def net_start_def)
    moreover have "is_finished r1" "\<not> is_fastpath r1" "fm_start (fileMetadata r1) = 0" "fm_jump (fileMetadata r1) = int (length xs)"
      using r2(2) True f0 by (simp_all add: round_done_def)
    ultimately show ?thesis using w0 ch f0 by (simp add: repair_inv_def read_order_def)
  next
    case False
    then have ri: "round_inv xs P first (Suc 0) r1 (chunk P xs first)" using r2(2) by simp
    have g: "got (net_start xs P first) = {first}" by (auto simp: got_def net_start_def)
    have ng: "got (net_start xs P first) \<noteq> {..<?n}"
    proof
      assume "got (net_start xs P first) = {..<?n}"
      then have "card {..<?n} = 1" unfolding g by (metis is_singletonI is_singleton_altdef)
      then show False using False by simp
    qed
    let ?t = "?n - 1"
    have tp: "tail_part xs P (net_start xs P first) = ?t" by (simp add: tail_part_def net_start_def)
    have sl: "seen ?n first (Suc 0) = [first]" using n(2) by (simp add: seen_def)
    have pv: "prev_seq ?n first (Suc 0) = of_nat first" using n(2) by (simp add: prev_seq_def)
    have t: "first \<le> ?t" "first < ?n" using n by simp_all
    have "agree (layout xs P first ?t) (write_at [] (place xs P first ?t first) (chunk P xs first))
        (\<Union>x \<in> {x \<in> insert first {}. x \<le> ?t}. part_span xs P first ?t x)"
      by (rule agree_part [OF f t(1,2,1)]) (simp add: agree_def)
    moreover have "write_at [] (place xs P first ?t first) (chunk P xs first) = chunk P xs first"
      by (simp add: place_def write_at_def)
    ultimately have ag: "agree (layout xs P first ?t) (chunk P xs first) (\<Union>x \<in> {x \<in> {first}. x \<le> ?t}. part_span xs P first ?t x)"
      by simp
    have sa: "start_at xs P first ?t = length xs - first * P" by (rule start_last(1) [OF f])
    have sel: "nt_meta (net_start xs P first) = False" "nt_last (net_start xs P first) = 0" "nt_tail (net_start xs P first) = None" "nt_fast (net_start xs P first) = {first}"
      "nt_patch (net_start xs P first) = {}" "nt_stop (net_start xs P first) \<longleftrightarrow> ?n = 1" by (simp_all add: net_start_def)
    have kn: "known (net_start xs P first) \<longleftrightarrow> first = 0" unfolding known_def g by (simp add: net_start_def)
    note ri' = ri [unfolded round_inv_def Let_def sl pv]
    have "data_ok xs P first (net_start xs P first) r1 (chunk P xs first)"
      unfolding data_ok_def Let_def tp g sel kn using ri' ag n(2) sa by (auto simp: buffer_ok_def sel)
    moreover have "end_ok xs P first (net_start xs P first) r1 (chunk P xs first)"
      unfolding end_ok_def Let_def tp sel using ri' n(2) by (simp add: place_def)
    moreover have "is_fastpath r1" "\<not> nt_stop (net_start xs P first)" using ri' sel(6) False by simp_all
    ultimately show ?thesis unfolding repair_inv_def using w0 ng by simp
  qed
  then show ?thesis using run by (simp add: repair_do_def)
qed

lemma carries_patch_of:
  assumes "length front = MSG_HDRLEN" and "length xs < 2 ^ 63" and "P < 65536"
    and "length (takeWhile (\<lambda>b. b \<noteq> 0) app) < APPID_LEN"
  shows "carries_patch xs P (front @ packet_of bid app xs P s @ rest) s"
proof -
  let ?c = "chunk P xs s"
  let ?p = "front @ packet_of bid app xs P s @ rest"
  have l: "MSG_HDRLEN = 48" "DATA_HDRLEN = 32" "length front = 48" "APPID_LEN = 64" using assms(1) by (simp_all add: const_defs)
  have "length ?c \<le> P" by (simp add: chunk_def)
  then have u: "unat (of_nat (length ?c) :: u32) = length ?c" using assms(3) by (intro unat_of_nat_u32) linarith
  have h: "parseDataHdr ?p 48 = \<lparr>dh_bcd_id = bid, seq_num = of_nat s, dh_len = of_nat (length ?c)\<rparr>"
    by (rule parseDataHdr_enc) (simp add: packet_of_def peek_skip l peek_hd)
  have d: "peek 80 (length ?c) ?p = ?c"
    by (simp add: packet_of_def peek_skip l peek_hd)
  have m: "parseBcdMetadata ?p (80 + length ?c) = \<lparr>bm_data_size = int (length xs), bm_app_id = strncpy app 64\<rparr>" if "s = 0"
  proof (rule parseBcdMetadata_enc)
    show "peek (80 + length ?c) 72 ?p = enc_BcdMetadata (int (length xs)) app"
      using that by (simp add: packet_of_def peek_skip l peek_hd)
  qed (use assms(2) in simp_all)
  have "length (takeWhile (\<lambda>b. b \<noteq> 0) (strncpy app 64)) < 64"
    using assms(4) by (simp add: takeWhile_strncpy APPID_LEN_def)
  then show ?thesis unfolding carries_patch_def patch_data_def Let_def l using h d m u by (cases "s = 0") simp_all
qed

text \<open>C2: Losses are repaired.  A receiver is made by the first packet that it sees, part \<open>first\<close> of the data.  After that the rest of one round
  arrives with any losses, in the order of the round, patches for what is missing arrive at any time and in any order, before
  or after the end of the fast path, and the fast path ends with the last packet or with \<^verbatim>\<open>MSG_FAST_DONE\<close>.  Whatever happens, no
  step fails, and the receiver is finished exactly when all parts were taken or patched; then the file, read in the order that
  is announced to the applications, is the data.  What the fast path does not take is the rest of a round after a loss of everything
  between the first packet and the end of the data; it has to be patched as if it were lost.  The one restriction is that part 0
  comes first of what a request across the end of the data asks for.\<close>

theorem losses_repaired:
  assumes f: "fits xs P first" "length xs < 2 ^ 31" and r: "createRecverState (of_nat P) True True True bid = Some r"
    and c: "carries xs P p first" and es: "net_run xs P first (net_start xs P first) es w"
  shows "\<exists>r' file. repair_run now (FastPacket p # es) (startFathPath now (r\<lparr>r_fds_p := Some a\<rparr>), []) = Inr (r', file)
    \<and> (is_finished r' \<longleftrightarrow> got w = {..<n_packets (length xs) P})
    \<and> (is_finished r' \<longrightarrow> \<not> is_fastpath r' \<and> read_order file (fm_start (fileMetadata r')) (fm_jump (fileMetadata r')) = xs)"
proof -
  obtain st where st: "repair_do now (FastPacket p) (startFathPath now (r\<lparr>r_fds_p := Some a\<rparr>), []) = Inr st"
    "repair_inv xs P first (net_start xs P first) st" using first_packet [OF f(1) r c] by blast
  obtain r' fl where st': "repair_run now es st = Inr (r', fl)" "repair_inv xs P first w (r', fl)"
    using run_keeps [OF f es st(2)] by (metis surj_pair)
  have "is_finished r' \<longleftrightarrow> got w = {..<n_packets (length xs) P}"
    using st'(2) by (auto simp: repair_inv_def data_ok_def Let_def split: if_splits)
  then show ?thesis using st(1) st' by (simp add: repair_inv_def)
qed

text \<open>Nine bytes in five packets, received from part 2 on: parts 4 and 0 are lost on the fast path and come as patches.\<close>

definition small_data :: "byte list" where
  "small_data = [1, 2, 3, 4, 5, 6, 7, 8, 9]"

lemma small_data: "n_packets (length small_data) 2 = 5" "length small_data = 9" "small_data \<noteq> []"
  by (simp_all add: small_data_def n_packets_def)

definition small_packet :: "nat \<Rightarrow> byte list" where
  "small_packet s = replicate DATA_HDR_OFFSET 0
     @ packet_of \<lparr>app_id = \<lparr>msb = 0, lsb = 0\<rparr>, data_id = 0\<rparr> [97, 0] small_data 2 s @ []"

definition small_patch :: "nat \<Rightarrow> byte list" where
  "small_patch s = replicate MSG_HDRLEN 0
     @ packet_of \<lparr>app_id = \<lparr>msb = 0, lsb = 0\<rparr>, data_id = 0\<rparr> [97, 0] small_data 2 s @ []"

definition small_loss :: "repair_event list" where
  "small_loss = [FastPacket (small_packet 3), FastPacket (small_packet 1), PatchMessage (small_patch 0), PatchMessage (small_patch 4)]"

lemma small_loss_run:
  "net_run small_data 2 2 (net_start small_data 2 2) small_loss
     \<lparr>nt_pos = 4, nt_last = 4, nt_stop = True, nt_tail = Some 3, nt_meta = False, nt_fast = {1, 3, 2}, nt_patch = {4, 0}\<rparr>"
proof -
  note n = small_data(1)
  have c: "carries small_data 2 (small_packet s) s" for s
    unfolding small_packet_def by (rule carries_packet_of) (simp_all add: const_defs small_data)
  have cp: "carries_patch small_data 2 (small_patch s) s" for s
    unfolding small_patch_def by (rule carries_patch_of) (simp_all add: const_defs small_data)
  let ?w0 = "\<lparr>nt_pos = 0, nt_last = 0, nt_stop = False, nt_tail = None, nt_meta = False, nt_fast = {2}, nt_patch = {}\<rparr> :: net"
  let ?w1 = "\<lparr>nt_pos = 1, nt_last = 1, nt_stop = False, nt_tail = None, nt_meta = False, nt_fast = {3, 2}, nt_patch = {}\<rparr> :: net"
  let ?w2 = "\<lparr>nt_pos = 4, nt_last = 4, nt_stop = True, nt_tail = Some 3, nt_meta = False, nt_fast = {1, 3, 2}, nt_patch = {}\<rparr> :: net"
  let ?w3 = "\<lparr>nt_pos = 4, nt_last = 4, nt_stop = True, nt_tail = Some 3, nt_meta = False, nt_fast = {1, 3, 2}, nt_patch = {0}\<rparr> :: net"
  let ?w4 = "\<lparr>nt_pos = 4, nt_last = 4, nt_stop = True, nt_tail = Some 3, nt_meta = False, nt_fast = {1, 3, 2}, nt_patch = {4, 0}\<rparr> :: net"
  have s0: "net_start small_data 2 2 = ?w0" unfolding net_start_def n by simp
  have s1: "net_step small_data 2 2 ?w0 (FastPacket (small_packet 3)) ?w1"
    using net_step.packet [where first = 2 and w = ?w0 and j = 1 and s = 3 and tp = None, OF _ _ _ _ c] by (simp add: n)
  have s2: "net_step small_data 2 2 ?w1 (FastPacket (small_packet 1)) ?w2"
    using net_step.packet [where first = 2 and w = ?w1 and j = 4 and s = 1 and tp = "Some 3", OF _ _ _ _ c] by (simp add: n)
  have s3: "net_step small_data 2 2 ?w2 (PatchMessage (small_patch 0)) ?w3"
    using net_step.patch [where first = 2 and w = ?w2 and s = 0, OF _ _ _ _ cp] by (simp add: n got_def)
  have s4: "net_step small_data 2 2 ?w3 (PatchMessage (small_patch 4)) ?w4"
    using net_step.patch [where first = 2 and w = ?w3 and s = 4, OF _ _ _ _ cp] by (simp add: n got_def)
  show ?thesis
    unfolding small_loss_def s0 by (intro net_run.step [OF s1] net_run.step [OF s2] net_run.step [OF s3] net_run.step [OF s4] net_run.none)
qed

theorem losses_repaired_witness:
  "\<exists>r r' file. createRecverState (of_nat 2) True True True \<lparr>app_id = \<lparr>msb = 0, lsb = 0\<rparr>, data_id = 0\<rparr> = Some r
    \<and> repair_run (Timeval 1 1) (FastPacket (small_packet 2) # small_loss) (startFathPath (Timeval 1 1) (r\<lparr>r_fds_p := Some 7\<rparr>), []) = Inr (r', file)
    \<and> is_finished r'
    \<and> read_order file (fm_start (fileMetadata r')) (fm_jump (fileMetadata r')) = [1, 2, 3, 4, 5, 6, 7, 8, 9]"
proof -
  let ?id = "\<lparr>app_id = \<lparr>msb = 0, lsb = 0\<rparr>, data_id = 0\<rparr>"
  have f: "fits small_data 2 2" "length small_data < 2 ^ 31" by (simp_all add: fits_def small_data(1,3), simp add: small_data(2))
  obtain r where r: "createRecverState (of_nat 2) True True True ?id = Some r" by (simp add: createRecverState_def)
  have c: "carries small_data 2 (small_packet 2) 2"
    unfolding small_packet_def by (rule carries_packet_of) (simp_all add: const_defs small_data)
  have all: "{1, 3, 2} \<union> {4, 0} = {..<n_packets (length small_data) 2}" unfolding small_data(1) by auto
  obtain r' fl where run: "repair_run (Timeval 1 1) (FastPacket (small_packet 2) # small_loss)
      (startFathPath (Timeval 1 1) (r\<lparr>r_fds_p := Some 7\<rparr>), []) = Inr (r', fl)"
    and fin: "is_finished r' \<longleftrightarrow> {1, 3, 2} \<union> {4, 0} = {..<n_packets (length small_data) 2}"
      "is_finished r' \<longrightarrow> \<not> is_fastpath r' \<and> read_order fl (fm_start (fileMetadata r')) (fm_jump (fileMetadata r')) = small_data"
    using losses_repaired [OF f r c small_loss_run, of "Timeval 1 1" 7] by (auto simp: got_def)
  have "is_finished r'" using fin(1) all by blast
  then show ?thesis using r run fin(2) unfolding small_data_def by blast
qed

end
