(* ===== verification/Libc.thy ===== *)
theory Libc
  imports Printf Complex_Main
begin

text \<open>
  The parts of the C library with which the agent reads text: \<^verbatim>\<open>strtoull\<close> with base 0, \<^verbatim>\<open>atoi\<close>, \<^verbatim>\<open>strtok\<close>,
  \<^verbatim>\<open>sscanf("%lg")\<close> and \<^verbatim>\<open>getopt\<close> of glibc.  A \<^verbatim>\<open>double\<close> is a real number, an infinity
  of either sign, or not a number.
\<close>

subsection \<open>Integers\<close>

definition isspace :: "char \<Rightarrow> bool" where
  "isspace c \<longleftrightarrow> c = CHR '' '' \<or> (of_char c :: nat) \<in> {9..13}"

text \<open>The value of a character as a digit; not a digit in any base when it is 99.\<close>

definition digit_value :: "char \<Rightarrow> nat" where
  "digit_value c = (let k = of_char c :: nat in
     if 48 \<le> k \<and> k \<le> 57 then k - 48 else if 97 \<le> k \<and> k \<le> 122 then k - 87
     else if 65 \<le> k \<and> k \<le> 90 then k - 55 else 99)"

definition is_digit :: "nat \<Rightarrow> char \<Rightarrow> bool" where
  "is_digit b c \<longleftrightarrow> digit_value c < b"

definition digits_value :: "nat \<Rightarrow> string \<Rightarrow> nat" where
  "digits_value b s = foldl (\<lambda>a c. a * b + digit_value c) 0 s"

text \<open>White space, then a sign.\<close>

definition sign_of :: "string \<Rightarrow> bool \<times> string" where
  "sign_of s = (case dropWhile isspace s of
       [] \<Rightarrow> (False, [])
     | c # cs \<Rightarrow> if c = CHR ''-'' then (True, cs) else if c = CHR ''+'' then (False, cs) else (False, c # cs))"

text \<open>The prefix of a hexadecimal number counts only before a hexadecimal digit.\<close>

definition hex_prefix :: "string \<Rightarrow> bool" where
  "hex_prefix s \<longleftrightarrow> 3 \<le> length s \<and> s ! 0 = CHR ''0'' \<and> (s ! 1 = CHR ''x'' \<or> s ! 1 = CHR ''X'') \<and> is_digit 16 (s ! 2)"

definition strtoull0 :: "string \<Rightarrow> u64" where
  "strtoull0 s = (case sign_of s of (neg, s) \<Rightarrow>
     let b = (if hex_prefix s then 16 else if s \<noteq> [] \<and> hd s = CHR ''0'' then 8 else 10);
         n = digits_value b (takeWhile (is_digit b) (if hex_prefix s then drop 2 s else s))
     in if 2 ^ 64 \<le> n then - 1 else if neg then - of_nat n else of_nat n)"

definition strtol10 :: "string \<Rightarrow> int" where
  "strtol10 s = (case sign_of s of (neg, s) \<Rightarrow>
     let n = int (digits_value 10 (takeWhile (is_digit 10) s))
     in if neg then max (- (2 ^ 63)) (- n) else min (2 ^ 63 - 1) n)"

definition atoi :: "string \<Rightarrow> int" where
  "atoi s = to_s32 (word_of_int (strtol10 s))"

lemma digit_value_char: "d < 10 \<Longrightarrow> digit_value (digit_char d) = d \<and> \<not> isspace (digit_char d)
    \<and> digit_char d \<noteq> CHR ''-'' \<and> digit_char d \<noteq> CHR ''+'' \<and> digit_char d \<noteq> CHR '',''"
proof -
  have "\<forall>d \<in> set [0..<10]. digit_value (digit_char d) = d \<and> \<not> isspace (digit_char d)
    \<and> digit_char d \<noteq> CHR ''-'' \<and> digit_char d \<noteq> CHR ''+'' \<and> digit_char d \<noteq> CHR '',''" by code_simp
  then show "d < 10 \<Longrightarrow> ?thesis" by simp
qed

lemma fmt_u_digit: "c \<in> set (fmt_u n) \<Longrightarrow> is_digit 10 c \<and> \<not> isspace c \<and> c \<noteq> CHR ''-'' \<and> c \<noteq> CHR ''+'' \<and> c \<noteq> CHR '',''"
  using digits_lt [of 10 _ n] digit_value_char by (fastforce simp: fmt_u_def is_digit_def)

lemma digits_value_fmt_u: "digits_value 10 (fmt_u n) = n"
proof -
  have "foldl (\<lambda>a c. a * 10 + digit_value c) a (map digit_char ds) = foldl (\<lambda>a d. a * 10 + d) a ds"
    if "\<forall>d \<in> set ds. d < 10" for a ds
    using that by (induction ds arbitrary: a) (simp_all add: digit_value_char)
  then show ?thesis
    using digits_lt [of 10 _ n] undigits_digits [of 10 n] by (simp add: digits_value_def fmt_u_def undigits_def)
qed

lemma fmt_u_Nil [simp]: "fmt_u n \<noteq> []"
  by (simp add: fmt_u_def)

lemma sign_of_fmt_u: "sign_of (fmt_u n) = (False, fmt_u n)"
proof -
  obtain c cs where c: "fmt_u n = c # cs" by (cases "fmt_u n") auto
  then show ?thesis using fmt_u_digit [of c n] by (simp add: sign_of_def)
qed

text \<open>Reading back a printed number.\<close>

lemma atoi_fmt_u: "n < 2 ^ 31 \<Longrightarrow> atoi (fmt_u n) = int n"
proof -
  assume n: "n < 2 ^ 31"
  have t: "takeWhile (is_digit 10) (fmt_u n) = fmt_u n" using fmt_u_digit [of _ n] by simp
  then have "strtol10 (fmt_u n) = int n" using n by (simp add: strtol10_def sign_of_fmt_u t digits_value_fmt_u del: takeWhile_eq_all_conv)
  moreover have "unat (of_nat n :: u32) = n" using n by (intro unat_of_nat_u32) simp
  ultimately show ?thesis using n sint_small [of "of_nat n"] by (simp add: atoi_def to_s32_def)
qed

subsection \<open>Tokens\<close>

text \<open>The tokens that \<^verbatim>\<open>strtok\<close> with one separator gives: the fields that are not empty.\<close>

definition strtok :: "char \<Rightarrow> string \<Rightarrow> string list" where
  "strtok c s = filter (\<lambda>f. f \<noteq> []) (split_on c s)"

fun join :: "char \<Rightarrow> string list \<Rightarrow> string" where
  "join c [] = []"
| "join c [f] = f"
| "join c (f # fs) = f @ c # join c fs"

lemma split_join: "fs \<noteq> [] \<Longrightarrow> \<forall>f \<in> set fs. c \<notin> set f \<Longrightarrow> split_on c (join c fs) = fs"
  by (induction c fs rule: join.induct) (auto simp: split_on_last split_on_field)

lemma strtok_join: "\<forall>f \<in> set fs. c \<notin> set f \<and> f \<noteq> [] \<Longrightarrow> strtok c (join c fs) = fs"
  by (cases "fs = []") (auto simp: strtok_def split_join filter_id_conv)

subsection \<open>Floating point numbers\<close>

datatype lg = Finite real | Infinite | NotANumber

definition prefix_ci :: "string \<Rightarrow> string \<Rightarrow> bool" where
  "prefix_ci p s \<longleftrightarrow> length p \<le> length s \<and> list_all2 (\<lambda>a b. digit_value a = digit_value b) p (take (length p) s)"

text \<open>A mantissa with an optional point in base \<open>b\<close> with a digit at least, then the exponent when it has digits; \<open>g\<close> is the
  base of the exponent and \<open>k\<close> the number of its powers in one digit.\<close>

definition scan_exp :: "char \<Rightarrow> string \<Rightarrow> int" where
  "scan_exp mark s = (case s of [] \<Rightarrow> 0 | c # cs \<Rightarrow>
     if digit_value c \<noteq> digit_value mark then 0
     else (let neg = (cs \<noteq> [] \<and> hd cs = CHR ''-'');
               cs = (if cs \<noteq> [] \<and> (hd cs = CHR ''-'' \<or> hd cs = CHR ''+'') then tl cs else cs);
               n = int (digits_value 10 (takeWhile (is_digit 10) cs))
           in if neg then - n else n))"

definition scan_float :: "nat \<Rightarrow> char \<Rightarrow> nat \<Rightarrow> nat \<Rightarrow> string \<Rightarrow> real option" where
  "scan_float b mark g k s =
     (let ip = takeWhile (is_digit b) s; rest = dropWhile (is_digit b) s;
          fp = (if rest \<noteq> [] \<and> hd rest = CHR ''.'' then takeWhile (is_digit b) (tl rest) else []);
          rest = (if rest \<noteq> [] \<and> hd rest = CHR ''.'' then dropWhile (is_digit b) (tl rest) else rest);
          e = scan_exp mark rest - int (k * length fp)
      in if ip = [] \<and> fp = [] then None
         else Some (real (digits_value b (ip @ fp)) * (if 0 \<le> e then real (g ^ nat e) else 1 / real (g ^ nat (- e)))))"

definition hex_float :: "string \<Rightarrow> bool" where
  "hex_float s \<longleftrightarrow> 3 \<le> length s \<and> s ! 0 = CHR ''0'' \<and> (s ! 1 = CHR ''x'' \<or> s ! 1 = CHR ''X'')
     \<and> (is_digit 16 (s ! 2) \<or> s ! 2 = CHR ''.'' \<and> 4 \<le> length s \<and> is_digit 16 (s ! 3))"

definition scan_lg :: "string \<Rightarrow> lg option" where
  "scan_lg s = (case sign_of s of (neg, s) \<Rightarrow>
     if prefix_ci ''nan'' s then Some NotANumber
     else if prefix_ci ''inf'' s then Some Infinite
     else map_option (\<lambda>x. Finite (if neg then - x else x))
       (if hex_float s then scan_float 16 CHR ''p'' 2 4 (drop 2 s) else scan_float 10 CHR ''e'' 10 1 s))"

subsection \<open>Options\<close>

text \<open>\<^verbatim>\<open>getopt\<close> on the arguments behind the program name, up to its \<^verbatim>\<open>-1\<close>.  The option string gives for a letter whether
  it takes an argument.  An unknown letter, or one whose argument is missing, gives \<^verbatim>\<open>'?'\<close>.  Arguments that are no
  options are passed over, as glibc permutes them behind the options; \<^verbatim>\<open>--\<close> ends the options.  \<open>cur\<close> is the rest of the argument that
  is being read.\<close>

fun optspec :: "string \<Rightarrow> char \<Rightarrow> bool option" where
  "optspec [] c = None"
| "optspec (x # xs) c = (if x = CHR '':'' then optspec xs c
     else if x = c then Some (xs \<noteq> [] \<and> hd xs = CHR '':'') else optspec xs c)"

function getopt :: "string \<Rightarrow> string \<Rightarrow> string list \<Rightarrow> (char \<times> string option) list" where
  "getopt spec (c # cs) args = (case optspec spec c of
       None \<Rightarrow> (CHR ''?'', None) # getopt spec cs args
     | Some False \<Rightarrow> (c, None) # getopt spec cs args
     | Some True \<Rightarrow> if cs \<noteq> [] then (c, Some cs) # getopt spec [] args
         else (case args of [] \<Rightarrow> [(CHR ''?'', None)] | a # args \<Rightarrow> (c, Some a) # getopt spec [] args))"
| "getopt spec [] [] = []"
| "getopt spec [] (a # args) =
     (if a = ''--'' then []
      else if 2 \<le> length a \<and> hd a = CHR ''-'' then getopt spec (tl a) args
      else getopt spec [] args)"
  by pat_completeness auto
termination
  by (relation "measure (\<lambda>(_, cur, args). length cur + (\<Sum>a\<leftarrow>args. length a + 1))") auto

end
