(* ===== verification/NetSetup.thy ===== *)
theory NetSetup
  imports Libc DataChan
begin

text \<open>
  How the agent gets at its network: the table of the NICs and the choice of the control and the data channel
  (\<^verbatim>\<open>hero.c\<close>), and the netmap descriptors (\<^verbatim>\<open>netmap_util.c\<close>).  The answers of the kernel, of the resolver and of
  \<^verbatim>\<open>nm_open\<close> are arguments.
\<close>

subsection \<open>The table of the NICs\<close>

record nic =
  nicName :: string
  ethHdr :: "byte list"
  ipAddress :: in_addr

text \<open>The answers of the kernel for one entry of \<^verbatim>\<open>SIOCGIFCONF\<close>: its flags, the six bytes of the hardware address, the
  address; \<open>None\<close> is a failed \<^verbatim>\<open>ioctl\<close>.\<close>

record iface =
  if_name :: string
  if_flags :: "u16 option"
  if_hwaddr :: "byte list option"
  if_addr :: "in_addr option"

definition IFF_LOOPBACK :: u16 where "IFF_LOOPBACK = 8"
definition MAX_NICS :: nat where "MAX_NICS = 10"

text \<open>The entry of an interface: the header for a broadcast of IP packets, and the address.  All answers come in one
  \<^verbatim>\<open>struct ifreq\<close>, whose union keeps bytes 2 to 5 of the hardware address where the address is when
  \<^verbatim>\<open>SIOCGIFADDR\<close> fails.\<close>

definition nic_entry :: "iface \<Rightarrow> byte list \<Rightarrow> nic" where
  "nic_entry i mac = \<lparr>nicName = if_name i,
     ethHdr = replicate 6 0xff @ mac @ le_enc 2 (htons ETH_P_IP),
     ipAddress = (case if_addr i of Some a \<Rightarrow> a | None \<Rightarrow> le_dec (peek 2 4 mac))\<rparr>"

definition add_nic :: "iface \<Rightarrow> nic list \<Rightarrow> nic list res" where
  "add_nic i tab = (case if_flags i of
       None \<Rightarrow> Inr tab
     | Some fl \<Rightarrow> if fl AND IFF_LOOPBACK \<noteq> 0 then Inr tab
         else (case if_hwaddr i of
             None \<Rightarrow> Inr tab
           | Some mac \<Rightarrow> if MAX_NICS \<le> length tab then Inl OutOfBounds else Inr (tab @ [nic_entry i mac])))"

primrec createNicNameMap :: "iface list \<Rightarrow> nic list \<Rightarrow> nic list res" where
  "createNicNameMap [] tab = Inr tab"
| "createNicNameMap (i # is) tab = rbind (add_nic i tab) (createNicNameMap is)"

subsection \<open>The channels\<close>

record host_channel =
  hc_name :: string
  hc_addr :: in_addr
  hc_eth :: "byte list"

definition HOSTNAME_LEN :: nat where "HOSTNAME_LEN = 512"

definition no_channel :: host_channel where
  "no_channel = \<lparr>hc_name = [], hc_addr = 0, hc_eth = replicate 14 0\<rparr>"

text \<open>\<^verbatim>\<open>setHostChannel\<close>; \<open>host_of\<close> is \<^verbatim>\<open>gethostbyaddr\<close>.\<close>

fun setHostChannel :: "nic list \<Rightarrow> (in_addr \<Rightarrow> string option) \<Rightarrow> string \<Rightarrow> host_channel \<Rightarrow> (u8 \<times> host_channel) res" where
  "setHostChannel [] host_of ifn hc = Inr (0, hc)"
| "setHostChannel (n # ns) host_of ifn hc =
     (if ifn = nicName n
      then (let hc = hc\<lparr>hc_addr := ipAddress n, hc_eth := ethHdr n\<rparr>
            in case host_of (hc_addr hc) of
                 None \<Rightarrow> Inr (0, hc)
               | Some h \<Rightarrow> if HOSTNAME_LEN \<le> length h then Inl OutOfBounds else Inr (0xff, hc\<lparr>hc_name := h\<rparr>))
      else setHostChannel ns host_of ifn hc)"

text \<open>\<^verbatim>\<open>deleteRamdiskFiles\<close>: the shell's pattern does not match names that begin with a dot.\<close>

definition on_ramdisk :: "string \<Rightarrow> bool" where
  "on_ramdisk fn \<longleftrightarrow> take (length BCD_DIR_PREFIX) fn = BCD_DIR_PREFIX \<and> length BCD_DIR_PREFIX < length fn
     \<and> fn ! length BCD_DIR_PREFIX \<noteq> CHR ''.''"

definition deleteRamdiskFiles :: "(string \<rightharpoonup> byte list) \<Rightarrow> (string \<rightharpoonup> byte list)" where
  "deleteRamdiskFiles fs = (\<lambda>fn. if on_ramdisk fn then None else fs fn)"

subsection \<open>Netmap requests and descriptors\<close>

record nmreq =
  nr_name :: string
  nr_version :: u32
  nr_offset :: u32
  nr_memsize :: u32
  nr_tx_slots :: u32
  nr_rx_slots :: u32
  nr_tx_rings :: u16
  nr_rx_rings :: u16
  nr_ringid :: u16
  nr_cmd :: u16
  nr_arg1 :: u16
  nr_arg2 :: u16
  nr_arg3 :: u32
  nr_flags :: u32
  nr_spare2_0 :: u32

record nm_desc =
  nd_fd :: int
  nd_mem :: nat
  nd_req :: nmreq
  first_tx_ring :: nat
  last_tx_ring :: nat
  first_rx_ring :: nat
  last_rx_ring :: nat
  nd_txring :: "nat \<Rightarrow> ring"
  nd_rxring :: "nat \<Rightarrow> ring"

datatype desc_ptr = NoDesc | Desc nm_desc | FreedDesc

text \<open>\<^verbatim>\<open>pkt_queued\<close>; \<open>tx_pending\<close> is \<^verbatim>\<open>nm_tx_pending\<close> of netmap.  The sum is an unsigned number that is returned as an
  \<^verbatim>\<open>int\<close>.\<close>

definition pkt_queued :: "nm_ops \<Rightarrow> (ring \<Rightarrow> nat) \<Rightarrow> nm_desc \<Rightarrow> bool \<Rightarrow> int" where
  "pkt_queued N tx_pending d tx = to_s32
     (if tx then (\<Sum>i\<leftarrow>[first_tx_ring d..<last_tx_ring d + 1]. of_nat (tx_pending (nd_txring d i)))
      else (\<Sum>i\<leftarrow>[first_rx_ring d..<last_rx_ring d + 1]. of_nat (nm_ring_space N (nd_rxring d i))))"

text \<open>\<^verbatim>\<open>parse_nmr_config\<close>: the loop over the tokens, which counts them; a fifth and later ones are ignored.
  \<open>flag\<close> is \<^verbatim>\<open>NM_OPEN_RING_CFG\<close> of netmap.\<close>

primrec nmr_fields :: "string list \<Rightarrow> nat \<Rightarrow> nmreq \<Rightarrow> nmreq" where
  "nmr_fields [] i r = r"
| "nmr_fields (t # ts) i r =
     (let v = atoi t in nmr_fields ts (i + 1)
       (if i = 0 then r\<lparr>nr_tx_slots := word_of_int v, nr_rx_slots := word_of_int v\<rparr>
        else if i = 1 then r\<lparr>nr_rx_slots := word_of_int v\<rparr>
        else if i = 2 then r\<lparr>nr_tx_rings := word_of_int v, nr_rx_rings := word_of_int v\<rparr>
        else if i = 3 then r\<lparr>nr_rx_rings := word_of_int v\<rparr>
        else r))"

definition parse_nmr_config :: "int \<Rightarrow> string option \<Rightarrow> nmreq \<Rightarrow> int \<times> nmreq" where
  "parse_nmr_config flag conf nmr =
     (let nmr = nmr\<lparr>nr_tx_rings := 0, nr_rx_rings := 0, nr_tx_slots := 0, nr_rx_slots := 0\<rparr>
      in case conf of None \<Rightarrow> (0, nmr)
         | Some s \<Rightarrow> if s = [] then (0, nmr)
             else (let nmr = nmr_fields (strtok CHR '','' s) 0 nmr
                   in (if nr_tx_rings nmr \<noteq> 0 \<or> nr_tx_slots nmr \<noteq> 0 \<or> nr_rx_rings nmr \<noteq> 0 \<or> nr_rx_slots nmr \<noteq> 0
                       then flag else 0, nmr)))"

record glob_arg =
  ifname :: string
  ifname_host :: string
  zerocopy :: bool
  wait_link :: int

definition MAX_IFNAMELEN :: nat where "MAX_IFNAMELEN = 64"

definition createGlobalArg :: "string \<Rightarrow> u8 \<Rightarrow> glob_arg res" where
  "createGlobalArg if_data queue =
     (let nic = ''netmap:'' @ if_data @ ''-'' @ fmt_u (unat queue); host = ''netmap:'' @ if_data @ ''^''
      in if MAX_IFNAMELEN \<le> length nic \<or> MAX_IFNAMELEN \<le> length host then Inl OutOfBounds
         else Inr \<lparr>ifname = nic, ifname_host = host, zerocopy = True, wait_link = 5\<rparr>)"

record targ =
  tg_g :: glob_arg
  tg_fd :: int
  tg_fd_host :: int
  tg_nmd :: desc_ptr
  tg_nmd_host :: desc_ptr

definition createTArg :: "glob_arg \<Rightarrow> targ" where
  "createTArg g = \<lparr>tg_g = g, tg_fd = 0, tg_fd_host = 0, tg_nmd = NoDesc, tg_nmd_host = NoDesc\<rparr>"

text \<open>\<^verbatim>\<open>startNetmapfd\<close>; \<open>nm_open\<close> gets the name and, for the NIC, whose memory is shared with it, the descriptor of the
  host stack.  \<^verbatim>\<open>nm_close\<close> leaves the pointer in the argument.\<close>

definition startNetmapfd :: "(string \<Rightarrow> nm_desc option \<Rightarrow> nm_desc option) \<Rightarrow> targ \<Rightarrow> int \<times> targ" where
  "startNetmapfd nm_open t = (case nm_open (ifname_host (tg_g t)) None of
       None \<Rightarrow> (-1, t\<lparr>tg_nmd_host := NoDesc\<rparr>)
     | Some h \<Rightarrow>
        (let t = t\<lparr>tg_nmd_host := Desc h, tg_fd_host := nd_fd h\<rparr>
         in case nm_open (ifname (tg_g t)) (Some h) of
              None \<Rightarrow> (-1, t\<lparr>tg_nmd := NoDesc, tg_nmd_host := FreedDesc\<rparr>)
            | Some d \<Rightarrow> (0, t\<lparr>tg_nmd := Desc d, tg_fd := nd_fd d,
                tg_g := (tg_g t)\<lparr>zerocopy := zerocopy (tg_g t) \<and> nd_mem h = nd_mem d\<rparr>\<rparr>)))"

definition desc_req :: "desc_ptr \<Rightarrow> nmreq res" where
  "desc_req p = (case p of NoDesc \<Rightarrow> Inl NullDeref | FreedDesc \<Rightarrow> Inl UseAfterFree | Desc d \<Rightarrow> Inr (nd_req d))"

subsection \<open>What is printed of a request\<close>

text \<open>The constants of netmap, which are not part of the agent.\<close>

record nm_consts =
  NETMAP_RING_MASK :: u16
  NETMAP_SW_RING :: u16
  NETMAP_HW_RING :: u16
  NETMAP_NO_TX_POLL :: u16
  NETMAP_DO_RX_POLL :: u16
  NETMAP_BDG_HOST :: u16
  NETMAP_BDG_ATTACH :: u16
  NETMAP_BDG_DETACH :: u16
  NETMAP_BDG_LIST :: u16
  NETMAP_BDG_REGOPS :: u16
  NETMAP_BDG_VNET_HDR :: u16
  NETMAP_BDG_NEWIF :: u16
  NETMAP_BDG_DELIF :: u16
  NR_REG_MASK :: u32
  NR_REG_DEFAULT :: u32
  NR_REG_ALL_NIC :: u32
  NR_REG_SW :: u32
  NR_REG_NIC_SW :: u32
  NR_REG_ONE_NIC :: u32
  NR_REG_PIPE_MASTER :: u32
  NR_REG_PIPE_SLAVE :: u32
  NR_MONITOR_TX :: u32
  NR_MONITOR_RX :: u32

definition fmt_d :: "u32 \<Rightarrow> string" where
  "fmt_d w = fmt_ld (to_s32 w)"

definition nl :: string where
  "nl = [char_of (10 :: nat)]"

definition nmr_arg_unexpected :: "nat \<Rightarrow> u32 \<Rightarrow> string" where
  "nmr_arg_unexpected n v = ''arg'' @ fmt_u n @ '':      '' @ fmt_d v @ (if v \<noteq> 0 then ''???'' else []) @ nl"

definition nmr_arg_bdg_attach :: "nm_consts \<Rightarrow> nmreq \<Rightarrow> string" where
  "nmr_arg_bdg_attach K r = ''arg1:      '' @ fmt_u (unat (nr_arg1 r)) @ '' [''
     @ (if nr_arg1 r = 0 then ''no host rings'' else if nr_arg1 r = NETMAP_BDG_HOST K then ''BDG_HOST'' else ''???'') @ '']'' @ nl
     @ nmr_arg_unexpected 2 (ucast (nr_arg2 r)) @ nmr_arg_unexpected 3 (nr_arg3 r)"

definition nmr_arg_error :: "nmreq \<Rightarrow> string" where
  "nmr_arg_error r = nmr_arg_unexpected 1 (ucast (nr_arg1 r)) @ nmr_arg_unexpected 2 (ucast (nr_arg2 r))
     @ nmr_arg_unexpected 3 (nr_arg3 r)"

definition nmr_arg_bdg_detach :: "nmreq \<Rightarrow> string" where
  "nmr_arg_bdg_detach r = nmr_arg_unexpected 1 (ucast (nr_arg1 r)) @ nmr_arg_unexpected 2 (ucast (nr_arg2 r))
     @ nmr_arg_unexpected 3 (nr_arg3 r)"

definition nmr_arg_vnet_hdr :: "nmreq \<Rightarrow> string" where
  "nmr_arg_vnet_hdr r = ''arg1:      '' @ fmt_u (unat (nr_arg1 r)) @ '' [vnet hdr len]''
     @ nmr_arg_unexpected 2 (ucast (nr_arg2 r)) @ nmr_arg_unexpected 3 (nr_arg3 r)"

definition nmr_arg_extra :: "nmreq \<Rightarrow> string" where
  "nmr_arg_extra r =
     ''arg1:      '' @ fmt_u (unat (nr_arg1 r)) @ '' ['' @ (if nr_arg1 r \<noteq> 0 then [] else ''no '') @ ''extra rings]'' @ nl
     @ ''arg2:      '' @ fmt_u (unat (nr_arg2 r)) @ '' ['' @ (if nr_arg2 r = 0 then ''global'' else ''private'') @ '' memory allocator]'' @ nl
     @ ''arg3:      '' @ fmt_d (nr_arg3 r) @ '' ['' @ (if nr_arg3 r \<noteq> 0 then [] else ''no '') @ ''extra buffers]'' @ nl"

text \<open>The name of the command and the reading of its arguments.\<close>

definition nmr_cmd_text :: "nm_consts \<Rightarrow> nmreq \<Rightarrow> string \<times> string" where
  "nmr_cmd_text K r =
     (let c = nr_cmd r
      in if c = NETMAP_BDG_ATTACH K then (''BDG_ATTACH'', nmr_arg_bdg_attach K r)
         else if c = NETMAP_BDG_DETACH K then (''BDG_DETACH'', nmr_arg_bdg_detach r)
         else if c = NETMAP_BDG_LIST K then (''BDG_LIST'', [])
         else if c = NETMAP_BDG_REGOPS K then (''BDG_LOOKUP_REG'', [])
         else if c = NETMAP_BDG_VNET_HDR K then (''BDG_VNET_HDR'', nmr_arg_vnet_hdr r)
         else if c = NETMAP_BDG_NEWIF K then (''BDG_NEWIF'', nmr_arg_error r)
         else if c = NETMAP_BDG_DELIF K then (''BDG_DELIF'', nmr_arg_error r)
         else (''???'', nmr_arg_error r))"

definition nmr_reg_text :: "nm_consts \<Rightarrow> nmreq \<Rightarrow> u16 \<Rightarrow> string" where
  "nmr_reg_text K r ring =
     (let m = nr_flags r AND NR_REG_MASK K; num = ''('' @ fmt_u (unat ring) @ '')''
      in if m = NR_REG_DEFAULT K then ''obey ringid''
         else if m = NR_REG_ALL_NIC K then ''ALL_NIC''
         else if m = NR_REG_SW K then ''SW''
         else if m = NR_REG_NIC_SW K then ''NIC_SW''
         else if m = NR_REG_ONE_NIC K then ''ONE_NIC'' @ num
         else if m = NR_REG_PIPE_MASTER K then ''PIPE_MASTER'' @ num
         else if m = NR_REG_PIPE_SLAVE K then ''PIPE_SLAVE'' @ num
         else ''???'')"

definition do_nmr_dump :: "nm_consts \<Rightarrow> nmreq \<Rightarrow> string" where
  "do_nmr_dump K r =
     (let ring = nr_ringid r AND NETMAP_RING_MASK K; on = (\<lambda>b. nr_ringid r AND b \<noteq> 0)
      in ''name:      '' @ take 16 (nr_name r) @ nl
       @ ''version:   '' @ fmt_d (nr_version r) @ nl
       @ ''offset:    '' @ fmt_d (nr_offset r) @ nl
       @ ''memsize:   '' @ fmt_d (nr_memsize r) @ '' [''
       @ (if nr_memsize r < 2 ^ 20 then fmt_d (drop_bit 10 (nr_memsize r)) @ '' KiB'' else fmt_d (drop_bit 20 (nr_memsize r)) @ '' MiB'')
       @ '']'' @ nl
       @ ''tx_slots:  '' @ fmt_d (nr_tx_slots r) @ nl @ ''rx_slots:  '' @ fmt_d (nr_rx_slots r) @ nl
       @ ''tx_rings:  '' @ fmt_u (unat (nr_tx_rings r)) @ nl @ ''rx_rings:  '' @ fmt_u (unat (nr_rx_rings r)) @ nl
       @ ''ringid:    '' @ fmt_lx 0 (unat (nr_ringid r)) @ '' [''
       @ (if on (NETMAP_SW_RING K) then ''host rings'' else if on (NETMAP_HW_RING K) then ''hw ring '' @ fmt_u (unat ring) else ''hw rings'')
       @ (if on (NETMAP_NO_TX_POLL K) then '', no tx poll'' else [])
       @ '', region '' @ fmt_u (unat (nr_arg2 r))
       @ (if on (NETMAP_DO_RX_POLL K) then '', do rx poll'' else []) @ '']'' @ nl
       @ ''cmd:       '' @ fmt_u (unat (nr_cmd r))
       @ (if nr_cmd r \<noteq> 0 then '' ['' @ fst (nmr_cmd_text K r) @ '']'' @ nl else []) @ nl
       @ (if nr_cmd r \<noteq> 0 then snd (nmr_cmd_text K r) else nmr_arg_extra r)
       @ ''flags:     '' @ fmt_lx 0 (unat (nr_flags r)) @ '' ['' @ nmr_reg_text K r ring
       @ (if nr_flags r AND NR_MONITOR_TX K \<noteq> 0 then '', MONITOR_TX'' else [])
       @ (if nr_flags r AND NR_MONITOR_RX K \<noteq> 0 then '', MONITOR_RX'' else []) @ '']'' @ nl
       @ ''spare2[0]: '' @ fmt_lx 0 (unat (nr_spare2_0 r)) @ nl)"

subsection \<open>What the functions do\<close>

text \<open>Every stored interface is usable: its flags and hardware address are known, and it is not the loopback.\<close>

definition usable :: "iface \<Rightarrow> bool" where
  "usable i \<longleftrightarrow> (case if_flags i of None \<Rightarrow> False | Some fl \<Rightarrow> fl AND IFF_LOOPBACK = 0) \<and> if_hwaddr i \<noteq> None"

definition nic_of :: "iface \<Rightarrow> nic" where
  "nic_of i = nic_entry i (the (if_hwaddr i))"

lemma add_nic_spec:
  "add_nic i tab = (if \<not> usable i then Inr tab else if length tab < MAX_NICS then Inr (tab @ [nic_of i]) else Inl OutOfBounds)"
  by (auto simp: add_nic_def usable_def nic_of_def split: option.splits)

lemma createNicNameMap_spec:
  "length tab \<le> MAX_NICS \<Longrightarrow> createNicNameMap is tab =
     (if length tab + length (filter usable is) \<le> MAX_NICS then Inr (tab @ map nic_of (filter usable is)) else Inl OutOfBounds)"
  by (induction "is" arbitrary: tab) (auto simp: add_nic_spec)

lemma setHostChannel_find:
  "setHostChannel tab host_of ifn hc = (case find (\<lambda>n. nicName n = ifn) tab of
       None \<Rightarrow> Inr (0, hc)
     | Some n \<Rightarrow> (case host_of (ipAddress n) of
           None \<Rightarrow> Inr (0, hc\<lparr>hc_addr := ipAddress n, hc_eth := ethHdr n\<rparr>)
         | Some h \<Rightarrow> if HOSTNAME_LEN \<le> length h then Inl OutOfBounds
             else Inr (0xff, hc\<lparr>hc_addr := ipAddress n, hc_eth := ethHdr n, hc_name := h\<rparr>)))"
  by (induction tab) (auto simp: Let_def split: option.splits)

lemma find_nic_of: "find (\<lambda>n. nicName n = ifn) (map nic_of is) = map_option nic_of (find (\<lambda>i. if_name i = ifn) is)"
  by (induction "is") (auto simp: nic_of_def nic_entry_def)

text \<open>The fields of a configuration by their positions, as the comment of \<^verbatim>\<open>parse_nmr_config\<close> describes them.\<close>

definition conf_field :: "int list \<Rightarrow> nat \<Rightarrow> int" where
  "conf_field vs i = (if i < length vs then vs ! i else 0)"

definition nmr_spec :: "int \<Rightarrow> int list \<Rightarrow> nmreq \<Rightarrow> int \<times> nmreq" where
  "nmr_spec flag vs nmr =
     (let nmr = nmr\<lparr>nr_tx_slots := word_of_int (conf_field vs 0),
            nr_rx_slots := word_of_int (conf_field vs (if length vs = 1 then 0 else 1)),
            nr_tx_rings := word_of_int (conf_field vs 2),
            nr_rx_rings := word_of_int (conf_field vs (if length vs = 3 then 2 else 3))\<rparr>
      in (if (nr_tx_slots nmr, nr_rx_slots nmr) = (0, 0) \<and> (nr_tx_rings nmr, nr_rx_rings nmr) = (0, 0) then 0 else flag, nmr))"

lemma nmr_fields_late: "4 \<le> i \<Longrightarrow> nmr_fields ts i r = r"
  by (induction ts arbitrary: i) (simp_all add: Let_def)

lemma conf_field_simps [simp]:
  "conf_field [] i = 0" "conf_field (v # vs) 0 = v" "conf_field (v # vs) (Suc i) = conf_field vs i"
  by (simp_all add: conf_field_def)

lemma nmr_fields_spec:
  assumes "nr_tx_rings r = 0" "nr_rx_rings r = 0" "nr_tx_slots r = 0" "nr_rx_slots r = 0"
  shows "nmr_fields ts 0 r = snd (nmr_spec flag (map atoi ts) r)"
proof -
  consider "ts = []" | a where "ts = [a]" | a b where "ts = [a, b]" | a b c where "ts = [a, b, c]"
    | a b c d ds where "ts = a # b # c # d # ds" by (metis list.exhaust)
  then show ?thesis
    using assms by cases (simp_all add: nmr_spec_def Let_def nmr_fields_late numeral_2_eq_2 numeral_3_eq_3)
qed

lemma parse_nmr_spec: "parse_nmr_config flag (Some conf) nmr = nmr_spec flag (map atoi (strtok CHR '','' conf)) nmr"
proof -
  let ?r = "nmr\<lparr>nr_tx_rings := 0, nr_rx_rings := 0, nr_tx_slots := 0, nr_rx_slots := 0\<rparr>"
  let ?vs = "map atoi (strtok CHR '','' conf)"
  have same: "nmr_spec flag vs ?r = nmr_spec flag vs nmr" for vs by (simp add: nmr_spec_def Let_def)
  have f: "nmr_fields (strtok CHR '','' conf) 0 ?r = snd (nmr_spec flag ?vs nmr)"
    using nmr_fields_spec [of ?r _ flag] same by simp
  have fl: "fst (nmr_spec flag ?vs nmr) = (let r = snd (nmr_spec flag ?vs nmr) in
      if nr_tx_rings r \<noteq> 0 \<or> nr_tx_slots r \<noteq> 0 \<or> nr_rx_rings r \<noteq> 0 \<or> nr_rx_slots r \<noteq> 0 then flag else 0)"
    by (auto simp: nmr_spec_def Let_def)
  show ?thesis
  proof (cases "conf = []")
    case True
    then show ?thesis by (simp add: parse_nmr_config_def nmr_spec_def strtok_def Let_def)
  next
    case False
    then show ?thesis using f fl by (simp add: parse_nmr_config_def Let_def prod_eq_iff)
  qed
qed

subsection \<open>Properties of the network set-up\<close>

text \<open>C39: \<^verbatim>\<open>parse_nmr_config\<close> is the description in its comment.  Whatever the text is, the request gets the values of
  the fields that are not empty, by their positions: a single number gives both slot counts, the third gives both ring counts when
  there is no fourth, missing ones are 0, later ones are ignored, and the flag is returned exactly when a number
  that was stored is not 0.  A list of printed numbers is read back as these numbers.\<close>

theorem parse_nmr_config_reads:
  assumes "\<forall>n \<in> set ns. n < 2 ^ 31"
  shows "parse_nmr_config flag (Some conf) nmr = nmr_spec flag (map atoi (strtok CHR '','' conf)) nmr
    \<and> parse_nmr_config flag (Some (join CHR '','' (map fmt_u ns))) nmr = nmr_spec flag (map int ns) nmr"
proof -
  have "strtok CHR '','' (join CHR '','' (map fmt_u ns)) = map fmt_u ns" by (rule strtok_join) (use fmt_u_digit in auto)
  moreover have "map (atoi \<circ> fmt_u) ns = map int ns" using assms by (simp add: atoi_fmt_u)
  ultimately have "parse_nmr_config flag (Some (join CHR '','' (map fmt_u ns))) nmr = nmr_spec flag (map int ns) nmr"
    by (simp only: parse_nmr_spec map_map)
  then show ?thesis by (simp add: parse_nmr_spec)
qed

theorem parse_nmr_config_reads_witness:
  "\<exists>r. parse_nmr_config 1 (Some (join CHR '','' (map fmt_u [512, 1024, 4])))
      \<lparr>nr_name = [], nr_version = 0, nr_offset = 0, nr_memsize = 0, nr_tx_slots = 9, nr_rx_slots = 9, nr_tx_rings = 9, nr_rx_rings = 9,
       nr_ringid = 0, nr_cmd = 0, nr_arg1 = 0, nr_arg2 = 0, nr_arg3 = 0, nr_flags = 0, nr_spare2_0 = 0\<rparr> = (1, r)
    \<and> nr_tx_slots r = 512 \<and> nr_rx_slots r = 1024 \<and> nr_tx_rings r = 4 \<and> nr_rx_rings r = 4"
proof -
  have "\<forall>n \<in> set [512, 1024, 4 :: nat]. n < 2 ^ 31" by simp
  note c = parse_nmr_config_reads [OF this, of 1, THEN conjunct2]
  show ?thesis unfolding c by (simp add: nmr_spec_def Let_def conf_field_def)
qed

text \<open>C40: The choice of a channel.  \<^verbatim>\<open>createNicNameMap\<close> stores the usable interfaces of the kernel in its order while
  there are at most ten, and writes behind its table when there are more.  From the table \<^verbatim>\<open>setHostChannel\<close> takes the first
  interface with the name: the channel gets its address and a header for IP broadcasts with its hardware address,
  and the name of the host when it resolves; without such an interface it is left as it was.\<close>

theorem channel_of_interface:
  "createNicNameMap ifs [] = (if length (filter usable ifs) \<le> 10 then Inr (map nic_of (filter usable ifs)) else Inl OutOfBounds)
   \<and> (\<forall>tab. createNicNameMap ifs [] = Inr tab \<longrightarrow>
       (case find (\<lambda>i. if_name i = ifn) (filter usable ifs) of
          None \<Rightarrow> setHostChannel tab host_of ifn hc = Inr (0, hc)
        | Some i \<Rightarrow> \<forall>a mac h. if_addr i = Some a \<and> if_hwaddr i = Some mac \<and> host_of a = Some h \<and> length h < 512
            \<longrightarrow> setHostChannel tab host_of ifn hc
              = Inr (0xff, \<lparr>hc_name = h, hc_addr = a, hc_eth = replicate 6 0xff @ mac @ [8, 0]\<rparr>)))"
proof -
  have tab: "createNicNameMap ifs [] = (if length (filter usable ifs) \<le> 10 then Inr (map nic_of (filter usable ifs)) else Inl OutOfBounds)"
    by (simp add: createNicNameMap_spec MAX_NICS_def)
  have et: "le_enc 2 ETH_P_IP = [0, 8]" by code_simp
  show ?thesis
    unfolding setHostChannel_find tab
    by (auto simp: find_nic_of nic_of_def nic_entry_def et HOSTNAME_LEN_def intro!: host_channel.equality split: option.splits if_splits)
qed

theorem channel_of_interface_witness:
  "\<exists>tab. createNicNameMap [\<lparr>if_name = ''lo'', if_flags = Some 9, if_hwaddr = Some [0, 0, 0, 0, 0, 0], if_addr = Some 1\<rparr>,
      \<lparr>if_name = ''eth2'', if_flags = Some 1, if_hwaddr = Some [1, 2, 3, 4, 5, 6], if_addr = Some 2\<rparr>] [] = Inr tab
    \<and> setHostChannel tab (\<lambda>_. Some ''host'') ''eth2'' no_channel
      = Inr (0xff, \<lparr>hc_name = ''host'', hc_addr = 2, hc_eth = [255, 255, 255, 255, 255, 255, 1, 2, 3, 4, 5, 6, 8, 0]\<rparr>)"
proof -
  define lo where "lo = \<lparr>if_name = ''lo'', if_flags = Some 9, if_hwaddr = Some [0, 0, 0, 0, 0, 0], if_addr = Some 1\<rparr>"
  define et where "et = \<lparr>if_name = ''eth2'', if_flags = Some 1, if_hwaddr = Some [1, 2, 3, 4, 5, 6], if_addr = Some 2\<rparr>"
  have u: "filter usable [lo, et] = [et]" by (simp add: usable_def IFF_LOOPBACK_def lo_def et_def)
  have f: "if_name et = ''eth2''" "if_addr et = Some 2" "if_hwaddr et = Some [1, 2, 3, 4, 5, 6]" by (simp_all add: et_def)
  note c = channel_of_interface [where ifs = "[lo, et]" and ifn = "''eth2''" and hc = no_channel
      and host_of = "\<lambda>_. Some ''host''", unfolded u]
  have t: "createNicNameMap [lo, et] [] = Inr [nic_of et]" using c by simp
  have "setHostChannel [nic_of et] (\<lambda>_. Some ''host'') ''eth2'' no_channel
      = Inr (0xff, \<lparr>hc_name = ''host'', hc_addr = 2, hc_eth = replicate 6 0xff @ [1, 2, 3, 4, 5, 6] @ [8, 0]\<rparr>)"
    using c [THEN conjunct2, rule_format, OF t] f by simp
  then show ?thesis using t by (simp add: lo_def et_def numeral_eq_Suc)
qed

end
