(* ===== verification/Startup.thy ===== *)
theory Startup
  imports NetSetup
begin

text \<open>
  The start of the agent (\<^verbatim>\<open>main.c\<close>, \<^verbatim>\<open>global.c\<close>, \<^verbatim>\<open>sys_util.c\<close>): the options of the command line, and what
  \<^verbatim>\<open>main\<close> sets up before the threads run.
\<close>

subsection \<open>The options\<close>

text \<open>The global variables that the options set, and the values that \<^verbatim>\<open>global.c\<close> and \<^verbatim>\<open>hero.c\<close> give them.\<close>

record settings =
  o_scheduling_policy :: int
  o_scheduling_priority :: int
  o_data_affinity :: u32
  o_ctrl_affinity :: u32
  o_api_affinity :: u32
  o_payload_len :: bytes_t
  o_ctrl_nic :: string
  o_data_nic :: string
  o_queue_index :: u8
  o_rate_type :: RateType
  o_rate :: real
  o_burst :: pktnum
  o_seq_zero_notify :: bool
  o_msg_padding :: bool
  o_connect_controller :: bool
  o_fullrate :: bool
  o_attempt_scale :: real

definition default_settings :: settings where
  "default_settings = \<lparr>o_scheduling_policy = 0, o_scheduling_priority = 0, o_data_affinity = 1, o_ctrl_affinity = 0,
     o_api_affinity = 0, o_payload_len = 8692, o_ctrl_nic = ''eth2'', o_data_nic = ''eth2'', o_queue_index = 1,
     o_rate_type = RATE_GBPS, o_rate = 10, o_burst = 256, o_seq_zero_notify = False, o_msg_padding = False,
     o_connect_controller = False, o_fullrate = False, o_attempt_scale = 1 / 100\<rparr>"

definition OPTSTRING :: string where
  "OPTSTRING = ''s:S:d:c:i:j:e:o:r:R:b:a:q:zptf''"

definition int32_arg :: "string \<Rightarrow> int" where
  "int32_arg a = to_s32 (ucast (strtoull0 a))"

text \<open>A rate or scale: a number that is read and lies in the interval, or \<^verbatim>\<open>printUsage\<close>, which exits.\<close>

definition real_arg :: "real \<Rightarrow> string \<Rightarrow> real res" where
  "real_arg hi a = (case scan_lg a of
       Some (Finite x) \<Rightarrow> if 0 < x \<and> x \<le> hi then Inr x else Inl Exited
     | _ \<Rightarrow> Inl Exited)"

definition parse_option :: "char \<times> string option \<Rightarrow> settings \<Rightarrow> settings res" where
  "parse_option op s =
     (let c = fst op; a = (case snd op of None \<Rightarrow> [] | Some a \<Rightarrow> a)
      in if c = CHR ''s'' then Inr (s\<lparr>o_scheduling_policy := int32_arg a\<rparr>)
         else if c = CHR ''S'' then Inr (s\<lparr>o_scheduling_priority := int32_arg a\<rparr>)
         else if c = CHR ''d'' then Inr (s\<lparr>o_data_affinity := ucast (strtoull0 a)\<rparr>)
         else if c = CHR ''c'' then Inr (s\<lparr>o_ctrl_affinity := ucast (strtoull0 a)\<rparr>)
         else if c = CHR ''i'' then Inr (s\<lparr>o_api_affinity := ucast (strtoull0 a)\<rparr>)
         else if c = CHR ''j'' then Inr (s\<lparr>o_payload_len := ucast (strtoull0 a)\<rparr>)
         else if c = CHR ''e'' then Inr (s\<lparr>o_ctrl_nic := a\<rparr>)
         else if c = CHR ''o'' then Inr (s\<lparr>o_data_nic := a\<rparr>)
         else if c = CHR ''q'' then Inr (s\<lparr>o_queue_index := ucast (strtoull0 a)\<rparr>)
         else if c = CHR ''r'' then rbind (real_arg 10 a) (\<lambda>x. Inr (s\<lparr>o_rate_type := RATE_GBPS, o_rate := x\<rparr>))
         else if c = CHR ''R'' then rbind (real_arg (148 / 10) a) (\<lambda>x. Inr (s\<lparr>o_rate_type := RATE_MPPS, o_rate := x\<rparr>))
         else if c = CHR ''b'' then Inr (s\<lparr>o_burst := int32_arg a\<rparr>)
         else if c = CHR ''z'' then Inr (s\<lparr>o_seq_zero_notify := True\<rparr>)
         else if c = CHR ''p'' then Inr (s\<lparr>o_msg_padding := True\<rparr>)
         else if c = CHR ''t'' then Inr (s\<lparr>o_connect_controller := True\<rparr>)
         else if c = CHR ''f'' then Inr (s\<lparr>o_fullrate := True\<rparr>)
         else if c = CHR ''a'' then rbind (real_arg 1 a) (\<lambda>x. Inr (s\<lparr>o_attempt_scale := x\<rparr>))
         else Inl Exited)"

primrec parse_options :: "(char \<times> string option) list \<Rightarrow> settings \<Rightarrow> settings res" where
  "parse_options [] s = Inr s"
| "parse_options (op # ops) s = rbind (parse_option op s) (parse_options ops)"

definition parseUsage :: "string list \<Rightarrow> settings \<Rightarrow> settings res" where
  "parseUsage args s = parse_options (getopt OPTSTRING [] args) s"

subsection \<open>The threads\<close>

text \<open>What each thread does first: it pins itself to a core, and exits when the system refuses.  The data thread also sets
  its scheduling.\<close>

definition setaffinity :: "bool \<Rightarrow> int \<Rightarrow> int res" where
  "setaffinity ok core = assert_c (0 \<le> core) (if ok then Inr core else Inl Exited)"

definition setscheduler :: "bool \<Rightarrow> int \<Rightarrow> int \<Rightarrow> (int \<times> int) res" where
  "setscheduler ok policy priority = (if ok then Inr (policy, priority) else Inl Exited)"

definition pin_thread :: "bool \<Rightarrow> u32 \<Rightarrow> u32 \<Rightarrow> int res" where
  "pin_thread ok affinity cores =
     (if cores = 0 then Inl DivByZero else setaffinity ok (to_s32 (affinity mod cores)))"

definition data_thread_start :: "bool \<Rightarrow> bool \<Rightarrow> u32 \<Rightarrow> settings \<Rightarrow> (int \<times> int \<times> int) res" where
  "data_thread_start ok1 ok2 cores s =
     rbind (pin_thread ok1 (o_data_affinity s) cores) (\<lambda>core.
       rbind (setscheduler ok2 (o_scheduling_policy s) (o_scheduling_priority s)) (\<lambda>sc. Inr (core, sc)))"

text \<open>The listening sockets: one for TCP connections of the receivers, bound to any address, and one for the applications,
  bound to a file name that is removed before.  The results of the calls are given.\<close>

definition CTRL_DST_PORT :: u16 where "CTRL_DST_PORT = 0x6464"

definition DOMAIN_SOCKET_FILENAME :: string where "DOMAIN_SOCKET_FILENAME = ''/home/bold/domain_socket_file''"

record sock_calls =
  ret_socket :: int
  ret_setsockopt :: int
  ret_bind :: int
  ret_listen :: int

definition listen_tcp :: "sock_calls \<Rightarrow> (int \<times> in_addr \<times> u16) res" where
  "listen_tcp c =
     (if ret_socket c < 0 then Inl Aborted
      else if ret_setsockopt c < 0 then Inl Aborted
      else if ret_bind c < 0 then Inl Aborted
      else if ret_listen c < 0 then Inl Aborted
      else Inr (ret_socket c, 0, htons CTRL_DST_PORT))"

definition listen_uds :: "sock_calls \<Rightarrow> (string \<rightharpoonup> byte list) \<Rightarrow> (int \<times> string \<times> (string \<rightharpoonup> byte list)) res" where
  "listen_uds c fs =
     (if ret_socket c = -1 then Inl Exited
      else if ret_setsockopt c < 0 then Inl Aborted
      else (let path = take 107 DOMAIN_SOCKET_FILENAME; fs = fs(DOMAIN_SOCKET_FILENAME := None)
            in if ret_bind c = -1 then Inl Exited
               else if ret_listen c = -1 then Inl Exited
               else Inr (ret_socket c, path, fs)))"

definition send_thread_start :: "bool \<Rightarrow> u32 \<Rightarrow> settings \<Rightarrow> sock_calls \<Rightarrow> ('q, 's, 'u) agent
    \<Rightarrow> (int \<times> (int \<times> in_addr \<times> u16) \<times> ('q, 's, 'u) agent) res" where
  "send_thread_start ok cores s c g =
     rbind (pin_thread ok (o_ctrl_affinity s) cores) (\<lambda>core.
       rbind (listen_tcp c) (\<lambda>l. Inr (core, l, g\<lparr>ringCmd := []\<rparr>)))"

definition recv_thread_start :: "bool \<Rightarrow> u32 \<Rightarrow> settings \<Rightarrow> int res" where
  "recv_thread_start ok cores s = pin_thread ok (o_ctrl_affinity s) cores"

definition service_thread_start :: "bool \<Rightarrow> u32 \<Rightarrow> settings \<Rightarrow> sock_calls \<Rightarrow> ('q, 's, 'u) agent
    \<Rightarrow> (int \<times> (int \<times> string) \<times> ('q, 's, 'u) agent) res" where
  "service_thread_start ok cores s c g =
     rbind (pin_thread ok (o_api_affinity s) cores) (\<lambda>core.
       rbind (listen_uds c (files g)) (\<lambda>(sock, path, fs). Inr (core, (sock, path), g\<lparr>files := fs\<rparr>)))"

text \<open>A thread that starts runs on a core of the machine, and its socket is bound to what the clients expect.\<close>

lemma pin_thread_core:
  assumes "pin_thread ok aff cores = Inr k" "unat cores < 2 ^ 31"
  shows "0 \<le> k \<and> k < int (unat cores)"
proof -
  have c: "cores \<noteq> 0" and a: "setaffinity ok (to_s32 (aff mod cores)) = Inr k"
    using assms(1) by (simp_all add: pin_thread_def split: if_splits)
  have k: "k = to_s32 (aff mod cores)" "0 \<le> k" using a by (auto simp: setaffinity_def assert_c_def split: if_splits)
  have "unat (aff mod cores) < unat cores" using c by (simp add: unat_mod unat_gt_0)
  then show ?thesis using k assms(2) by (simp add: to_s32_def sint_small) (metis of_nat_less_iff of_nat_unat)
qed

lemma send_thread_start_bound:
  "send_thread_start ok cores s c g = Inr (core, (sock, addr, port), g') \<Longrightarrow> 0 \<le> sock \<and> addr = 0 \<and> port = 0x6464 \<and> ringCmd g' = []"
proof -
  assume st: "send_thread_start ok cores s c g = Inr (core, (sock, addr, port), g')"
  have "htons CTRL_DST_PORT = 0x6464" by code_simp
  then show ?thesis
    using st by (auto simp: send_thread_start_def listen_tcp_def rbind_Inr_iff split: if_splits)
qed

lemma service_thread_start_bound:
  "service_thread_start ok cores s c g = Inr (core, (sock, path), g') \<Longrightarrow> path = DOMAIN_SOCKET_FILENAME \<and> files g' DOMAIN_SOCKET_FILENAME = None"
  by (auto simp: service_thread_start_def listen_uds_def rbind_Inr_iff Let_def DOMAIN_SOCKET_FILENAME_def split: if_splits)

subsection \<open>Main\<close>

text \<open>What the system answers to \<^verbatim>\<open>main\<close>: the logging library, netmap, the kernel's interfaces, the resolver, and the reading
  ends of the four pipes.\<close>

record env =
  e_zlog_rc :: int
  e_category :: bool
  e_nm_open :: "string \<Rightarrow> nm_desc option \<Rightarrow> nm_desc option"
  e_ifaces :: "iface list"
  e_host_of :: "in_addr \<Rightarrow> string option"
  e_pipes :: "int \<times> int \<times> int \<times> int"
  e_files :: "string \<rightharpoonup> byte list"

record ('q, 's, 'u) started =
  st_config :: config
  st_settings :: settings
  st_ctrl :: host_channel
  st_data :: host_channel
  st_targ :: targ
  st_agent :: "('q, 's, 'u) agent"

datatype ('q, 's, 'u) start = Returned int | Running "('q, 's, 'u) started"

text \<open>The global variables as the threads read them.\<close>

definition config_of :: "settings \<Rightarrow> host_channel \<Rightarrow> host_channel \<Rightarrow> config" where
  "config_of s ctrl dat = \<lparr>hostinaddress_ctrl = hc_addr ctrl, hostinaddress_data = hc_addr dat, hostethhdr_data = hc_eth dat,
     data_payload_len = o_payload_len s, seq_zero_notify = o_seq_zero_notify s, connect_controller = o_connect_controller s,
     first_first_seq_fullrate = o_fullrate s, attempt_scale = o_attempt_scale s, nm_burst = nat (o_burst s),
     cf_rate_type = o_rate_type s, rate_f = o_rate s, ctrl_nic_name = o_ctrl_nic s\<rparr>"

definition start_state :: "'q queue_ops \<Rightarrow> ('u, BcdID) skiplist_ops \<Rightarrow> env \<Rightarrow> settings \<Rightarrow> targ \<Rightarrow> host_channel \<Rightarrow> host_channel
    \<Rightarrow> ('q, 's, 'u) started" where
  "start_state Q U e s t ctrl dat = (case e_pipes e of (p1, p2, p3, p4) \<Rightarrow>
     \<lparr>st_config = config_of s ctrl dat, st_settings = s, st_ctrl = ctrl, st_data = dat, st_targ = t,
      st_agent = main_pipes Q p1 p2 p3 p4 ((initSharedDataStructures U)\<lparr>files := deleteRamdiskFiles (e_files e)\<rparr>)\<rparr>)"

definition main_start :: "'q queue_ops \<Rightarrow> ('u, BcdID) skiplist_ops \<Rightarrow> env \<Rightarrow> string list \<Rightarrow> ('q, 's, 'u) start res" where
  "main_start Q U e args =
     rbind (parseUsage args default_settings) (\<lambda>s.
       if e_zlog_rc e \<noteq> 0 then Inr (Returned (-1))
       else if \<not> e_category e then Inr (Returned (-2))
       else rbind (createGlobalArg (o_data_nic s) (o_queue_index s)) (\<lambda>ga.
         let t = snd (startNetmapfd (e_nm_open e) (createTArg ga))
         in rbind (desc_req (tg_nmd_host t)) (\<lambda>_. rbind (desc_req (tg_nmd t)) (\<lambda>_.
              rbind (createNicNameMap (e_ifaces e) []) (\<lambda>tab.
                rbind (setHostChannel tab (e_host_of e) (o_ctrl_nic s) no_channel) (\<lambda>(_, ctrl).
                  rbind (setHostChannel tab (e_host_of e) (o_data_nic s) no_channel) (\<lambda>(_, dat).
                    Inr (Running (start_state Q U e s t ctrl dat)))))))))"

subsection \<open>What the options guarantee\<close>

definition valid_settings :: "settings \<Rightarrow> bool" where
  "valid_settings s \<longleftrightarrow> 0 < o_rate s
     \<and> (o_rate_type s = RATE_GBPS \<and> o_rate s \<le> 10 \<or> o_rate_type s = RATE_MPPS \<and> o_rate s \<le> 148 / 10)
     \<and> 0 < o_attempt_scale s \<and> o_attempt_scale s \<le> 1"

lemma real_arg_Inr: "real_arg hi a = Inr x \<Longrightarrow> 0 < x \<and> x \<le> hi"
  by (auto simp: real_arg_def split: option.splits lg.splits if_splits)

lemma default_valid: "valid_settings default_settings"
  by (simp add: valid_settings_def default_settings_def)

lemma parse_option_valid: "parse_option op s = Inr s' \<Longrightarrow> valid_settings s \<Longrightarrow> valid_settings s'"
  unfolding parse_option_def Let_def
  by (auto simp: valid_settings_def rbind_Inr_iff dest!: real_arg_Inr split: if_splits)

lemma parse_options_valid: "parse_options ops s = Inr s' \<Longrightarrow> valid_settings s \<Longrightarrow> valid_settings s'"
  by (induction ops arbitrary: s) (auto simp: rbind_Inr_iff dest: parse_option_valid)

lemma parseUsage_valid: "parseUsage args default_settings = Inr s \<Longrightarrow> valid_settings s"
  unfolding parseUsage_def by (rule parse_options_valid [OF _ default_valid])

text \<open>What a start that gets to the threads went through.\<close>

lemma main_start_Running:
  assumes "main_start Q U e args = Inr (Running st)"
  obtains s ga t tab r1 r2 ctrl dat where "parseUsage args default_settings = Inr s" "createGlobalArg (o_data_nic s) (o_queue_index s) = Inr ga"
    "t = snd (startNetmapfd (e_nm_open e) (createTArg ga))" "createNicNameMap (e_ifaces e) [] = Inr tab"
    "setHostChannel tab (e_host_of e) (o_data_nic s) no_channel = Inr (r2, dat)"
    "setHostChannel tab (e_host_of e) (o_ctrl_nic s) no_channel = Inr (r1, ctrl)" "st = start_state Q U e s t ctrl dat"
  using assms by (auto simp: main_start_def rbind_Inr_iff Let_def split: if_splits)

lemma start_state_sel:
  "st_settings (start_state Q U e s t ctrl dat) = s" "st_config (start_state Q U e s t ctrl dat) = config_of s ctrl dat"
  by (simp_all add: start_state_def split: prod.split)

lemma data_channel_header:
  assumes "createNicNameMap ifs [] = Inr tab" "setHostChannel tab host_of ifn no_channel = Inr (r, dat)"
    and "find (\<lambda>i. if_name i = ifn) (filter usable ifs) = Some i" "if_hwaddr i = Some mac"
  shows "hc_eth dat = replicate 6 0xff @ mac @ [8, 0]"
proof -
  have et: "le_enc 2 ETH_P_IP = [0, 8]" by code_simp
  have "tab = map nic_of (filter usable ifs)" using assms(1) by (simp add: createNicNameMap_spec split: if_splits)
  then show ?thesis
    using assms(2-4) by (auto simp: setHostChannel_find find_nic_of nic_of_def nic_entry_def et split: option.splits if_splits)
qed

subsection \<open>An example start\<close>

definition example_args :: "string list" where
  "example_args = [''-r'', ''2.5'', ''-zj2'', ''-o'', ''eth3'']"

definition example_settings :: settings where
  "example_settings = default_settings\<lparr>o_rate := 5 / 2, o_seq_zero_notify := True, o_payload_len := 2, o_data_nic := ''eth3''\<rparr>"

definition example_req :: nmreq where
  "example_req = \<lparr>nr_name = [], nr_version = 0, nr_offset = 0, nr_memsize = 0, nr_tx_slots = 0, nr_rx_slots = 0, nr_tx_rings = 1,
     nr_rx_rings = 1, nr_ringid = 0, nr_cmd = 0, nr_arg1 = 0, nr_arg2 = 0, nr_arg3 = 0, nr_flags = 0, nr_spare2_0 = 0\<rparr>"

definition example_desc :: "int \<Rightarrow> nm_desc" where
  "example_desc f = \<lparr>nd_fd = f, nd_mem = 1, nd_req = example_req, first_tx_ring = 0, last_tx_ring = 0, first_rx_ring = 0, last_rx_ring = 0,
     nd_txring = (\<lambda>_. \<lparr>num_slots = 1, rg_head = 0, rg_cur = 0, rg_tail = 0, rg_slot = []\<rparr>),
     nd_rxring = (\<lambda>_. \<lparr>num_slots = 1, rg_head = 0, rg_cur = 0, rg_tail = 0, rg_slot = []\<rparr>)\<rparr>"

definition example_iface :: iface where
  "example_iface = \<lparr>if_name = ''eth3'', if_flags = Some 1, if_hwaddr = Some [1, 2, 3, 4, 5, 6], if_addr = Some 7\<rparr>"

definition example_env :: "bool \<Rightarrow> env" where
  "example_env nic = \<lparr>e_zlog_rc = 0, e_category = True,
     e_nm_open = (\<lambda>n h. case h of None \<Rightarrow> Some (example_desc 3) | Some _ \<Rightarrow> if nic then Some (example_desc 4) else None),
     e_ifaces = [example_iface], e_host_of = (\<lambda>_. Some ''host''), e_pipes = (5, 6, 7, 8), e_files = Map.empty\<rparr>"

lemma example_options: "parseUsage example_args default_settings = Inr example_settings"
proof -
  have g: "getopt OPTSTRING [] example_args
      = [(CHR ''r'', Some ''2.5''), (CHR ''z'', None), (CHR ''j'', Some ''2''), (CHR ''o'', Some ''eth3'')]"
    by (simp add: OPTSTRING_def example_args_def)
  have r: "scan_lg ''2.5'' = Some (Finite (5 / 2))"
    by (simp add: scan_lg_def sign_of_def isspace_def prefix_ci_def hex_float_def scan_float_def is_digit_def digit_value_def
        digits_value_def scan_exp_def Let_def)
  have j: "strtoull0 ''2'' = 2"
    by (simp add: strtoull0_def sign_of_def isspace_def hex_prefix_def is_digit_def digit_value_def digits_value_def)
  show ?thesis
    unfolding parseUsage_def g by (simp add: parse_option_def Let_def real_arg_def r j example_settings_def default_settings_def)
qed

lemma example_names:
  "createGlobalArg ''eth3'' 1 = Inr \<lparr>ifname = ''netmap:eth3-'' @ fmt_u 1, ifname_host = ''netmap:eth3^'', zerocopy = True, wait_link = 5\<rparr>"
  using length_fmt_u [of 1 1] by (simp add: createGlobalArg_def MAX_IFNAMELEN_def)

lemma example_start: "\<exists>st. main_start Q U (example_env True) example_args = Inr (Running st)
    \<and> st_settings st = example_settings \<and> data_payload_len (st_config st) = 2"
proof -
  have s: "o_data_nic example_settings = ''eth3''" "o_ctrl_nic example_settings = ''eth2''" "o_queue_index example_settings = 1"
    by (simp_all add: example_settings_def default_settings_def)
  have "usable example_iface" by (simp add: usable_def IFF_LOOPBACK_def example_iface_def)
  then have tab: "createNicNameMap [example_iface] [] = Inr [nic_of example_iface]"
    using createNicNameMap_spec [of "[]" "[example_iface]"] by (simp add: MAX_NICS_def del: createNicNameMap.simps)
  have n: "nicName (nic_of example_iface) = ''eth3''" by (simp add: nic_of_def nic_entry_def example_iface_def)
  show ?thesis
    by (simp add: main_start_def example_options s example_names example_env_def startNetmapfd_def createTArg_def desc_req_def
        example_desc_def tab n HOSTNAME_LEN_def start_state_sel config_of_def Let_def del: createNicNameMap.simps)
      (simp add: example_settings_def)
qed

subsection \<open>Properties of the start\<close>



text \<open>\<^verbatim>\<open>main\<close> does not look at the result of \<^verbatim>\<open>startNetmapfd\<close>: when the device of the host stack cannot be opened the
  process stops at a null pointer, and when only the NIC cannot be opened, at the descriptor that was closed.  It
  gets no further than that with any answers of the rest of the system.\<close>

lemma netmap_failure_stops:
  assumes "parseUsage args default_settings = Inr s" "e_zlog_rc e = 0" "e_category e"
    and "createGlobalArg (o_data_nic s) (o_queue_index s) = Inr ga"
  shows "(e_nm_open e (ifname_host ga) None = None \<longrightarrow> main_start Q U e args = Inl NullDeref)
    \<and> (\<forall>h. e_nm_open e (ifname_host ga) None = Some h \<and> e_nm_open e (ifname ga) (Some h) = None
        \<longrightarrow> main_start Q U e args = Inl UseAfterFree)"
  using assms by (simp add: main_start_def startNetmapfd_def createTArg_def desc_req_def Let_def)

lemma netmap_failure_stops_example:
  "main_start list_queue (cmp_skiplist (\<lambda>_ _. 1)) (example_env False) example_args = (Inl UseAfterFree :: (MsgToken list, nat list, BcdID list) start res)"
proof -
  have s: "o_data_nic example_settings = ''eth3''" "o_queue_index example_settings = 1"
    by (simp_all add: example_settings_def default_settings_def)
  show ?thesis
    using netmap_failure_stops [OF example_options, of "example_env False", unfolded s, OF _ _ example_names]
    by (simp add: example_env_def)
qed

end
