(* ===== verification/Safety.thy ===== *)
theory Safety
  imports SendThread
begin

text \<open>
  The pointers of the control thread of the sender to connections and senders stay valid: an invariant of the shared state over every pass of
  \<^verbatim>\<open>thread_sendSocket\<close>.
\<close>

subsection \<open>Steps that keep an invariant\<close>

text \<open>A result that is none of the faults \<open>F\<close> and has \<open>P\<close> when it is no fault.\<close>

definition res_in :: "fault set \<Rightarrow> ('a \<Rightarrow> bool) \<Rightarrow> 'a res \<Rightarrow> bool" where
  "res_in F P x \<longleftrightarrow> (case x of Inl e \<Rightarrow> e \<notin> F | Inr y \<Rightarrow> P y)"

definition ores_in :: "fault set \<Rightarrow> ('a \<Rightarrow> bool) \<Rightarrow> 'a res option \<Rightarrow> bool" where
  "ores_in F P x \<longleftrightarrow> (case x of None \<Rightarrow> True | Some y \<Rightarrow> res_in F P y)"

text \<open>Steps that never use a dangling pointer to a connection or a sender, and steps of which only the results matter.\<close>

abbreviation safe :: "('a \<Rightarrow> bool) \<Rightarrow> 'a res \<Rightarrow> bool" where "safe \<equiv> res_in {UseAfterFree}"
abbreviation osafe :: "('a \<Rightarrow> bool) \<Rightarrow> 'a res option \<Rightarrow> bool" where "osafe \<equiv> ores_in {UseAfterFree}"
abbreviation keeps :: "('a \<Rightarrow> bool) \<Rightarrow> 'a res \<Rightarrow> bool" where "keeps \<equiv> res_in {}"
abbreviation okeeps :: "('a \<Rightarrow> bool) \<Rightarrow> 'a res option \<Rightarrow> bool" where "okeeps \<equiv> ores_in {}"

lemma res_in_simps [simp]:
  "res_in F P (Inr y) = P y" "res_in F P (Inl e) \<longleftrightarrow> e \<notin> F"
  "ores_in F P None" "ores_in F P (Some z) = res_in F P z"
  by (simp_all add: res_in_def ores_in_def)

lemma res_in_mono: "res_in F P x \<Longrightarrow> (\<And>y. x = Inr y \<Longrightarrow> P y \<Longrightarrow> R y) \<Longrightarrow> res_in F R x"
  by (cases x) auto

lemma ores_in_mono: "ores_in F P x \<Longrightarrow> (\<And>y. P y \<Longrightarrow> R y) \<Longrightarrow> ores_in F R x"
  by (cases x) (auto intro: res_in_mono)

lemma res_in_faults: "res_in F P x \<Longrightarrow> G \<subseteq> F \<Longrightarrow> res_in G P x"
  by (cases x) auto

lemma ores_in_faults: "ores_in F P x \<Longrightarrow> G \<subseteq> F \<Longrightarrow> ores_in G P x"
  by (cases x) (auto intro: res_in_faults)

lemma safe_rbind: "res_in F P x \<Longrightarrow> (\<And>y. P y \<Longrightarrow> res_in F R (f y)) \<Longrightarrow> res_in F R (rbind x f)"
  by (cases x) (auto simp: rbind_def)

lemma safe_deref: "NullDeref \<notin> F \<Longrightarrow> (\<And>y. p = Some y \<Longrightarrow> res_in F R (f y)) \<Longrightarrow> res_in F R (deref p f)"
  by (cases p) (auto simp: deref_def)

lemma safe_assert: "AssertFailed \<notin> F \<Longrightarrow> (b \<Longrightarrow> res_in F R k) \<Longrightarrow> res_in F R (assert_c b k)"
  by (simp add: assert_c_def)

lemma osafe_bind: "ores_in F P x \<Longrightarrow> (\<And>y. P y \<Longrightarrow> ores_in F R (f y)) \<Longrightarrow> ores_in F R (ro_bind x f)"
  by (auto simp: ro_bind_def split: option.splits sum.splits)

lemma osafe_assert: "AssertFailed \<notin> F \<Longrightarrow> (b \<Longrightarrow> ores_in F R k) \<Longrightarrow> ores_in F R (ro_assert b k)"
  by (simp add: ro_assert_def)

lemma osafe_if: "(b \<Longrightarrow> ores_in F P x) \<Longrightarrow> (\<not> b \<Longrightarrow> ores_in F P y) \<Longrightarrow> ores_in F P (if b then x else y)"
  by simp

lemma osafe_deref: "NullDeref \<notin> F \<Longrightarrow> (\<And>y. p = Some y \<Longrightarrow> ores_in F R (f y)) \<Longrightarrow> ores_in F R (ro_deref p f)"
  by (cases p) auto

lemma osafe_fold: "(\<And>x s. x \<in> set xs \<Longrightarrow> I s \<Longrightarrow> ores_in F I (f x s)) \<Longrightarrow> I s \<Longrightarrow> ores_in F I (ro_fold f xs s)"
proof (induction xs arbitrary: s)
  case Nil
  then show ?case by simp
next
  case (Cons x xs)
  show ?case unfolding ro_fold.simps
    by (rule osafe_bind [where P = I]) (use Cons in auto)
qed

text \<open>The receive loop keeps what its handler keeps.\<close>

lemma frame_loop_safe:
  "frame_loop ready handle r st = Some z \<Longrightarrow> OutOfBounds \<notin> F \<longrightarrow>
    (\<forall>r st. I st \<longrightarrow> ores_in F (\<lambda>x. I (snd x)) (handle r st)) \<longrightarrow> I st \<longrightarrow> res_in F (\<lambda>x. I (snd x)) z"
proof (induction ready handle r st z rule: frame_loop.raw_induct [rotated, consumes 1, case_names step])
  case (step loop ready handle r st z)
  show ?case
  proof (intro impI)
    assume F: "OutOfBounds \<notin> F" and h: "\<forall>r st. I st \<longrightarrow> ores_in F (\<lambda>x. I (snd x)) (handle r st)" and I: "I st"
    have IH: "res_in F (\<lambda>x. I (snd x)) y" if "loop ready handle r' st' = Some y" "I st'" for r' st' y
      using step(1) [OF that(1)] F h that(2) by blast
    have hr: "ores_in F (\<lambda>x. I (snd x)) (handle (frame_header r) st)" using h I by blast
    note z = step(2)
    show "res_in F (\<lambda>x. I (snd x)) z"
    proof (cases "recv_ed_byte r = 0 \<or> \<not> ready (frame_header r)")
      case True
      then show ?thesis using z I by (auto split: if_splits)
    next
      case False
      then obtain y where y: "handle (frame_header r) st = Some y" using z by (auto split: option.splits)
      show ?thesis
      proof (cases y)
        case (Inl e)
        then show ?thesis using z hr False y by auto
      next
        case (Inr x)
        obtain d st' where x: "x = (d, st')" by force
        have I': "I st'" using hr y Inr x by simp
        show ?thesis
        proof (cases "\<exists>e. d \<and> frame_consume (frame_header r) = Inl e")
          case True
          then show ?thesis using z False y Inr x F by (auto simp: frame_consume_def Let_def split: if_splits)
        next
          case False2: False
          then obtain r2 where "loop ready handle r2 st' = Some z"
            using z False y Inr x by (cases d) (auto split: sum.splits)
          then show ?thesis by (rule IH [OF _ I'])
        qed
      qed
    qed
  qed
qed

lemma osafe_frame_loop:
  assumes "OutOfBounds \<notin> F" "\<And>r st. I st \<Longrightarrow> ores_in F (\<lambda>x. I (snd x)) (handle r st)" and "I st"
  shows "ores_in F (\<lambda>x. I (snd x)) (frame_loop ready handle r st)"
  using frame_loop_safe [of ready handle r st _ F I] assms by (cases "frame_loop ready handle r st") auto

text \<open>Library loops that know nothing of pointers.\<close>

lemma createMsgToken_safe: "safe (\<lambda>_. True) (createMsgToken bid ty payload plen padding now)"
  by (auto simp: createMsgToken_def createMsg_def Let_def rbind_def split: option.splits sum.splits if_splits)

lemma insertMsg2SendQ_safe: "osafe (\<lambda>_. True) (insertMsg2SendQ Q q bid ty payload plen padding priority now)"
  using createMsgToken_safe [of bid ty payload plen padding now]
  by (auto simp: insertMsg2SendQ_def split: option.splits sum.splits)

lemma sendMsg_safe_some: "sendMsg Q send i q tok out = Some z \<Longrightarrow> safe (\<lambda>_. True) z"
proof (induction Q send i q tok out z rule: sendMsg.raw_induct [rotated, consumes 1, case_names step])
  case (step loop Q send i q tok out z)
  then show ?case by (auto simp: offered_def Let_def split: option.splits sum.splits if_splits prod.splits)
qed

lemma sendMsg_safe: "osafe (\<lambda>_. True) (sendMsg Q send i q tok out)"
  using sendMsg_safe_some [of Q send i q tok out] by (cases "sendMsg Q send i q tok out") auto

lemma patch_seqs_safe: "patch_seqs Q now m fl q pos pt = Some z \<Longrightarrow> safe (\<lambda>_. True) z"
proof (induction Q now m fl q pos pt z rule: patch_seqs.raw_induct [rotated, consumes 1, case_names step])
  case (step loop Q now m fl q pos pt z)
  obtain buf pos' len where c: "createData (replicate 9216 0) 0 m fl pos (stt_seq pt) = (buf, pos', len)" by (metis prod_cases3)
  show ?case
    using step insertMsg2SendQ_safe [of Q q "m_bcd_id m" MSG_PATCH_DATA "Some buf" "ucast (ucast len :: u16)" False False now]
    by (auto simp: c split: option.splits sum.splits if_splits)
qed

subsection \<open>The invariant\<close>

text \<open>A multicast whose pointers are valid: to connections (\<open>A\<close>) and to its senders.\<close>

definition mc_ok :: "('s \<Rightarrow> nat list) \<Rightarrow> nat set \<Rightarrow> 's MulticastState \<Rightarrow> bool" where
  "mc_ok elems A m \<longleftrightarrow> (\<forall>sd \<in> set (sender_heap m). \<forall>a. s_ssock_p sd = Some a \<longrightarrow> a \<in> A)
     \<and> (\<forall>i. Some i \<in> set (sender_end_seq_arr_p m) \<longrightarrow> i < length (sender_heap m))
     \<and> (\<forall>ip i. sender_addr_hash_p m ip = Some i \<longrightarrow> i < length (sender_heap m))
     \<and> (\<forall>i \<in> set (elems (sender_end_seq_pq_p m)). i < length (sender_heap m))"

definition mcs_ok :: "('s \<Rightarrow> nat list) \<Rightarrow> nat set \<Rightarrow> (BcdID \<rightharpoonup> 's MulticastState) \<Rightarrow> bool" where
  "mcs_ok elems A ms \<longleftrightarrow> (\<forall>b m. ms b = Some m \<longrightarrow> mc_ok elems A m)"

text \<open>The shared state as the thread sees it: its list holds connections, each once, that are allocated; so are the connections
  that commands and senders name.\<close>

definition send_wf :: "('s \<Rightarrow> nat list) \<Rightarrow> ('q, 's, 'u) agent \<Rightarrow> bool" where
  "send_wf elems g \<longleftrightarrow> distinct (ssockList g) \<and> set (ssockList g) \<subseteq> dom (ssock_heap g)
     \<and> (\<forall>a \<in> dom (ssock_heap g). a < next_addr g) \<and> cmd_sendQueue_p ` set (ringCmd g) \<subseteq> dom (ssock_heap g)
     \<and> mcs_ok elems (dom (ssock_heap g)) (hashMulticast g)"

lemma mcs_okD: "mcs_ok elems A ms \<Longrightarrow> ms b = Some m \<Longrightarrow> mc_ok elems A m"
  by (simp add: mcs_ok_def)

lemma mcs_ok_upd: "mcs_ok elems A ms \<Longrightarrow> mc_ok elems A m \<Longrightarrow> mcs_ok elems A (ms(b \<mapsto> m))"
  by (auto simp: mcs_ok_def)

lemma mc_ok_mono: "mc_ok elems A m \<Longrightarrow> A \<subseteq> B \<Longrightarrow> mc_ok elems B m"
  by (auto simp: mc_ok_def)

lemma mcs_ok_mono: "mcs_ok elems A ms \<Longrightarrow> A \<subseteq> B \<Longrightarrow> mcs_ok elems B ms"
  by (auto simp: mcs_ok_def intro: mc_ok_mono)

lemma mc_ok_same:
  assumes "sender_heap m' = sender_heap m" "sender_end_seq_arr_p m' = sender_end_seq_arr_p m"
    "sender_addr_hash_p m' = sender_addr_hash_p m" "sender_end_seq_pq_p m' = sender_end_seq_pq_p m"
  shows "mc_ok elems A m' = mc_ok elems A m"
  by (simp add: mc_ok_def assms)

text \<open>What it does not look at.\<close>

lemma mc_ok_irrelevant [simp]:
  "mc_ok elems A (m\<lparr>m_bcd_id := x0\<rparr>) = mc_ok elems A m" "mc_ok elems A (m\<lparr>sender_end_seq_arr_idx_start := x1\<rparr>) = mc_ok elems A m"
  "mc_ok elems A (m\<lparr>sender_end_seq_arr_idx_end := x2\<rparr>) = mc_ok elems A m" "mc_ok elems A (m\<lparr>m_msgPshQ := x3\<rparr>) = mc_ok elems A m"
  "mc_ok elems A (m\<lparr>m_msgIntQ := x4\<rparr>) = mc_ok elems A m" "mc_ok elems A (m\<lparr>m_msgWrtQ := x5\<rparr>) = mc_ok elems A m"
  "mc_ok elems A (m\<lparr>m_data_size := x6\<rparr>) = mc_ok elems A m" "mc_ok elems A (m\<lparr>m_seq_max := x7\<rparr>) = mc_ok elems A m"
  "mc_ok elems A (m\<lparr>m_byte_payload := x8\<rparr>) = mc_ok elems A m" "mc_ok elems A (m\<lparr>m_byte_payload_min := x9\<rparr>) = mc_ok elems A m"
  "mc_ok elems A (m\<lparr>m_bcd_filename := x10\<rparr>) = mc_ok elems A m" "mc_ok elems A (m\<lparr>m_fd := x11\<rparr>) = mc_ok elems A m"
  "mc_ok elems A (m\<lparr>m_fd_patch := x12\<rparr>) = mc_ok elems A m" "mc_ok elems A (m\<lparr>bcd_state := x13\<rparr>) = mc_ok elems A m"
  "mc_ok elems A (m\<lparr>n_init := x14\<rparr>) = mc_ok elems A m" "mc_ok elems A (m\<lparr>n_first_seq := x15\<rparr>) = mc_ok elems A m"
  "mc_ok elems A (m\<lparr>n_all_done := x16\<rparr>) = mc_ok elems A m" "mc_ok elems A (m\<lparr>is_first_seq_distinct_rack := x17\<rparr>) = mc_ok elems A m"
  "mc_ok elems A (m\<lparr>is_all_done_distinct_rack := x18\<rparr>) = mc_ok elems A m" "mc_ok elems A (m\<lparr>is_distinct_rack := x19\<rparr>) = mc_ok elems A m"
  "mc_ok elems A (m\<lparr>is_tv_last_data := x20\<rparr>) = mc_ok elems A m" "mc_ok elems A (m\<lparr>seq_end := x21\<rparr>) = mc_ok elems A m"
  "mc_ok elems A (m\<lparr>seq_end_max := x22\<rparr>) = mc_ok elems A m" "mc_ok elems A (m\<lparr>seq_cur := x23\<rparr>) = mc_ok elems A m"
  "mc_ok elems A (m\<lparr>n_byte := x24\<rparr>) = mc_ok elems A m" "mc_ok elems A (m\<lparr>n_packet := x25\<rparr>) = mc_ok elems A m"
  "mc_ok elems A (m\<lparr>n_byte_total := x26\<rparr>) = mc_ok elems A m" "mc_ok elems A (m\<lparr>n_packet_total := x27\<rparr>) = mc_ok elems A m"
  "mc_ok elems A (m\<lparr>n_byte_attempt := x28\<rparr>) = mc_ok elems A m" "mc_ok elems A (m\<lparr>n_packet_attempt := x29\<rparr>) = mc_ok elems A m"
  "mc_ok elems A (m\<lparr>n_patch_total := x30\<rparr>) = mc_ok elems A m" "mc_ok elems A (m\<lparr>eth_hdr := x31\<rparr>) = mc_ok elems A m"
  "mc_ok elems A (m\<lparr>ip_hdr := x32\<rparr>) = mc_ok elems A m" "mc_ok elems A (m\<lparr>udp_hdr := x33\<rparr>) = mc_ok elems A m"
  "mc_ok elems A (m\<lparr>rate_type := x34\<rparr>) = mc_ok elems A m" "mc_ok elems A (m\<lparr>rate := x35\<rparr>) = mc_ok elems A m"
  "mc_ok elems A (m\<lparr>rate_f_delta := x36\<rparr>) = mc_ok elems A m" "mc_ok elems A (m\<lparr>std_rate_f_delta := x37\<rparr>) = mc_ok elems A m"
  "mc_ok elems A (m\<lparr>tv_sendStart := x38\<rparr>) = mc_ok elems A m" "mc_ok elems A (m\<lparr>tv_push := x39\<rparr>) = mc_ok elems A m"
  "mc_ok elems A (m\<lparr>m_tv := x40\<rparr>) = mc_ok elems A m" "mc_ok elems A (m\<lparr>is_path_released := x41\<rparr>) = mc_ok elems A m"
  "mc_ok elems A (m\<lparr>m_is_stats_logged := x42\<rparr>) = mc_ok elems A m" "mc_ok elems A (m\<lparr>controller_xid := x43\<rparr>) = mc_ok elems A m"
  "mc_ok elems A (m\<lparr>m_delete_counter := x44\<rparr>) = mc_ok elems A m"
  by (simp_all add: mc_ok_def)

text \<open>A sender may change when it still names an allocated connection.\<close>

lemma mc_ok_sender:
  assumes "mc_ok elems A m" "\<And>a. s_ssock_p sd = Some a \<Longrightarrow> a \<in> A"
  shows "mc_ok elems A (m\<lparr>sender_heap := (sender_heap m)[i := sd]\<rparr>)"
proof -
  have "s_ssock_p x = Some a \<longrightarrow> a \<in> A" if "x \<in> set ((sender_heap m)[i := sd])" for x a
    using set_update_subset_insert [of "sender_heap m" i sd] that assms by (auto simp: mc_ok_def)
  then show ?thesis using assms(1) by (simp add: mc_ok_def)
qed

lemma mc_ok_sock: "mc_ok elems A m \<Longrightarrow> i < length (sender_heap m) \<Longrightarrow> s_ssock_p (sender_heap m ! i) = Some a \<Longrightarrow> a \<in> A"
  by (auto simp: mc_ok_def)

text \<open>Steps that do not touch what the invariant is about, or only the contents of connections.\<close>

lemma send_wf_frame:
  assumes "send_wf elems g" and "dom (ssock_heap g') = dom (ssock_heap g)" "ssockList g' = ssockList g" "ringCmd g' = ringCmd g"
    "hashMulticast g' = hashMulticast g" "next_addr g \<le> next_addr g'"
  shows "send_wf elems g'"
  using assms(1,6) unfolding send_wf_def assms(2-5) by (meson less_le_trans)

lemma send_wf_queue:
  assumes "send_wf elems g" "ssock_heap g a = Some s0"
  shows "send_wf elems (g\<lparr>ssock_heap := (ssock_heap g)(a \<mapsto> s)\<rparr>)"
  by (rule send_wf_frame [OF assms(1)]) (use assms(2) in auto)

lemma send_wf_multicast:
  "send_wf elems g \<Longrightarrow> mc_ok elems (dom (ssock_heap g)) m \<Longrightarrow> send_wf elems (g\<lparr>hashMulticast := (hashMulticast g)(b \<mapsto> m)\<rparr>)"
  by (simp add: send_wf_def mcs_ok_upd)

subsection \<open>The operations\<close>

lemma processPatchTuple_keeps:
  "processPatchTuple Q now fs ring q ms = Some z \<Longrightarrow> mcs_ok elems A ms \<longrightarrow> safe (\<lambda>x. mcs_ok elems A (snd (snd x))) z"
proof (induction Q now fs ring q ms z rule: processPatchTuple.raw_induct [rotated, consumes 1, case_names step])
  case (step loop Q now fs ring q ms z)
  show ?case
  proof (intro impI)
    assume ms: "mcs_ok elems A ms"
    have upd: "mcs_ok elems A (ms(b \<mapsto> m\<lparr>m_fd_patch := p\<rparr>))" if "ms b = Some m" for b m p
      using mcs_ok_upd [OF ms] mcs_okD [OF ms that] mc_ok_same [of "m\<lparr>m_fd_patch := p\<rparr>" m elems A] by simp
    note z = step(2) and IH = step(1) [rule_format]
    show "safe (\<lambda>x. mcs_ok elems A (snd (snd x))) z"
    proof (cases "ring = [] \<or> APR_QUEUE_CAPACITY - 100 \<le> apr_queue_size Q q")
      case True
      then show ?thesis using z ms by auto
    next
      case False
      let ?e = "last ring"
      consider (stop) e where "z = Inl e" "e = NullDeref" | (go) m fl fd y where "ms (e_bcd_id ?e) = Some m"
        "patch_seqs Q now m fl q (unat (stt_seq (e_pt ?e) * m_byte_payload m)) (e_pt ?e) = Some y"
        "fs (m_bcd_filename m) = Some fl" "m_fd_patch m = Some fd"
        using z False by (auto simp: Let_def split: option.splits)
      then show ?thesis
      proof cases
        case stop
        then show ?thesis by simp
      next
        case go
        show ?thesis
        proof (cases y)
          case (Inl e)
          then show ?thesis using z False go patch_seqs_safe [OF go(2)] by (auto simp: Let_def)
        next
          case (Inr x)
          then show ?thesis using z False go upd [OF go(1)] IH by (auto simp: Let_def split: if_splits prod.splits)
        qed
      qed
    qed
  qed
qed

lemma createCmd_safe: "safe (\<lambda>c. cmd_sendQueue_p c = a) (createCmd a bid ty payload plen padding now)"
  unfolding createCmd_def by (rule safe_rbind [OF createMsgToken_safe]) simp

lemma scan_timeout_keeps:
  assumes "mc_ok elems A m" "cmd_sendQueue_p ` set ring \<subseteq> A"
  shows "safe (\<lambda>x. mc_ok elems A (fst x) \<and> cmd_sendQueue_p ` set (snd x) \<subseteq> A) (scan_timeout now ks m ring)"
  using assms
proof (induction ks arbitrary: m ring)
  case Nil
  then show ?case by simp
next
  case (Cons k ks)
  let ?P = "\<lambda>x. mc_ok elems A (fst x) \<and> cmd_sendQueue_p ` set (snd x) \<subseteq> A"
  have next_ok: "safe ?P (scan_timeout now ks (m\<lparr>sender_end_seq_arr_idx_start := sender_end_seq_arr_idx_start m + 1\<rparr>) r)"
    if "cmd_sendQueue_p ` set r \<subseteq> A" for r
    using Cons.IH [OF _ that] Cons.prems(1) mc_ok_same [of "m\<lparr>sender_end_seq_arr_idx_start := sender_end_seq_arr_idx_start m + 1\<rparr>" m elems A]
    by simp
  have cmd: "safe (\<lambda>r. cmd_sendQueue_p ` set r \<subseteq> A)
      (if has_all_done sd then Inr ring else deref (s_ssock_p sd) (\<lambda>a.
         rbind (createCmd a (s_bcd_id sd) MSG_FAST_DONE None 0 False now) (\<lambda>c. Inr (c # ring))))"
    if "\<And>a. s_ssock_p sd = Some a \<Longrightarrow> a \<in> A" for sd
    using Cons.prems(2) that by (auto intro!: safe_deref safe_rbind [OF createCmd_safe])
  show ?case
  proof (cases "k < length (sender_end_seq_arr_p m)")
    case False
    then show ?thesis by simp
  next
    case True
    then have i: "i < length (sender_heap m)" if "sender_end_seq_arr_p m ! k = Some i" for i
      using Cons.prems(1) that nth_mem [OF True] by (simp add: mc_ok_def)
    have "safe ?P (let sd = sender_heap m ! i
     in if tv_to_us (timersub now (tv_fast_done sd)) > FAST_DONE_TIMEOUT_MSEC * 1000 then
          rbind (if has_all_done sd then Inr ring
                 else deref (s_ssock_p sd) (\<lambda>a.
                   rbind (createCmd a (s_bcd_id sd) MSG_FAST_DONE None 0 False now) (\<lambda>c. Inr (c # ring))))
            (\<lambda>ring. scan_timeout now ks
               (m\<lparr>sender_end_seq_arr_idx_start := sender_end_seq_arr_idx_start m + 1\<rparr>) ring)
        else Inr (m, ring))" if "sender_end_seq_arr_p m ! k = Some i" for i
    proof (cases "tv_to_us (timersub now (tv_fast_done (sender_heap m ! i))) > FAST_DONE_TIMEOUT_MSEC * 1000")
      case True
      show ?thesis unfolding Let_def if_P [OF True]
        by (rule safe_rbind [OF cmd next_ok]) (rule mc_ok_sock [OF Cons.prems(1) i [OF that]])
    next
      case False
      show ?thesis unfolding Let_def if_not_P [OF False] using Cons.prems by simp
    qed
    then show ?thesis using True i by (auto intro!: safe_deref)
  qed
qed

lemma stamp_fields: "length (stamp now is sh) = length sh" "map s_ssock_p (stamp now is sh) = map s_ssock_p sh"
proof -
  have "length (stamp now is sh) = length sh \<and> map s_ssock_p (stamp now is sh) = map s_ssock_p sh"
  proof (induction "is" arbitrary: sh)
    case Nil
    then show ?case by (simp add: stamp_def)
  next
    case (Cons i js)
    let ?h = "sh[i := (sh ! i)\<lparr>tv_fast_done := now\<rparr>]"
    have "map s_ssock_p ?h = map s_ssock_p sh"
      by (cases "i < length sh") (simp_all add: map_update list_update_same_conv list_update_beyond)
    then show ?case using Cons [of ?h] by (simp add: stamp_def)
  qed
  then show "length (stamp now is sh) = length sh" "map s_ssock_p (stamp now is sh) = map s_ssock_p sh" by simp_all
qed

lemma scan_pop_keeps:
  assumes S: "skiplist S elems" and ok: "mc_ok elems A m"
  shows "osafe (mc_ok elems A) (scan_pop S now m)"
proof -
  let ?es = "elems (sender_end_seq_pq_p m)" and ?k = "sender_end_seq_arr_idx_end m" and ?arr = "sender_end_seq_arr_p m"
  define ready where "ready = takeWhile (ready_to_end m) ?es"
  have r: "\<forall>i \<in> set ready. i < length (sender_heap m)"
    using ok set_takeWhileD [of _ "ready_to_end m" ?es] by (auto simp: mc_ok_def ready_def)
  have b: "\<forall>i \<in> set ?es. i < length (sender_heap m)" using ok by (simp add: mc_ok_def)
  have good: "mc_ok elems A m'"
    if "sender_heap m' = stamp now ready (sender_heap m)" "elems (sender_end_seq_pq_p m') = drop (length ready) ?es"
      "set (sender_end_seq_arr_p m') \<subseteq> set ?arr \<union> Some ` set ready" "sender_addr_hash_p m' = sender_addr_hash_p m" for m'
  proof -
    have "\<forall>i. Some i \<in> set (sender_end_seq_arr_p m') \<longrightarrow> i < length (sender_heap m)"
      using ok r that(3) by (auto simp: mc_ok_def)
    moreover have "\<forall>i \<in> set (elems (sender_end_seq_pq_p m')). i < length (sender_heap m)"
      using b that(2) by (auto dest: in_set_dropD)
    moreover have "\<forall>sd \<in> set (stamp now ready (sender_heap m)). \<forall>a. s_ssock_p sd = Some a \<longrightarrow> a \<in> A"
    proof -
      have "s_ssock_p ` set (stamp now ready (sender_heap m)) = s_ssock_p ` set (sender_heap m)"
        using stamp_fields(2) [of now ready "sender_heap m"] by (metis set_map)
      then show ?thesis using ok by (auto simp: mc_ok_def) (metis image_iff)
    qed
    ultimately show ?thesis using ok that(1,4) by (simp add: mc_ok_def stamp_fields(1))
  qed
  show ?thesis
    using scan_pop_spec [OF S b, of now] unfolding Let_def ready_def [symmetric]
    by (auto split: if_splits intro!: good dest!: subsetD [OF set_take_subset] subsetD [OF set_drop_subset])
qed

text \<open>The state of a pass: the invariant, and connections that were allocated stay allocated.\<close>

definition pass_ok :: "('s \<Rightarrow> nat list) \<Rightarrow> nat set \<Rightarrow> ('q, 's, 'u) agent \<Rightarrow> bool" where
  "pass_ok elems A g \<longleftrightarrow> send_wf elems g \<and> A \<subseteq> dom (ssock_heap g)"

lemma pass_ok_sock: "pass_ok elems A g \<Longrightarrow> a \<in> A \<Longrightarrow> \<exists>s. ssock_heap g a = Some s"
  by (auto simp: pass_ok_def)

lemma pass_ok_queue:
  "pass_ok elems A g \<Longrightarrow> ssock_heap g a = Some s0 \<Longrightarrow> pass_ok elems A (g\<lparr>ssock_heap := (ssock_heap g)(a \<mapsto> s)\<rparr>)"
  by (auto simp: pass_ok_def send_wf_queue)

lemma pass_ok_mc: "pass_ok elems A g \<Longrightarrow> hashMulticast g b = Some m \<Longrightarrow> mc_ok elems (dom (ssock_heap g)) m"
  by (auto simp: pass_ok_def send_wf_def dest: mcs_okD)

lemma pass_ok_multicast:
  "pass_ok elems A g \<Longrightarrow> mc_ok elems (dom (ssock_heap g)) m \<Longrightarrow> pass_ok elems A (g\<lparr>hashMulticast := (hashMulticast g)(b \<mapsto> m)\<rparr>)"
  by (auto simp: pass_ok_def send_wf_multicast)

lemma pass_ok_multicast_pipe:
  assumes "pass_ok elems A g" "mc_ok elems (dom (ssock_heap g)) m"
  shows "pass_ok elems A (g\<lparr>hashMulticast := (hashMulticast g)(b \<mapsto> m), pipe_c_send2i := p\<rparr>)"
proof -
  have "send_wf elems (g\<lparr>hashMulticast := (hashMulticast g)(b \<mapsto> m)\<rparr>)"
    using assms by (simp add: pass_ok_def send_wf_multicast)
  then have "send_wf elems (g\<lparr>hashMulticast := (hashMulticast g)(b \<mapsto> m), pipe_c_send2i := p\<rparr>)"
    by (rule send_wf_frame) simp_all
  then show ?thesis using assms(1) by (simp add: pass_ok_def)
qed

lemma pass_ok_multicast_queue:
  assumes "pass_ok elems A g" "mc_ok elems (dom (ssock_heap g)) m" "ssock_heap g a = Some s0"
  shows "pass_ok elems A (g\<lparr>hashMulticast := (hashMulticast g)(b \<mapsto> m), ssock_heap := (ssock_heap g)(a \<mapsto> s)\<rparr>)"
  using pass_ok_queue [OF pass_ok_multicast [OF assms(1,2), of b], of a s0 s] assms(3) by simp

lemma scan_multicast_keeps:
  assumes S: "skiplist S elems" and ok: "pass_ok elems A g"
  shows "osafe (pass_ok elems A) (scan_multicast S now b g)"
proof (cases "hashMulticast g b")
  case None
  then show ?thesis using ok by (simp add: scan_multicast_def)
next
  case (Some m)
  let ?D = "dom (ssock_heap g)"
  have fin: "pass_ok elems A (g\<lparr>hashMulticast := (hashMulticast g)(b \<mapsto> m'), ringCmd := ring\<rparr>)"
    if "mc_ok elems ?D m'" "cmd_sendQueue_p ` set ring \<subseteq> ?D" for m' ring
    using ok that by (simp add: pass_ok_def send_wf_def mcs_ok_upd)
  have ring: "cmd_sendQueue_p ` set (ringCmd g) \<subseteq> ?D" using ok by (simp add: pass_ok_def send_wf_def)
  have "osafe (pass_ok elems A) (ro_bind (Some (if bcd_state m1 = BCDSTATE_DEAD
        then scan_timeout now [sender_end_seq_arr_idx_start m1..<sender_end_seq_arr_idx_end m1] m1 (ringCmd g)
        else Inr (m1, ringCmd g)))
      (\<lambda>(m, ring). Some (Inr (g\<lparr>hashMulticast := (hashMulticast g)(b \<mapsto> m), ringCmd := ring\<rparr>))))"
    if m1: "mc_ok elems ?D m1" for m1
    by (rule osafe_bind [where P = "\<lambda>x. mc_ok elems ?D (fst x) \<and> cmd_sendQueue_p ` set (snd x) \<subseteq> ?D"])
      (use m1 ring fin scan_timeout_keeps [OF m1 ring] in auto)
  then show ?thesis
    unfolding scan_multicast_def Some option.case
    by (rule osafe_bind [OF scan_pop_keeps [OF S pass_ok_mc [OF ok Some]]])
qed

lemma process_cmds_keeps:
  "pass_ok elems A g \<Longrightarrow> cmd_sendQueue_p ` set ring \<subseteq> dom (ssock_heap g) \<Longrightarrow> safe (pass_ok elems A) (process_cmds Q ring g)"
proof (induction ring arbitrary: g rule: rev_induct)
  case Nil
  then show ?case by (simp add: process_cmds.simps pass_ok_def send_wf_def)
next
  case (snoc c ring)
  obtain s where s: "ssock_heap g (cmd_sendQueue_p c) = Some s" using snoc.prems(2) by auto
  obtain q st where q: "apr_queue_trypush Q (ss_sendQueue_p s) (cmd_mt_p c) = (q, st)" by force
  let ?g = "g\<lparr>ssock_heap := (ssock_heap g)(cmd_sendQueue_p c \<mapsto> s\<lparr>ss_sendQueue_p := q\<rparr>)\<rparr>"
  have g: "pass_ok elems A ?g" by (rule pass_ok_queue [OF snoc.prems(1) s])
  have d: "cmd_sendQueue_p ` set (ring @ [c]) \<subseteq> dom (ssock_heap ?g)" using snoc.prems(2) by auto
  have "pass_ok elems A (?g\<lparr>ringCmd := ring @ [c]\<rparr>)" using g d by (simp add: pass_ok_def send_wf_def)
  moreover have "safe (pass_ok elems A) (process_cmds Q ring ?g)" by (rule snoc.IH [OF g]) (use d in auto)
  ultimately show ?case by (subst process_cmds.simps) (simp add: s q Let_def)
qed

lemma send_select_keeps:
  assumes ok: "pass_ok elems A g" and a: "a \<in> A"
  shows "osafe (\<lambda>x. pass_ok elems A (fst x)) (send_select Q now a (g, ws))"
proof -
  obtain s where s: "ssock_heap g a = Some s" using pass_ok_sock [OF ok a] by blast
  let ?D = "dom (ssock_heap g)"
  have ms: "mcs_ok elems ?D (hashMulticast g)" using ok by (simp add: pass_ok_def send_wf_def)
  have pt: "osafe (\<lambda>x. mcs_ok elems ?D (snd (snd x)))
      (processPatchTuple Q now (files g) (ringPatchTuple s) (ss_sendQueue_p s) (hashMulticast g))"
    using processPatchTuple_keeps [of Q now "files g" "ringPatchTuple s" "ss_sendQueue_p s" "hashMulticast g" _ elems ?D] ms
    by (cases "processPatchTuple Q now (files g) (ringPatchTuple s) (ss_sendQueue_p s) (hashMulticast g)") auto
  have fin: "pass_ok elems A (g\<lparr>ssock_heap := (ssock_heap g)(a \<mapsto> s'), hashMulticast := ms'\<rparr>)" if "mcs_ok elems ?D ms'" for s' ms'
  proof -
    have "dom ((ssock_heap g)(a \<mapsto> s')) = ?D" using s by auto
    then show ?thesis using ok that unfolding pass_ok_def send_wf_def by (simp del: dom_fun_upd)
  qed
  show ?thesis unfolding send_select_def prod.case s option.case
    by (rule osafe_bind [OF pt]) (auto intro: fin)
qed

lemma send_accept_keeps:
  assumes "pass_ok elems A g"
  shows "safe (pass_ok elems A) (send_accept Q e g)"
proof (cases "io_accept e")
  case None
  then show ?thesis using assms by (simp add: send_accept_def)
next
  case (Some o1)
  show ?thesis
  proof (cases o1)
    case None
    then show ?thesis using Some by (simp add: send_accept_def)
  next
    case 2: (Some x)
    obtain sock addr where x: "x = (sock, addr)" by force
    let ?a = "next_addr g" and ?D = "dom (ssock_heap g)"
    have new: "?a \<notin> ?D" using assms by (auto simp: pass_ok_def send_wf_def)
    then have "?a \<notin> set (ssockList g)" using assms by (auto simp: pass_ok_def send_wf_def)
    moreover have "mcs_ok elems (insert ?a ?D) (hashMulticast g)"
      using assms mcs_ok_mono [of elems ?D "hashMulticast g" "insert ?a ?D"] by (auto simp: pass_ok_def send_wf_def)
    ultimately show ?thesis
      using assms by (auto simp: send_accept_def Some 2 x Let_def pass_ok_def send_wf_def less_Suc_eq)
  qed
qed

lemma send_pull_keeps:
  assumes ok: "pass_ok elems A g" and a: "a \<in> A"
  shows "osafe (pass_ok elems A) (send_pull Q now a bid sp g)"
proof -
  obtain s where s: "ssock_heap g a = Some s" using pass_ok_sock [OF ok a] by blast
  show ?thesis
    unfolding send_pull_def s option.case
    by (cases sp) (auto simp: ok intro!: osafe_bind [OF insertMsg2SendQ_safe] pass_ok_queue [OF ok s])
qed

lemma updateSeqEnd_keeps:
  assumes S: "skiplist S elems" and ok: "mc_ok elems A m" and i: "i < length (sender_heap m)"
  shows "safe (mc_ok elems A) (updateSeqEnd S m i)"
proof -
  let ?e = "seq_end_for (seq_cur m) (m_seq_max m) (msf (sender_heap m ! i))"
  define m1 where "m1 = m\<lparr>sender_heap := (sender_heap m)[i := (sender_heap m ! i)\<lparr>seqEnd := ?e\<rparr>]\<rparr>"
  define m2 where "m2 = (case sk_insert S i (sender_end_seq_pq_p m1) of None \<Rightarrow> m1 | Some pq \<Rightarrow> m1\<lparr>sender_end_seq_pq_p := pq\<rparr>)"
  have m1: "mc_ok elems A m1" if "i < length (sender_heap m)"
    unfolding m1_def by (rule mc_ok_sender [OF ok]) (use mc_ok_sock [OF ok that] in simp)
  have m2: "mc_ok elems A m2" if i: "i < length (sender_heap m)"
  proof -
    obtain pq xs ys where pq: "sk_insert S i (sender_end_seq_pq_p m1) = Some pq" "elems (sender_end_seq_pq_p m1) = xs @ ys"
      "elems pq = xs @ i # ys" using skiplist.insert_law [OF S] by blast
    have "length (sender_heap m1) = length (sender_heap m)" by (simp add: m1_def)
    then show ?thesis using m1 [OF i] i pq by (auto simp: m2_def mc_ok_def)
  qed
  show ?thesis
    unfolding updateSeqEnd_def Let_def m1_def [symmetric] m2_def [symmetric]
    using m2 i by (auto simp: mc_ok_def)
qed

lemma first_seq_keeps:
  assumes S: "skiplist S elems" and ok: "mc_ok elems A m" and a: "a \<in> A" and il: "i < length (sender_heap m)"
  shows "safe (\<lambda>x. mc_ok elems A (fst x)) (first_seq S now a f i m)"
proof -
  define sd where "sd = (sender_heap m ! i)\<lparr>msf := f, s_ssock_p := (case s_ssock_p (sender_heap m ! i) of None \<Rightarrow> Some a | Some b \<Rightarrow> Some b)\<rparr>"
  define m1 where "m1 = first_seq_marks now sd (m\<lparr>sender_heap := (sender_heap m)[i := sd]\<rparr>)"
  obtain m2 fin where m2: "first_seq_single now sd m1 = (m2, fin)" by force
  have "mc_ok elems A (m\<lparr>sender_heap := (sender_heap m)[i := sd]\<rparr>)"
    by (rule mc_ok_sender [OF ok]) (use a mc_ok_sock [OF ok il] in \<open>auto simp: sd_def split: option.splits\<close>)
  then have "mc_ok elems A m1" unfolding m1_def by (simp add: first_seq_marks_def Let_def mc_ok_def)
  then have m3: "mc_ok elems A (m2\<lparr>n_first_seq := n_first_seq m2 + 1\<rparr>)"
    using m2 by (auto simp: first_seq_single_def mark_all_done_rack_def Let_def mc_ok_def split: if_splits)
  have "length (sender_heap m1) = length (sender_heap m)" by (simp add: m1_def first_seq_marks_def Let_def)
  moreover have "sender_heap m2 = sender_heap m1"
    using m2 by (auto simp: first_seq_single_def mark_all_done_rack_def Let_def split: if_splits)
  ultimately have len: "i < length (sender_heap (m2\<lparr>n_first_seq := n_first_seq m2 + 1\<rparr>))" using il by simp
  show ?thesis
    using il unfolding first_seq_def Let_def sd_def [symmetric] m1_def [symmetric] m2 prod.case
    by (auto intro: safe_rbind [OF updateSeqEnd_keeps [OF S m3 len]])
qed

lemma all_done_keeps:
  assumes ok: "mc_ok elems A m" and il: "i < length (sender_heap m)"
  shows "safe (\<lambda>x. mc_ok elems A (fst x)) (all_done now i m)"
proof -
  have "mc_ok elems A (m\<lparr>sender_heap := (sender_heap m)[i := (sender_heap m ! i)\<lparr>has_all_done := True\<rparr>]\<rparr>)"
    by (rule mc_ok_sender [OF ok]) (use mc_ok_sock [OF ok il] in simp)
  then show ?thesis
    using il by (auto simp: all_done_def mark_all_done_rack_def Let_def mc_ok_def intro!: safe_assert)
qed

lemma patch_req_keeps:
  assumes "mc_ok elems A m" "i < length (sender_heap m)"
  shows "safe (\<lambda>x. mc_ok elems A (fst x)) (patch_req now bid pt i m ring)"
  using assms by (auto simp: patch_req_def Let_def mc_ok_def split: prod.split)

lemma send_msg_keeps:
  assumes S: "skiplist S elems" and ok: "pass_ok elems A g" and a: "a \<in> A"
  shows "osafe (\<lambda>x. pass_ok elems A (snd x)) (send_msg Q S now a hdr buf g)"
proof (cases "hashMulticast g (mh_bcd_id hdr)")
  case None
  then show ?thesis using ok by (simp add: send_msg_def Let_def)
next
  case m: (Some m)
  obtain s where s: "ssock_heap g a = Some s" using pass_ok_sock [OF ok a] by blast
  let ?D = "dom (ssock_heap g)" and ?bid = "mh_bcd_id hdr" and ?sp = "sender_addr_hash_p m (ss_client_addr s)"
  have mc: "mc_ok elems ?D m" and aD: "a \<in> ?D" using pass_ok_mc [OF ok m] s by auto
  then have sp: "the ?sp < length (sender_heap m)" if "?sp \<noteq> None" using that by (auto simp: mc_ok_def)
  have tell: "osafe (pass_ok elems A) (Some (map_sum id (\<lambda>(m, fin). g\<lparr>hashMulticast := (hashMulticast g)(?bid \<mapsto> m),
      pipe_c_send2i := pipe_c_send2i g @ (if fin then pipe_msg now (m_bcd_id m) MSG_C_SEND2I_SEQ_ALL [] else [])\<rparr>) r))"
    if "safe (\<lambda>x. mc_ok elems ?D (fst x)) r" for r
    using that by (cases r) (auto intro: pass_ok_multicast_pipe [OF ok])
  have patch: "osafe (pass_ok elems A) (Some (map_sum id (\<lambda>(m, ring). g\<lparr>hashMulticast := (hashMulticast g)(?bid \<mapsto> m),
      ssock_heap := (ssock_heap g)(a \<mapsto> s\<lparr>ringPatchTuple := ring\<rparr>)\<rparr>) r))"
    if "safe (\<lambda>x. mc_ok elems ?D (fst x)) r" for r
    using that by (cases r) (auto intro: pass_ok_multicast_queue [OF ok _ s])
  show ?thesis
    unfolding send_msg_def Let_def m s option.case
    by (rule osafe_bind [where P = "pass_ok elems A"],
        intro osafe_if osafe_assert tell patch send_pull_keeps [OF ok a] first_seq_keeps [OF S mc aD sp] all_done_keeps [OF mc sp]
          patch_req_keeps [OF mc sp]) (simp_all add: ok)
qed

lemma store_rbuf_keeps:
  assumes "pass_ok elems A (snd y)" "a \<in> A"
  shows "osafe (\<lambda>x. pass_ok elems A (snd x)) ((\<lambda>(r, g). case ssock_heap g a of None \<Rightarrow> Some (Inl UseAfterFree)
     | Some s \<Rightarrow> Some (Inr (False, g\<lparr>ssock_heap := (ssock_heap g)(a \<mapsto> s\<lparr>ss_rbuf := r\<rparr>)\<rparr>))) y)"
proof -
  obtain r g where y: "y = (r, g)" by force
  then obtain s where "ssock_heap g a = Some s" using pass_ok_sock [of elems A g a] assms by auto
  then show ?thesis using y assms(1) by (auto intro: pass_ok_queue)
qed

lemma send_receive_keeps:
  assumes S: "skiplist S elems" and ok: "pass_ok elems A g" and a: "a \<in> A"
  shows "osafe (\<lambda>x. pass_ok elems A (snd x)) (send_receive Q S now a res g)"
proof -
  obtain s where s: "ssock_heap g a = Some s" using pass_ok_sock [OF ok a] by blast
  have fl: "osafe (\<lambda>x. pass_ok elems A (snd x))
      (frame_loop ready_ssock (\<lambda>r. send_msg Q S now a (mh r) (recv_buf r)) (frame_read (ss_rbuf s) c) g)" for c
    by (rule osafe_frame_loop [OF _ send_msg_keeps [OF S _ a] ok]) simp
  have got: "osafe (\<lambda>x. pass_ok elems A (snd x))
     (ro_bind (frame_loop ready_ssock (\<lambda>r. send_msg Q S now a (mh r) (recv_buf r)) (frame_read (ss_rbuf s) c) g)
       (\<lambda>(r, g). case ssock_heap g a of None \<Rightarrow> Some (Inl UseAfterFree)
          | Some s \<Rightarrow> Some (Inr (False, g\<lparr>ssock_heap := (ssock_heap g)(a \<mapsto> s\<lparr>ss_rbuf := r\<rparr>)\<rparr>))))" for c
    by (rule osafe_bind [OF fl store_rbuf_keeps [OF _ a]])
  have closed: "pass_ok elems A (g\<lparr>ssockList := remove1 a (ssockList g)\<rparr>)"
    using ok set_remove1_subset [of a "ssockList g"] by (auto simp: pass_ok_def send_wf_def)
  show ?thesis
    unfolding send_receive_def s option.case using got closed ok by (auto split: recv_result.split)
qed

lemma send_socket_keeps:
  assumes S: "skiplist S elems" and ok: "pass_ok elems A (snd x)" and a: "a \<in> A"
  shows "osafe (\<lambda>x. pass_ok elems A (snd x)) (send_socket Q S e ws a x)"
proof -
  obtain b g where x: "x = (b, g)" by force
  have g: "pass_ok elems A g" using ok x by simp
  obtain s where s: "ssock_heap g a = Some s" using pass_ok_sock [OF g a] by blast
  have sent: "osafe (pass_ok elems A) (if ss_socket s \<in> ws \<and> ss_socket s \<in> io_wr e
           then ro_bind (sendMsg Q (io_send e (ss_socket s)) 0 (ss_sendQueue_p s) (ss_remainMsgToken_p s) [])
                  (\<lambda>(q, tok, _). Some (Inr (g\<lparr>ssock_heap := (ssock_heap g)
                     (a \<mapsto> s\<lparr>ss_sendQueue_p := q, ss_remainMsgToken_p := tok\<rparr>)\<rparr>)))
           else Some (Inr g))"
    using g by (auto intro!: osafe_bind [OF sendMsg_safe] pass_ok_queue [OF g s])
  have rest: "osafe (\<lambda>x. pass_ok elems A (snd x)) (case io_rd e (ss_socket s) of None \<Rightarrow> Some (Inr (False, g))
             | Some res \<Rightarrow> send_receive Q S (io_now e) a res g)" if "pass_ok elems A g" for g
    using that send_receive_keeps [OF S that a] by (auto split: option.split)
  show ?thesis
  proof (cases b)
    case True
    then show ?thesis using g by (simp add: send_socket_def x)
  next
    case False
    then show ?thesis
      unfolding send_socket_def x prod.case s option.case if_False by (simp only: if_False) (rule osafe_bind [OF sent rest])
  qed
qed

text \<open>The part of the pass after the commands.\<close>

definition send_sockets :: "'q queue_ops \<Rightarrow> ('s, nat) skiplist_ops \<Rightarrow> io_env \<Rightarrow> ('q, 's, 'u) agent \<times> int set
    \<Rightarrow> ('q, 's, 'u) agent res option" where
  "send_sockets Q S e x = (case x of (g, ws) \<Rightarrow> (case io_select e of TimedOut \<Rightarrow> Some (Inr g)
       | SelectFailed ign \<Rightarrow> if ign then Some (Inr g) else Some (Inl Aborted)
       | ReadyFds \<Rightarrow> ro_bind (Some (send_accept Q e g)) (\<lambda>g.
           ro_bind (ro_fold (send_socket Q S e ws) (ssockList g) (False, g)) (\<lambda>(_, g). Some (Inr g)))))"

lemma pass_ok_all: "pass_ok elems A g \<Longrightarrow> pass_ok elems (dom (ssock_heap g)) g \<and> set (ssockList g) \<subseteq> dom (ssock_heap g)"
  by (simp add: pass_ok_def send_wf_def)

lemma pass_ok_sub: "pass_ok elems B g \<Longrightarrow> A \<subseteq> B \<Longrightarrow> pass_ok elems A g"
  by (auto simp: pass_ok_def)

lemma send_sockets_keeps:
  assumes S: "skiplist S elems" and ok: "pass_ok elems A (fst x)"
  shows "osafe (pass_ok elems A) (send_sockets Q S e x)"
proof -
  obtain g ws where x: "x = (g, ws)" by force
  have walk: "osafe (pass_ok elems A) (ro_bind (ro_fold (send_socket Q S e ws) (ssockList g) (False, g)) (\<lambda>(_, g). Some (Inr g)))"
    if g: "pass_ok elems A g" for g
  proof -
    let ?B = "dom (ssock_heap g)"
    have B: "pass_ok elems ?B g" "set (ssockList g) \<subseteq> ?B" "A \<subseteq> ?B" using pass_ok_all [OF g] g by (auto simp: pass_ok_def)
    have "osafe (\<lambda>x. pass_ok elems ?B (snd x)) (ro_fold (send_socket Q S e ws) (ssockList g) (False, g))"
      by (rule osafe_fold, rule send_socket_keeps [OF S]) (use B(1,2) in auto)
    then show ?thesis by (rule osafe_bind) (auto intro: pass_ok_sub [OF _ B(3)])
  qed
  show ?thesis
    using send_accept_keeps [of elems A g Q e] ok walk
    by (auto simp: send_sockets_def x split: select_result.split intro!: osafe_bind [where P = "pass_ok elems A"])
qed

lemma send_walk_keeps:
  assumes ok: "pass_ok elems A g"
  shows "osafe (\<lambda>x. pass_ok elems A (fst x)) (ro_fold (send_select Q now) (ssockList g) (g, {}))"
proof -
  let ?B = "dom (ssock_heap g)"
  have B: "pass_ok elems ?B g" "set (ssockList g) \<subseteq> ?B" "A \<subseteq> ?B" using pass_ok_all [OF ok] ok by (auto simp: pass_ok_def)
  have st: "osafe (\<lambda>x. pass_ok elems ?B (fst x)) (send_select Q now a x)" if "a \<in> set (ssockList g)" "pass_ok elems ?B (fst x)" for a x
    using send_select_keeps [of elems ?B "fst x" a Q now "snd x"] that B(2) by auto
  have "osafe (\<lambda>x. pass_ok elems ?B (fst x)) (ro_fold (send_select Q now) (ssockList g) (g, {}))"
    by (rule osafe_fold [OF st]) (use B in auto)
  then show ?thesis by (rule ores_in_mono) (auto intro: pass_ok_sub [OF _ B(3)])
qed

lemma send_pass_keeps:
  assumes S: "skiplist S elems" and ok: "send_wf elems g"
  shows "osafe (pass_ok elems (dom (ssock_heap g))) (thread_sendSocket Q S order e g)"
proof -
  let ?A = "dom (ssock_heap g)"
  have scan: "osafe (pass_ok elems ?A) (ro_fold (scan_multicast S (io_now e)) order g)"
    by (rule osafe_fold [OF scan_multicast_keeps [OF S]]) (use ok in \<open>simp_all add: pass_ok_def\<close>)
  have cmds: "osafe (pass_ok elems ?A) (Some (process_cmds Q (ringCmd g) g))" if "pass_ok elems ?A g" for g
    using process_cmds_keeps [OF that, of "ringCmd g" Q] that by (simp add: pass_ok_def send_wf_def)
  show ?thesis
    unfolding thread_sendSocket_def send_sockets_def [symmetric, unfolded split_def]
    by (rule osafe_bind [OF scan osafe_bind [OF cmds osafe_bind [OF send_walk_keeps]]])
      (use send_sockets_keeps [OF S, of ?A _ Q e] in \<open>auto simp: send_sockets_def\<close>)
qed

subsection \<open>The other threads\<close>

text \<open>What the invariant does not look at.\<close>

lemma send_wf_irrelevant [simp]:
  "send_wf elems (g\<lparr>hashRecver := x1\<rparr>) = send_wf elems g" "send_wf elems (g\<lparr>hashApp := x2\<rparr>) = send_wf elems g"
  "send_wf elems (g\<lparr>app_heap := x3\<rparr>) = send_wf elems g" "send_wf elems (g\<lparr>fds_heap := x4\<rparr>) = send_wf elems g"
  "send_wf elems (g\<lparr>lsockList := x5\<rparr>) = send_wf elems g" "send_wf elems (g\<lparr>rsockList := x6\<rparr>) = send_wf elems g"
  "send_wf elems (g\<lparr>queuePush_p := x7\<rparr>) = send_wf elems g" "send_wf elems (g\<lparr>activeMulticast_p := x8\<rparr>) = send_wf elems g"
  "send_wf elems (g\<lparr>localSocketID := x9\<rparr>) = send_wf elems g" "send_wf elems (g\<lparr>sv_app_p2 := x10\<rparr>) = send_wf elems g"
  "send_wf elems (g\<lparr>files := x11\<rparr>) = send_wf elems g" "send_wf elems (g\<lparr>dirs := x12\<rparr>) = send_wf elems g"
  "send_wf elems (g\<lparr>pipe_n2c := x13\<rparr>) = send_wf elems g" "send_wf elems (g\<lparr>pipe_c2i := x14\<rparr>) = send_wf elems g"
  "send_wf elems (g\<lparr>pipe_c_send2i := x15\<rparr>) = send_wf elems g" "send_wf elems (g\<lparr>pipe_i2c := x16\<rparr>) = send_wf elems g"
  "send_wf elems (g\<lparr>need_release_path := x17\<rparr>) = send_wf elems g" "send_wf elems (g\<lparr>am_txring_head := x18\<rparr>) = send_wf elems g"
  "send_wf elems (g\<lparr>am_txring_tail_last := x19\<rparr>) = send_wf elems g"
  by (simp_all add: send_wf_def)

lemma send_wf_next: "send_wf elems g \<Longrightarrow> send_wf elems (g\<lparr>next_addr := Suc (next_addr g)\<rparr>)"
  by (auto simp: send_wf_def less_Suc_eq)

lemma send_wf_mc: "send_wf elems g \<Longrightarrow> hashMulticast g b = Some m \<Longrightarrow> mc_ok elems (dom (ssock_heap g)) m"
  by (auto simp: send_wf_def dest: mcs_okD)

end
