(* ===== verification/System.thy ===== *)
theory System
  imports Safety ServiceThread Startup
begin

text \<open>
  The agent as a whole: the passes of its four threads in any order, and that no thread makes a pointer of the sending thread
  to a connection or a sender dangle.
\<close>

subsection \<open>The receiving thread\<close>

lemma frame_loop_keeps:
  assumes "frame_loop ready handle r g = Some (Inr (r', g'))" "I g"
    and "\<And>r g g' d. I g \<Longrightarrow> handle r g = Some (Inr (d, g')) \<Longrightarrow> I g'"
  shows "I g'"
proof -
  have "okeeps (\<lambda>x. I (snd x)) (handle r g)" if "I g" for r g
    using assms(3) [OF that] by (cases "handle r g") (auto simp: res_in_def split: sum.split)
  then have "okeeps (\<lambda>x. I (snd x)) (frame_loop ready handle r g)" using assms(2) by (intro osafe_frame_loop) simp_all
  then show ?thesis using assms(1) by simp
qed

lemma fds_send_keeps: "fds_send Q now a bid ty payload g = Some (Inr g') \<Longrightarrow> send_wf elems g \<Longrightarrow> send_wf elems g'"
  by (auto simp: fds_send_def ro_iffs split: option.splits if_splits)

lemma put_file_keeps [simp]: "send_wf elems (put_file fn bs g) = send_wf elems g"
  by (simp add: put_file_def)

lemma tell_service_keeps [simp]: "send_wf elems (tell_service now bid ty g) = send_wf elems g"
  by (simp add: tell_service_def)

lemma take_pipe_keeps [simp]: "send_wf elems (take_pipe ty n g) = send_wf elems g"
  by (simp add: take_pipe_def split: FdType.split)

lemma alloc_keeps: "send_wf elems g \<Longrightarrow> send_wf elems (g\<lparr>fds_heap := h, next_addr := Suc (next_addr g)\<rparr>)"
  by (auto simp: send_wf_def less_Suc_eq)

lemma app_alloc_keeps: "send_wf elems g \<Longrightarrow> send_wf elems (g\<lparr>app_heap := h, next_addr := Suc (next_addr g)\<rparr>)"
  by (auto simp: send_wf_def less_Suc_eq)

lemma connect_master_keeps: "connect_master Q conn cf ip g = Inr (b, g') \<Longrightarrow> send_wf elems g \<Longrightarrow> send_wf elems g'"
  by (auto simp: connect_master_def rbind_Inr_iff Let_def split: option.splits intro: alloc_keeps)

lemma recv_patch_data_keeps: "recv_patch_data Q now bid buf g = Some (Inr g') \<Longrightarrow> send_wf elems g \<Longrightarrow> send_wf elems g'"
  by (auto simp: recv_patch_data_def ro_iffs Let_def split: if_splits dest!: fds_send_keeps)

lemma recv_fast_done_keeps: "recv_fast_done Q now a bid g = Some (Inr g') \<Longrightarrow> send_wf elems g \<Longrightarrow> send_wf elems g'"
  by (auto simp: recv_fast_done_def ro_iffs Let_def split: if_splits option.splits dest!: fds_send_keeps)

lemma recv_pull_keeps: "recv_pull Q conn cf now bid buf g = Some (Inr g') \<Longrightarrow> send_wf elems g \<Longrightarrow> send_wf elems g'"
  by (auto simp: recv_pull_def ro_iffs Let_def dest!: fds_send_keeps connect_master_keeps)

lemma recv_n2c_keeps: "recv_n2c Q cf now hdr buf g = Some (Inr g') \<Longrightarrow> send_wf elems g \<Longrightarrow> send_wf elems g'"
  by (auto simp: recv_n2c_def recv_conn_def ro_iffs Let_def split: if_splits dest!: fds_send_keeps)

lemma recv_msg_keeps: "recv_msg Q conn cf now a ty hdr buf g = Some (Inr g') \<Longrightarrow> send_wf elems g \<Longrightarrow> send_wf elems g'"
  by (auto simp: recv_msg_def split: FdType.splits if_splits
      dest: recv_patch_data_keeps recv_fast_done_keeps recv_pull_keeps recv_n2c_keeps)

lemma recv_receive_keeps: "recv_receive Q conn cf now a res g = Some (Inr y) \<Longrightarrow> send_wf elems g \<Longrightarrow> send_wf elems (snd y)"
  by (auto simp: recv_receive_def ro_iffs recv_handle_def split: option.splits recv_result.splits sock_state.splits
      dest!: recv_msg_keeps elim!: frame_loop_keeps [where I = "send_wf elems"])

lemma recv_socket_keeps:
  "recv_socket Q conn cf e ws a x = Some (Inr y) \<Longrightarrow> send_wf elems (snd x) \<Longrightarrow> send_wf elems (snd y)"
  by (auto simp: recv_socket_def ro_iffs split: prod.splits if_splits option.splits dest!: recv_receive_keeps)

lemma recv_pass_keeps: "thread_recvSocket Q conn cf e g = Some (Inr g') \<Longrightarrow> send_wf elems g \<Longrightarrow> send_wf elems g'"
  by (auto simp: thread_recvSocket_def ro_iffs Let_def split: select_result.splits if_splits
      dest!: ro_fold_invariant [where I = "\<lambda>x. send_wf elems (snd x)", rotated 2, OF _ recv_socket_keeps])

subsection \<open>The service thread\<close>

lemma release_path_keeps: "release_path cf now g = Inr g' \<Longrightarrow> send_wf elems g \<Longrightarrow> send_wf elems g'"
  by (auto simp: release_path_def deref_Inr_iff split: option.splits if_splits intro!: send_wf_multicast)
    (erule send_wf_mc, assumption)+

lemma push_reply_keeps:
  "send_wf elems g \<Longrightarrow> mc_ok elems (dom (ssock_heap g)) m \<Longrightarrow> send_wf elems (push_reply U now cmd b m g)"
  by (cases cmd) (simp_all add: push_reply_def send_wf_multicast)

lemma request_path_keeps: "request_path U cf now reply g = Inr g' \<Longrightarrow> send_wf elems g \<Longrightarrow> send_wf elems g'"
  by (auto simp: request_path_def deref_Inr_iff Let_def split: option.splits if_splits prod.splits
      intro!: push_reply_keeps)
    (erule send_wf_mc, assumption)+

lemma set_lsock_keeps [simp]: "send_wf elems (set_lsock a ls g) = send_wf elems g"
  by (simp add: set_lsock_def)

lemma svc_read_keeps: "svc_read Q cf now a ls bid g = Some (Inr g') \<Longrightarrow> send_wf elems g \<Longrightarrow> send_wf elems g'"
  by (auto simp: svc_read_def ro_iffs Let_def split: option.splits if_splits dest!: fds_send_keeps)

lemma svc_delete_keeps: "svc_delete cf ls bid app g = Inr g' \<Longrightarrow> send_wf elems g \<Longrightarrow> send_wf elems g'"
  by (auto simp: svc_delete_def deref_Inr_iff assert_c_Inr_iff Let_def close_multicast_def split: if_splits
      intro!: send_wf_multicast)
    (erule send_wf_mc, assumption)+

text \<open>A new multicast has no senders, and the senders of a push have no connection yet.\<close>

lemma createBcdState_mc_ok:
  assumes "skiplist S elems" "createBcdState S eth ip P now bid iq wq rt rf fl = Inr (Some m)"
  shows "mc_ok elems A m"
  using assms(2) skiplist.init_law [OF assms(1)]
  by (auto simp: createBcdState_def multicastState_reset_def Let_def mc_ok_def rbind_Inr_iff split: option.splits if_splits)

lemma svc_write_keeps:
  "svc_write S cf now ls bid buf g = Inr g' \<Longrightarrow> skiplist S elems \<Longrightarrow> send_wf elems g \<Longrightarrow> send_wf elems g'"
  by (auto simp: svc_write_def rbind_Inr_iff deref_Inr_iff assert_c_Inr_iff split: option.splits
      intro!: send_wf_multicast dest: createBcdState_mc_ok)

lemma add_sender_mc_ok: "mc_ok elems A m \<Longrightarrow> mc_ok elems A (add_sender host now key m)"
  by (auto simp: add_sender_def Let_def createSenderState_def mc_ok_def less_Suc_eq split: if_splits)

lemma add_senders_mc_ok: "mc_ok elems A m \<Longrightarrow> mc_ok elems A (fold (add_sender host now) keys m)"
  by (induction keys arbitrary: m) (simp_all add: add_sender_mc_ok)

lemma start_push_mc_ok:
  assumes "mc_ok elems A m"
  shows "mc_ok elems A (start_push host now psh m)"
proof -
  let ?m = "multicastState_reset now (m\<lparr>m_msgPshQ := psh\<rparr>)"
  have "mc_ok elems A ?m" using assms by (simp add: multicastState_reset_def Let_def)
  from add_senders_mc_ok [OF this] have "mc_ok elems A (m2\<lparr>sender_end_seq_arr_p := replicate n None, tv_push := now\<rparr>)"
    if "m2 = fold (add_sender host now) (take (nat (fan_out_effective psh)) (slaves psh)) ?m" for m2 n
    using that by (auto simp: mc_ok_def)
  then show ?thesis unfolding start_push_def Let_def by blast
qed

lemma svc_push_keeps: "svc_push U cf v now ls bid buf g = Inr g' \<Longrightarrow> send_wf elems g \<Longrightarrow> send_wf elems g'"
  by (cases "hashMulticast g bid")
    (auto simp: svc_push_def rbind_Inr_iff assert_c_Inr_iff split: if_splits intro!: send_wf_multicast start_push_mc_ok dest: send_wf_mc)

lemma svc_app_keeps: "svc_app v bid iq g = Inr g' \<Longrightarrow> send_wf elems g \<Longrightarrow> send_wf elems g'"
  by (auto simp: svc_app_def rbind_Inr_iff Let_def split: option.splits intro: app_alloc_keeps)

lemma svc_int_keeps: "svc_int Q cf v a ls bid buf g = Inr g' \<Longrightarrow> send_wf elems g \<Longrightarrow> send_wf elems g'"
  by (auto simp: svc_int_def rbind_Inr_iff deref_Inr_iff Let_def split: if_splits dest!: svc_app_keeps connect_master_keeps)

lemma svc_request_keeps:
  "svc_request Q S U cf v now a ls hdr buf g = Some (Inr g') \<Longrightarrow> skiplist S elems \<Longrightarrow> send_wf elems g \<Longrightarrow> send_wf elems g'"
  by (auto simp: svc_request_def ro_iffs Let_def split: if_splits option.splits
      dest!: svc_read_keeps fds_send_keeps svc_delete_keeps svc_write_keeps svc_push_keeps svc_int_keeps)

lemma notify_one_keeps: "notify_one Q now key bid rpl a g = Some (Inr g') \<Longrightarrow> send_wf elems g \<Longrightarrow> send_wf elems g'"
  by (auto simp: notify_one_def ro_iffs split: option.splits sock_state.splits if_splits dest!: fds_send_keeps)

lemma notify_readers_keeps:
  assumes "notify_readers Q v now app key bid rpl g = Some (Inr g')" "send_wf elems g"
  shows "send_wf elems g'"
  by (rule ro_fold_invariant [where I = "send_wf elems", OF _ assms(2) assms(1) [unfolded notify_readers_def]])
    (auto simp: ro_iffs dest: notify_one_keeps)

lemma svc_c2i_keeps: "svc_c2i Q v now hdr g = Some (Inr g') \<Longrightarrow> send_wf elems g \<Longrightarrow> send_wf elems g'"
  by (auto simp: svc_c2i_def with_app_def ro_iffs Let_def split: if_splits dest!: notify_readers_keeps)

lemma svc_c_send2i_keeps: "svc_c_send2i now hdr g = Some (Inr g') \<Longrightarrow> send_wf elems g \<Longrightarrow> send_wf elems g'"
  by (auto simp: svc_c_send2i_def with_app_def ro_iffs multicastState_stats_def Let_def split: if_splits
      intro!: send_wf_multicast dest: send_wf_mc)

lemma svc_msg_keeps:
  "svc_msg Q S U cf v now a hdr buf g = Some (Inr g') \<Longrightarrow> skiplist S elems \<Longrightarrow> send_wf elems g \<Longrightarrow> send_wf elems g'"
  by (auto simp: svc_msg_def split: option.splits FdType.splits sock_state.splits
      dest!: svc_request_keeps svc_c2i_keeps svc_c_send2i_keeps)

lemma trash_keeps: "trash now a f g = Some (Inr g') \<Longrightarrow> send_wf elems g \<Longrightarrow> send_wf elems g'"
  by (auto simp: trash_def rbind_Inr_iff)

lemma svc_receive_keeps:
  assumes "svc_receive Q S U cf v now a res g = Some (Inr g')" and S: "skiplist S elems" and "send_wf elems g"
  shows "send_wf elems g'"
  using assms(1,3) svc_msg_keeps [OF _ S]
  by (auto simp: svc_receive_def ro_iffs svc_handle_def split: option.splits recv_result.splits sock_state.splits
      dest!: trash_keeps elim!: frame_loop_keeps [where I = "send_wf elems"])

lemma send_wf_closed:
  assumes "send_wf elems g" and ms: "ms = hashMulticast g"
  shows "send_wf elems (g\<lparr>hashMulticast := \<lambda>b. if b \<in> B then map_option close_multicast (ms b) else ms b\<rparr>)"
proof -
  have "mcs_ok elems (dom (ssock_heap g)) (\<lambda>b. if b \<in> B then map_option close_multicast (ms b) else ms b)"
    using assms(1) unfolding ms by (auto simp: send_wf_def mcs_ok_def close_multicast_def split: if_splits)
  then show ?thesis using assms(1) by (simp add: send_wf_def)
qed

lemma deleteAppState_keeps: "deleteAppState a g = Inr g' \<Longrightarrow> send_wf elems g \<Longrightarrow> send_wf elems g'"
  by (auto simp: deleteAppState_def deref_Inr_iff intro!: send_wf_closed)

lemma deleteUDSState_keeps: "deleteUDSState ls g = Inr g' \<Longrightarrow> send_wf elems g \<Longrightarrow> send_wf elems g'"
  by (auto simp: deleteUDSState_def deref_Inr_iff Let_def split: if_splits dest!: deleteAppState_keeps)

lemma deleteFdState_keeps: "deleteFdState Q a g = Some (Inr g') \<Longrightarrow> send_wf elems g \<Longrightarrow> send_wf elems g'"
  by (auto simp: deleteFdState_def split: option.splits if_splits sum.splits FdType.splits sock_state.splits dest!: deleteUDSState_keeps)

lemma svc_socket_keeps:
  assumes "svc_socket Q S U cf v e ws a g = Some (Inr g')" and S: "skiplist S elems" and "send_wf elems g"
  shows "send_wf elems g'"
  using assms(1,3)
  by (auto simp: svc_socket_def ro_iffs split: option.splits if_splits dest!: svc_receive_keeps [OF _ S] deleteFdState_keeps)

lemma svc_accept_keeps: "svc_accept Q e g = Inr g' \<Longrightarrow> send_wf elems g \<Longrightarrow> send_wf elems g'"
  by (auto simp: svc_accept_def Let_def split: option.splits intro: alloc_keeps)

lemma service_pass_keeps:
  assumes "thread_domainSocket Q S U cf v e g = Some (Inr g')" and S: "skiplist S elems" and "send_wf elems g"
  shows "send_wf elems g'"
proof -
  have walk: "send_wf elems g2" if "ro_fold (svc_socket Q S U cf v e ws) as g1 = Some (Inr g2)" "send_wf elems g1" for ws as g1 g2
    by (rule ro_fold_invariant [where I = "send_wf elems", OF _ that(2,1)]) (rule svc_socket_keeps [OF _ S])
  show ?thesis
    using assms(1,3)
    by (cases "io_select e")
      (auto simp: thread_domainSocket_def ro_iffs Let_def dest!: release_path_keeps request_path_keeps svc_accept_keeps
        intro: walk)
qed

subsection \<open>The data thread\<close>

lemma data_recver_keeps: "data_recver cf now opens bid p g = Inr g' \<Longrightarrow> send_wf elems g \<Longrightarrow> send_wf elems g'"
proof (cases "find_rsock (fds_heap g) (inet_ntoa (le_dec (peek (ETH_HLEN + 12) 4 p))) (rsockList g)")
  case (Inr f)
  then show "data_recver cf now opens bid p g = Inr g' \<Longrightarrow> send_wf elems g \<Longrightarrow> send_wf elems g'"
    by (cases f) (auto simp: data_recver_def Let_def split: if_splits option.splits)
qed (auto simp: data_recver_def split: if_splits)

lemma data_packet_keeps:
  assumes "data_packet cf now opens p g = Inr g'" "send_wf elems g"
  shows "send_wf elems g'"
proof -
  let ?bid = "dh_bcd_id (parseDataHdr p DATA_HDR_OFFSET)"
  obtain g1 where 1: "data_recver cf now opens ?bid p g = Inr g1"
    using assms(1) by (auto simp: data_packet_def Let_def rbind_Inr_iff)
  have g1: "send_wf elems g1" by (rule data_recver_keeps [OF 1 assms(2)])
  show ?thesis
  proof (cases "hashRecver g1 ?bid")
    case None
    then show ?thesis using assms(1) g1 by (simp add: data_packet_def Let_def 1)
  next
    case (Some rv)
    then show ?thesis using assms(1) g1 by (auto simp: data_packet_def Let_def 1 rbind_Inr_iff split: if_split_asm)
  qed
qed

lemma process_loop_keeps:
  "process_loop N cf now opens bufs dirc mi (rx, tx, j, k, n, g) = Inr (rx', tx', j', k', n', g') \<Longrightarrow> send_wf elems g
    \<Longrightarrow> send_wf elems g'"
proof (induction mi arbitrary: rx tx j k n g)
  case 0
  then show ?case by simp
next
  case (Suc mi)
  then show ?case
    by (auto simp: rbind_Inr_iff Let_def split: if_splits prod.splits dest!: data_packet_keeps)
qed

lemma move_keeps:
  "move N cf now opens bufs limit dirc (rx, tx, g) = Inr (rx', tx', n, g') \<Longrightarrow> send_wf elems g \<Longrightarrow> send_wf elems g'"
  by (auto simp: move_def process_rings_def rbind_Inr_iff Let_def split: if_splits dest!: process_loop_keeps)

lemma am_upgrade_mc_ok [simp]:
  "mc_ok elems A (am_attempt cf now m) = mc_ok elems A m" "mc_ok elems A (am_fullrate cf now m) = mc_ok elems A m"
  by (simp_all add: am_fullrate_def am_attempt_def multicastState_updateRate_def Let_def)

lemma am_n_pkt_queued_mc_ok:
  assumes "am_n_pkt_queued cf now tx m = (n, m', mark)"
  shows "mc_ok elems A m' = mc_ok elems A m"
proof -
  define u where "u = am_fullrate cf now (am_attempt cf now m)"
  define c where "c = am_credit now u"
  have u: "mc_ok elems A u = mc_ok elems A m" unfolding u_def by simp
  have "m' \<in> {m, u, u\<lparr>is_tv_last_data := is_tv_last_data u OR 0x14\<rparr>}"
    using assms unfolding am_n_pkt_queued_def Let_def u_def [symmetric] c_def [symmetric]
    by (simp only: split: if_split_asm) simp_all
  then show ?thesis using u by auto
qed

lemma am_loop_mc_ok: "am_loop N fl mi (m, tx, bufs, nb) = Inr (m', tx', bufs', nb') \<Longrightarrow> mc_ok elems A m' = mc_ok elems A m"
proof (induction mi arbitrary: m tx bufs nb)
  case 0
  then show ?case by simp
next
  case (Suc mi)
  from Suc.prems show ?case
    by (auto simp: deref_Inr_iff rbind_Inr_iff Let_def split: if_splits dest!: Suc.IH)
qed

lemma am_process_rings_mc_ok:
  assumes "am_process_rings N now fl limit (m, tx, bufs) = Inr (m', r)"
  shows "mc_ok elems A m' = mc_ok elems A m"
proof -
  let ?n = "min limit (int (nm_ring_space N tx))"
  define m0 where "m0 = (if n_packet_total m = 0 \<and> n_byte_total m = 0 then m\<lparr>m_tv := (m_tv m)\<lparr>tv_first_data := now\<rparr>\<rparr> else m)"
  have m0: "mc_ok elems A m0 = mc_ok elems A m" by (simp add: m0_def)
  obtain m1 tx1 bufs1 nb where 1: "am_loop N fl (nat ?n) (m0, tx, bufs, 0) = Inr (m1, tx1, bufs1, nb)"
    using assms unfolding am_process_rings_def Let_def prod.case m0_def [symmetric] by (auto simp only: rbind_Inr_iff)
  have m1: "mc_ok elems A m1 = mc_ok elems A m" using am_loop_mc_ok [OF 1] m0 by simp
  show ?thesis
    using assms unfolding am_process_rings_def Let_def prod.case m0_def [symmetric] 1 rbind_simps sum.inject prod.inject
    by (elim conjE, hypsubst) (simp add: m1 if_distrib [of "mc_ok elems A"])
qed

lemma am_move_mc_ok:
  "am_move N now fl limit (m, tx, bufs) = Inr (m', r) \<Longrightarrow> mc_ok elems A m' = mc_ok elems A m"
  unfolding am_move_def prod.case by (auto dest: am_process_rings_mc_ok split: if_split_asm)

lemma set_mark_keeps [simp]: "send_wf elems (set_mark mark fin g) = send_wf elems g"
  by (simp add: set_mark_def Let_def split: option.split prod.split)

lemma put_active_keeps: "send_wf elems g \<Longrightarrow> mc_ok elems (dom (ssock_heap g)) m \<Longrightarrow> send_wf elems (put_active m g)"
  by (auto simp: put_active_def split: option.split intro: send_wf_multicast)

lemma active_mc_ok: "send_wf elems g \<Longrightarrow> active g = Some m \<Longrightarrow> mc_ok elems (dom (ssock_heap g)) m"
  by (auto simp: active_def split: option.splits dest: send_wf_mc)

lemma data_credit_keeps:
  assumes "data_credit cf now nm g = (n, g')" "send_wf elems g"
  shows "send_wf elems g'"
proof (cases "active g")
  case None
  then show ?thesis using assms by (simp add: data_credit_def)
next
  case (Some m)
  obtain n' m' mark where q: "am_n_pkt_queued cf now (nic_tx nm) m = (n', m', mark)" by (metis prod_cases3)
  have "mc_ok elems (dom (ssock_heap g)) m'" using am_n_pkt_queued_mc_ok [OF q] active_mc_ok [OF assms(2) Some] by simp
  then show ?thesis using assms(1) put_active_keeps [OF assms(2)] by (auto simp: data_credit_def Some q)
qed

lemma data_send_keeps:
  assumes "data_send N now limit (nm, g) = Inr (nm', g')" "send_wf elems g"
  shows "send_wf elems g'"
proof (cases "active g")
  case None
  then show ?thesis using assms by (simp add: data_send_def)
next
  case (Some m)
  obtain m' r where q: "am_move N now (file_of g (m_bcd_filename m)) limit (m, nic_tx nm, nm_bufs nm) = Inr (m', r)"
    and g': "\<exists>mark fin. g' = set_mark mark fin (put_active m' g)"
    using assms(1) by (auto simp: data_send_def Some rbind_Inr_iff) blast
  have "mc_ok elems (dom (ssock_heap g)) m'" using am_move_mc_ok [OF q] active_mc_ok [OF assms(2) Some] by simp
  then show ?thesis using g' put_active_keeps [OF assms(2)] by auto
qed

lemma data_nic_out_keeps: "data_nic_out N cf e n_multi n_host (nm, g) = Inr (nm', g') \<Longrightarrow> send_wf elems g \<Longrightarrow> send_wf elems g'"
  by (auto simp: data_nic_out_def rbind_Inr_iff split: if_splits dest!: data_send_keeps move_keeps)

lemma data_host_out_keeps: "data_host_out N cf e n_nic (nm, g) = Inr (nm', g') \<Longrightarrow> send_wf elems g \<Longrightarrow> send_wf elems g'"
  by (auto simp: data_host_out_def rbind_Inr_iff split: if_splits dest!: move_keeps)

lemma data_release_keeps: "data_release now tx g = Inr g' \<Longrightarrow> send_wf elems g \<Longrightarrow> send_wf elems g'"
  by (auto simp: data_release_def Let_def split: if_splits option.splits intro!: put_active_keeps)
    (erule (1) active_mc_ok)+

lemma data_pass_keeps:
  "thread_netmap N cf e (nm, g) = Inr (nm', g') \<Longrightarrow> send_wf elems g \<Longrightarrow> send_wf elems g'"
  by (auto simp: thread_netmap_def rbind_Inr_iff Let_def split: if_splits prod.splits
      dest!: data_credit_keeps data_nic_out_keeps data_host_out_keeps data_release_keeps)

subsection \<open>The four threads together\<close>

text \<open>The threads take turns in any order, each with a whole pass and with whatever the rest of the world answers; the state
  of the rings belongs to the data thread.\<close>

inductive agent_step :: "'q queue_ops \<Rightarrow> ('s, nat) skiplist_ops \<Rightarrow> ('u, BcdID) skiplist_ops \<Rightarrow> nm_ops
    \<Rightarrow> (string \<Rightarrow> in_addr option \<times> int option) \<Rightarrow> config \<Rightarrow> nm_state \<times> ('q, 's, 'u) agent \<Rightarrow> nm_state \<times> ('q, 's, 'u) agent \<Rightarrow> bool"
  for Q S U N conn cf where
  sending: "thread_sendSocket Q S order e g = Some (Inr g') \<Longrightarrow> agent_step Q S U N conn cf (nm, g) (nm, g')"
| receiving: "thread_recvSocket Q conn cf e g = Some (Inr g') \<Longrightarrow> agent_step Q S U N conn cf (nm, g) (nm, g')"
| serving: "thread_domainSocket Q S U cf v e g = Some (Inr g') \<Longrightarrow> agent_step Q S U N conn cf (nm, g) (nm, g')"
| moving: "thread_netmap N cf d (nm, g) = Inr (nm', g') \<Longrightarrow> agent_step Q S U N conn cf (nm, g) (nm', g')"

inductive_cases agent_stepE: "agent_step Q S U N conn cf x y"

lemma send_thread_keeps:
  "thread_sendSocket Q S order e g = Some (Inr g') \<Longrightarrow> skiplist S elems \<Longrightarrow> send_wf elems g \<Longrightarrow> send_wf elems g'"
  using send_pass_keeps [of S elems g Q order e] by (simp add: ores_in_def pass_ok_def)

lemma agent_step_keeps:
  "agent_step Q S U N conn cf x y \<Longrightarrow> skiplist S elems \<Longrightarrow> send_wf elems (snd x) \<Longrightarrow> send_wf elems (snd y)"
  by (induction rule: agent_step.induct)
    (auto intro: send_thread_keeps recv_pass_keeps service_pass_keeps data_pass_keeps)

lemma agent_steps_keep:
  "(agent_step Q S U N conn cf)\<^sup>*\<^sup>* x y \<Longrightarrow> skiplist S elems \<Longrightarrow> send_wf elems (snd x) \<Longrightarrow> send_wf elems (snd y)"
  by (induction rule: rtranclp_induct) (auto dest: agent_step_keeps)

lemma started_agent:
  assumes "main_start Q U e args = Inr (Running st)"
  shows "ssock_heap (st_agent st) = Map.empty" "ssockList (st_agent st) = []" "ringCmd (st_agent st) = []"
    "hashMulticast (st_agent st) = Map.empty"
  by (rule main_start_Running [OF assms],
      simp add: start_state_def main_pipes_def initSharedDataStructures_def Let_def split: prod.split)+

lemma started_send_wf: "main_start Q U e args = Inr (Running st) \<Longrightarrow> send_wf elems (st_agent st)"
  by (simp add: send_wf_def mcs_ok_def started_agent)

text \<open>C3: No pointer of the sending control thread to a connection or to a sender dangles.  From the state in which \<^verbatim>\<open>main\<close> starts the
  threads, in whatever order the four threads run and whatever clients, peers and system answer, every connection of the list, of a
  waiting command and of a sender is an allocated one, and so are the senders that the index by address, the array of end marks and
  the queue of end marks name.  So the next pass of the thread does not use a connection or a sender that was freed or never made
  (\<open>UseAfterFree\<close>, which is the fault of every such use in the model).  Null pointers, and positions in the array of end marks itself,
  are other faults and are not excluded here.\<close>

theorem send_thread_never_dangles:
  assumes "skiplist S elems" and "main_start Q U env args = Inr (Running st)"
    and "(agent_step Q S U N conn (st_config st))\<^sup>*\<^sup>* (nm, st_agent st) (nm', g)"
  shows "send_wf elems g \<and> thread_sendSocket Q S order e g \<noteq> Some (Inl UseAfterFree)"
proof -
  have ok: "send_wf elems g" using agent_steps_keep [OF assms(3,1)] started_send_wf [OF assms(2)] by simp
  then show ?thesis using send_pass_keeps [OF assms(1) ok, of Q order e] by auto
qed

text \<open>A start, and a pass that accepts a connection.\<close>

definition example_io :: io_env where
  "example_io = \<lparr>io_now = TV0, io_select = ReadyFds, io_rd = (\<lambda>_. None), io_wr = {}, io_send = (\<lambda>_ _ _. 0), io_accept = Some (Some (9, 7))\<rparr>"

lemma example_accept:
  assumes "main_start list_queue U e args = Inr (Running st)"
  shows "\<exists>g. thread_sendSocket list_queue S [] example_io (st_agent st) = Some (Inr g) \<and> ssockList g = [next_addr (st_agent st)]"
  by (simp add: thread_sendSocket_def started_agent [OF assms] process_cmds.simps example_io_def send_accept_def send_socket_def
      createSendSocketState_def Let_def)

theorem send_thread_never_dangles_witness:
  "\<exists>(st :: (MsgToken list, nat list, BcdID list) started) (g :: (MsgToken list, nat list, BcdID list) agent).
    main_start list_queue (cmp_skiplist (\<lambda>_ _. 1)) (example_env True) example_args = Inr (Running st)
    \<and> ssockList g = [next_addr (st_agent st)] \<and> send_wf (\<lambda>s. s) g
    \<and> thread_sendSocket list_queue (cmp_skiplist (\<lambda>_ _. 1)) [] example_io g \<noteq> Some (Inl UseAfterFree)"
proof -
  let ?S = "cmp_skiplist (\<lambda>_ _. 1) :: (nat list, nat) skiplist_ops"
  obtain st :: "(MsgToken list, nat list, BcdID list) started" where
    st: "main_start list_queue (cmp_skiplist (\<lambda>_ _. 1)) (example_env True) example_args = Inr (Running st)" using example_start by blast
  obtain g where g: "thread_sendSocket list_queue ?S [] example_io (st_agent st) = Some (Inr g)" "ssockList g = [next_addr (st_agent st)]"
    using example_accept [OF st] by blast
  fix N conn and nm :: nm_state
  have "(agent_step list_queue ?S (cmp_skiplist (\<lambda>_ _. 1)) N conn (st_config st))\<^sup>*\<^sup>* (nm, st_agent st) (nm, g)"
    by (rule r_into_rtranclp, rule agent_step.sending [OF g(1)])
  from send_thread_never_dangles [OF sl.skiplist_axioms st this, of "[]" example_io] st g(2) show ?thesis by blast
qed

end
