(* ===== verification/Thrift.thy ===== *)
theory Thrift
  imports Agent
begin

text \<open>
  What the code that the Thrift compiler generated (\<^verbatim>\<open>gen-c_glib\<close>) uses of Thrift's C library: the operations of a protocol on a
  connection, as an argument with a contract, and the two shapes that every generated function has: a sequence
  of writes that stops at the first failure, and a loop that reads the fields of a struct.  An operation returns a negative number when
  it fails; the sums of bytes that the functions add up stay within \<^verbatim>\<open>gint32\<close>.
\<close>

subsection \<open>The library\<close>

datatype ttype = T_STOP | T_I32 | T_STRING | T_STRUCT | T_SET | T_OTHER nat

datatype mtype = T_CALL | T_REPLY | T_EXCEPTION | T_ONEWAY | T_INVALID nat

text \<open>The state \<open>'p\<close> is that of the connection, both ways.  Where the library stores through a pointer, the operation gets the
  old value and returns the new one.  A \<^verbatim>\<open>gchar *\<close> is \<open>None\<close> when it is \<^verbatim>\<open>NULL\<close>.  The last two operations write the
  \<^verbatim>\<open>ThriftApplicationException\<close> for a \<^verbatim>\<open>GError\<close>, if there is one, and read such an exception.\<close>

record 'p protocol_ops =
  w_message_begin :: "string \<Rightarrow> mtype \<Rightarrow> u32 \<Rightarrow> 'p \<Rightarrow> int \<times> 'p"
  w_message_end :: "'p \<Rightarrow> int \<times> 'p"
  w_struct_begin :: "string \<Rightarrow> 'p \<Rightarrow> int \<times> 'p"
  w_struct_end :: "'p \<Rightarrow> int \<times> 'p"
  w_field_begin :: "string \<Rightarrow> ttype \<Rightarrow> int \<Rightarrow> 'p \<Rightarrow> int \<times> 'p"
  w_field_end :: "'p \<Rightarrow> int \<times> 'p"
  w_field_stop :: "'p \<Rightarrow> int \<times> 'p"
  w_set_begin :: "ttype \<Rightarrow> u32 \<Rightarrow> 'p \<Rightarrow> int \<times> 'p"
  w_set_end :: "'p \<Rightarrow> int \<times> 'p"
  w_string :: "string option \<Rightarrow> 'p \<Rightarrow> int \<times> 'p"
  w_i32 :: "u32 \<Rightarrow> 'p \<Rightarrow> int \<times> 'p"
  r_message_begin :: "'p \<Rightarrow> int \<times> (string \<times> mtype \<times> u32) \<times> 'p"
  r_message_end :: "'p \<Rightarrow> int \<times> 'p"
  r_struct_begin :: "'p \<Rightarrow> int \<times> 'p"
  r_struct_end :: "'p \<Rightarrow> int \<times> 'p"
  r_field_begin :: "'p \<Rightarrow> int \<times> (ttype \<times> int) \<times> 'p"
  r_field_end :: "'p \<Rightarrow> int \<times> 'p"
  r_set_begin :: "'p \<Rightarrow> int \<times> (ttype \<times> u32) \<times> 'p"
  r_set_end :: "'p \<Rightarrow> int \<times> 'p"
  r_string :: "string option \<Rightarrow> 'p \<Rightarrow> int \<times> string option \<times> 'p"
  r_i32 :: "u32 \<Rightarrow> 'p \<Rightarrow> int \<times> u32 \<times> 'p"
  r_skip :: "ttype \<Rightarrow> 'p \<Rightarrow> int \<times> 'p"
  t_flush :: "'p \<Rightarrow> bool \<times> 'p"
  t_write_end :: "'p \<Rightarrow> bool \<times> 'p"
  t_read_end :: "'p \<Rightarrow> bool \<times> 'p"
  x_write :: "(int \<times> string) option \<Rightarrow> 'p \<Rightarrow> int \<times> 'p"
  x_read :: "'p \<Rightarrow> int \<times> 'p"

subsection \<open>Its contract\<close>

text \<open>What goes over the connection.  The names of structs and fields need not: the reading side does not look at them.\<close>

datatype token = KMsg string mtype u32 | KMsgEnd | KStruct | KStructEnd | KField ttype int | KFieldEnd | KStop
  | KSet ttype u32 | KSetEnd | KStr string | KI32 u32

text \<open>A write fails with -1, or appends to what is sent; a read of what has arrived succeeds and takes it.\<close>

definition puts :: "('p \<Rightarrow> token list) \<Rightarrow> ('p \<Rightarrow> token list) \<Rightarrow> ('p \<Rightarrow> int \<times> 'p) \<Rightarrow> token list \<Rightarrow> bool" where
  "puts sent got f ts \<longleftrightarrow> (\<forall>p. -1 \<le> fst (f p) \<and> (0 \<le> fst (f p) \<longrightarrow> sent (snd (f p)) = sent p @ ts \<and> got (snd (f p)) = got p))"

definition takes :: "('p \<Rightarrow> token list) \<Rightarrow> ('p \<Rightarrow> token list) \<Rightarrow> ('p \<Rightarrow> int \<times> 'v \<times> 'p) \<Rightarrow> token \<Rightarrow> 'v \<Rightarrow> bool" where
  "takes sent got f t v \<longleftrightarrow> (\<forall>p ts. got p = t # ts \<longrightarrow> (\<exists>r p'. f p = (r, v, p') \<and> 0 \<le> r \<and> got p' = ts \<and> sent p' = sent p))"

definition takes0 :: "('p \<Rightarrow> token list) \<Rightarrow> ('p \<Rightarrow> token list) \<Rightarrow> ('p \<Rightarrow> int \<times> 'p) \<Rightarrow> token \<Rightarrow> bool" where
  "takes0 sent got f t \<longleftrightarrow> (\<forall>p ts. got p = t # ts \<longrightarrow> (\<exists>r p'. f p = (r, p') \<and> 0 \<le> r \<and> got p' = ts \<and> sent p' = sent p))"

definition neutral :: "('p \<Rightarrow> token list) \<Rightarrow> ('p \<Rightarrow> token list) \<Rightarrow> ('p \<Rightarrow> bool \<times> 'p) \<Rightarrow> bool" where
  "neutral sent got f \<longleftrightarrow> (\<forall>p. fst (f p) \<longrightarrow> sent (snd (f p)) = sent p \<and> got (snd (f p)) = got p)"

text \<open>The law of strings is for those that are not empty: nothing in the code says whether an empty one is read as \<^verbatim>\<open>NULL\<close>.\<close>

locale thrift_protocol =
  fixes T :: "'p protocol_ops" and sent got :: "'p \<Rightarrow> token list"
  assumes put_laws: "puts sent got (w_message_begin T nm mt sq) [KMsg nm mt sq]" "puts sent got (w_message_end T) [KMsgEnd]"
      "puts sent got (w_struct_begin T nm) [KStruct]" "puts sent got (w_struct_end T) [KStructEnd]"
      "puts sent got (w_field_begin T nm ty fid) [KField ty fid]" "puts sent got (w_field_end T) [KFieldEnd]"
      "puts sent got (w_field_stop T) [KStop]" "puts sent got (w_set_begin T ty n) [KSet ty n]" "puts sent got (w_set_end T) [KSetEnd]"
      "puts sent got (w_string T (Some s)) [KStr s]" "puts sent got (w_i32 T v) [KI32 v]"
    and take_laws: "takes sent got (r_message_begin T) (KMsg nm mt sq) (nm, mt, sq)" "takes0 sent got (r_message_end T) KMsgEnd"
      "takes0 sent got (r_struct_begin T) KStruct" "takes0 sent got (r_struct_end T) KStructEnd"
      "takes sent got (r_field_begin T) (KField ty fid) (ty, fid)" "takes sent got (r_field_begin T) KStop (T_STOP, 0)"
      "takes0 sent got (r_field_end T) KFieldEnd" "takes sent got (r_set_begin T) (KSet ty n) (ty, n)" "takes0 sent got (r_set_end T) KSetEnd"
      "s \<noteq> [] \<Longrightarrow> takes sent got (r_string T old) (KStr s) (Some s)" "takes sent got (r_i32 T i) (KI32 v) v"
    and end_laws: "neutral sent got (t_flush T)" "neutral sent got (t_write_end T)" "neutral sent got (t_read_end T)"
    and read_end_law: "fst (t_read_end T p)"

subsection \<open>Writing\<close>

text \<open>Writes in sequence; those marked are counted in the number of bytes that the function returns.\<close>

type_synonym 'p wop = "bool \<times> ('p \<Rightarrow> int \<times> 'p)"

abbreviation counted :: "('p \<Rightarrow> int \<times> 'p) \<Rightarrow> 'p wop" where "counted f \<equiv> (True, f)"
abbreviation uncounted :: "('p \<Rightarrow> int \<times> 'p) \<Rightarrow> 'p wop" where "uncounted f \<equiv> (False, f)"

primrec wrun :: "'p wop list \<Rightarrow> int \<Rightarrow> 'p \<Rightarrow> int \<times> 'p" where
  "wrun [] x p = (x, p)"
| "wrun (w # ws) x p = (case snd w p of (r, p) \<Rightarrow> if r < 0 then (-1, p) else wrun ws (if fst w then x + r else x) p)"

text \<open>The strings of a \<^verbatim>\<open>GHashTable\<close> that is used as a set; \<open>keys\<close> is the order in which the library lists them.\<close>

definition write_strings :: "'p protocol_ops \<Rightarrow> (string set \<Rightarrow> string list) \<Rightarrow> string set \<Rightarrow> 'p wop list" where
  "write_strings T keys A = counted (w_set_begin T T_STRING (of_nat (card A)))
     # map (\<lambda>k. uncounted (w_string T (Some k))) (keys A) @ [counted (w_set_end T)]"

text \<open>A chain of steps joined by \<^verbatim>\<open>&&\<close>; the two ways in which the code asks for the success of a step.\<close>

primrec chain :: "('p \<Rightarrow> bool \<times> 'p) list \<Rightarrow> 'p \<Rightarrow> bool \<times> 'p" where
  "chain [] p = (True, p)"
| "chain (f # fs) p = (case f p of (ok, p) \<Rightarrow> if ok then chain fs p else (False, p))"

definition nonneg :: "('p \<Rightarrow> int \<times> 'p) \<Rightarrow> 'p \<Rightarrow> bool \<times> 'p" where
  "nonneg f p = (case f p of (r, p) \<Rightarrow> (\<not> r < 0, p))"

definition not_m1 :: "('p \<Rightarrow> int \<times> 'p) \<Rightarrow> 'p \<Rightarrow> bool \<times> 'p" where
  "not_m1 f p = (case f p of (r, p) \<Rightarrow> (r \<noteq> -1, p))"

subsection \<open>Reading\<close>

text \<open>The fields of a struct: \<open>field\<close> is the \<^verbatim>\<open>switch\<close> over the number of the field, on the object \<open>ob\<close> into which the
  function reads.  What a function has stored when it fails stays.\<close>

partial_function (option) read_fields :: "'p protocol_ops \<Rightarrow> (ttype \<Rightarrow> int \<Rightarrow> 'o \<Rightarrow> 'p \<Rightarrow> (int \<times> 'o \<times> 'p) res option)
    \<Rightarrow> int \<Rightarrow> 'o \<Rightarrow> 'p \<Rightarrow> (int \<times> 'o \<times> 'p) res option" where
  "read_fields T field x ob p = (case r_field_begin T p of (r, (ty, fid), p) \<Rightarrow>
     if r < 0 then Some (Inr (-1, ob, p))
     else if ty = T_STOP then Some (Inr (x + r, ob, p))
     else (case field ty fid ob p of
         None \<Rightarrow> None
       | Some (Inl e) \<Rightarrow> Some (Inl e)
       | Some (Inr (r1, ob, p)) \<Rightarrow>
           if r1 < 0 then Some (Inr (-1, ob, p))
           else (case r_field_end T p of (r2, p) \<Rightarrow>
             if r2 < 0 then Some (Inr (-1, ob, p)) else read_fields T field (x + r + r1 + r2) ob p)))"

declare read_fields.simps [code]

definition read_struct :: "'p protocol_ops \<Rightarrow> (ttype \<Rightarrow> int \<Rightarrow> 'o \<Rightarrow> 'p \<Rightarrow> (int \<times> 'o \<times> 'p) res option)
    \<Rightarrow> 'o \<Rightarrow> 'p \<Rightarrow> (int \<times> 'o \<times> 'p) res option" where
  "read_struct T field ob p = (case r_struct_begin T p of (r, p) \<Rightarrow>
     if r < 0 then Some (Inr (-1, ob, p))
     else ro_bind (read_fields T field r ob p) (\<lambda>(x, ob, p).
       if x < 0 then Some (Inr (-1, ob, p))
       else (case r_struct_end T p of (r, p) \<Rightarrow> if r < 0 then Some (Inr (-1, ob, p)) else Some (Inr (x + r, ob, p)))))"

text \<open>A field of another type or with an unknown number is skipped.\<close>

definition skip_field :: "'p protocol_ops \<Rightarrow> ttype \<Rightarrow> 'o \<Rightarrow> 'p \<Rightarrow> (int \<times> 'o \<times> 'p) res option" where
  "skip_field T ty ob p = (case r_skip T ty p of (r, p) \<Rightarrow> Some (Inr (r, ob, p)))"

text \<open>The elements of a set of strings; the hash function of the table reads the string.\<close>

primrec read_set_elems :: "'p protocol_ops \<Rightarrow> nat \<Rightarrow> int \<Rightarrow> string set \<Rightarrow> 'p \<Rightarrow> (int \<times> string set \<times> 'p) res" where
  "read_set_elems T 0 x A p = Inr (x, A, p)"
| "read_set_elems T (Suc n) x A p = (case r_string T None p of (r, s, p) \<Rightarrow>
     if r < 0 then Inr (-1, A, p) else deref s (\<lambda>s. read_set_elems T n (x + r) (insert s A) p))"

definition read_set :: "'p protocol_ops \<Rightarrow> string set \<Rightarrow> 'p \<Rightarrow> (int \<times> string set \<times> 'p) res" where
  "read_set T A p = (case r_set_begin T p of (r, (_, n), p) \<Rightarrow>
     if r < 0 then Inr (-1, A, p)
     else rbind (read_set_elems T (unat n) r A p) (\<lambda>(x, A, p).
       if x < 0 then Inr (-1, A, p)
       else (case r_set_end T p of (r, p) \<Rightarrow> if r < 0 then Inr (-1, A, p) else Inr (x + r, A, p))))"

subsection \<open>Facts\<close>

lemma wrun_puts:
  assumes "list_all2 (\<lambda>w ts. puts sent got (snd w) ts) ws tss" "0 \<le> x"
  shows "puts sent got (wrun ws x) (concat tss)"
  using assms
proof (induction arbitrary: x rule: list_all2_induct)
  case Nil
  then show ?case by (simp add: puts_def)
next
  case (Cons w ws ts tss)
  have "-1 \<le> fst (wrun (w # ws) x p)
      \<and> (0 \<le> fst (wrun (w # ws) x p) \<longrightarrow> sent (snd (wrun (w # ws) x p)) = sent p @ concat (ts # tss) \<and> got (snd (wrun (w # ws) x p)) = got p)" for p
  proof -
    obtain r p1 where w: "snd w p = (r, p1)" by (cases "snd w p")
    let ?x = "if fst w then x + r else x"
    show ?thesis
    proof (cases "r < 0")
      case False
      then have "sent p1 = sent p @ ts" "got p1 = got p" using Cons.hyps(1) by (auto simp: puts_def w dest: spec [of _ p])
      then show ?thesis using Cons.IH [of ?x] Cons.prems False by (simp add: puts_def w)
    qed (simp add: w)
  qed
  then show ?case by (simp add: puts_def)
qed

text \<open>The same for steps that say whether they succeeded.\<close>

definition bputs :: "('p \<Rightarrow> token list) \<Rightarrow> ('p \<Rightarrow> token list) \<Rightarrow> ('p \<Rightarrow> bool \<times> 'p) \<Rightarrow> token list \<Rightarrow> bool" where
  "bputs sent got f ts \<longleftrightarrow> (\<forall>p. fst (f p) \<longrightarrow> sent (snd (f p)) = sent p @ ts \<and> got (snd (f p)) = got p)"

lemma step_sel [simp]:
  "fst (nonneg f p) \<longleftrightarrow> 0 \<le> fst (f p)" "snd (nonneg f p) = snd (f p)" "fst (not_m1 f p) \<longleftrightarrow> fst (f p) \<noteq> -1" "snd (not_m1 f p) = snd (f p)"
  by (auto simp: nonneg_def not_m1_def split: prod.split)

lemma bputs_nonneg: "puts sent got f ts \<Longrightarrow> bputs sent got (nonneg f) ts"
  by (simp add: puts_def bputs_def)

lemma bputs_not_m1:
  assumes "puts sent got f ts"
  shows "bputs sent got (not_m1 f) ts"
proof -
  have "0 \<le> fst (f p)" if "fst (f p) \<noteq> -1" for p
    using assms that unfolding puts_def by (metis add1_zle_eq add.right_inverse add.commute order_le_less)
  then show ?thesis using assms by (simp add: puts_def bputs_def)
qed

lemma bputs_neutral: "neutral sent got f \<Longrightarrow> bputs sent got f []"
  by (simp add: neutral_def bputs_def)

lemma chain_bputs:
  assumes "list_all2 (bputs sent got) fs tss"
  shows "bputs sent got (chain fs) (concat tss)"
  using assms
proof (induction rule: list_all2_induct)
  case Nil
  then show ?case by (simp add: bputs_def)
next
  case (Cons f fs ts tss)
  have "sent (snd (chain (f # fs) p)) = sent p @ concat (ts # tss) \<and> got (snd (chain (f # fs) p)) = got p" if "fst (chain (f # fs) p)" for p
  proof -
    obtain ok p1 where f: "f p = (ok, p1)" by (cases "f p")
    then have "ok" "fst (chain fs p1)" using that by (simp_all split: if_splits)
    moreover from this have "sent p1 = sent p @ ts" "got p1 = got p" using Cons.hyps(1) [unfolded bputs_def, rule_format, of p] by (simp_all add: f)
    ultimately show ?thesis using Cons.IH by (simp add: bputs_def f)
  qed
  then show ?case by (simp add: bputs_def)
qed

lemma takesD: "takes sent got f t v \<Longrightarrow> got p = t # ts \<Longrightarrow> \<exists>r p'. f p = (r, v, p') \<and> 0 \<le> r \<and> got p' = ts \<and> sent p' = sent p"
  by (simp add: takes_def)

lemma takes0D: "takes0 sent got f t \<Longrightarrow> got p = t # ts \<Longrightarrow> \<exists>r p'. f p = (r, p') \<and> 0 \<le> r \<and> got p' = ts \<and> sent p' = sent p"
  by (simp add: takes0_def)

text \<open>A function that reads a sequence of tokens and gives a value.\<close>

definition reads :: "('p \<Rightarrow> token list) \<Rightarrow> ('p \<Rightarrow> token list) \<Rightarrow> ('p \<Rightarrow> (int \<times> 'v \<times> 'p) res option) \<Rightarrow> token list \<Rightarrow> 'v \<Rightarrow> bool" where
  "reads sent got f ts v \<longleftrightarrow>
     (\<forall>p us. got p = ts @ us \<longrightarrow> (\<exists>r p'. f p = Some (Inr (r, v, p')) \<and> 0 \<le> r \<and> got p' = us \<and> sent p' = sent p))"

lemma readsD:
  "reads sent got f ts v \<Longrightarrow> got p = ts @ us \<Longrightarrow> \<exists>r p'. f p = Some (Inr (r, v, p')) \<and> 0 \<le> r \<and> got p' = us \<and> sent p' = sent p"
  by (simp add: reads_def)

context thrift_protocol begin

lemma write_strings_puts:
  "list_all2 (\<lambda>w ts. puts sent got (snd w) ts) (write_strings T keys A)
     ([KSet T_STRING (of_nat (card A))] # map (\<lambda>k. [KStr k]) (keys A) @ [[KSetEnd]])"
  by (simp add: write_strings_def put_laws list_all2_append list_all2_map1 list_all2_map2 list_all2_same)

lemma read_set_elems_takes:
  assumes "got p = map KStr ks @ ts" "[] \<notin> set ks" "0 \<le> x"
  shows "\<exists>r p'. read_set_elems T (length ks) x A p = Inr (r, A \<union> set ks, p') \<and> 0 \<le> r \<and> got p' = ts \<and> sent p' = sent p"
  using assms
proof (induction ks arbitrary: p x A)
  case Nil
  then show ?case by simp
next
  case (Cons k ks)
  obtain r p1 where 1: "r_string T None p = (r, Some k, p1)" "0 \<le> r" "got p1 = map KStr ks @ ts" "sent p1 = sent p"
    using takesD [OF take_laws(10) [of k None], of p "map KStr ks @ ts"] Cons.prems by auto
  from Cons.IH [of p1 "x + r" "insert k A"] Cons.prems 1 show ?case by auto
qed

lemma read_set_takes:
  assumes "got p = KSet T_STRING (of_nat (length ks)) # map KStr ks @ KSetEnd # ts" "[] \<notin> set ks" "length ks < 2 ^ 32"
  shows "\<exists>r p'. read_set T A p = Inr (r, A \<union> set ks, p') \<and> 0 \<le> r \<and> got p' = ts \<and> sent p' = sent p"
proof -
  obtain r p1 where 1: "r_set_begin T p = (r, (T_STRING, of_nat (length ks)), p1)" "0 \<le> r" "got p1 = map KStr ks @ KSetEnd # ts" "sent p1 = sent p"
    using takesD [OF take_laws(8) assms(1)] by blast
  obtain r2 p2 where 2: "read_set_elems T (length ks) r A p1 = Inr (r2, A \<union> set ks, p2)" "0 \<le> r2" "got p2 = KSetEnd # ts" "sent p2 = sent p1"
    using read_set_elems_takes [OF 1(3) assms(2) 1(2), of A] by blast
  obtain r3 p3 where "r_set_end T p2 = (r3, p3)" "0 \<le> r3" "got p3 = ts" "sent p3 = sent p2"
    using takes0D [OF take_laws(9) 2(3)] by blast
  moreover have "unat (of_nat (length ks) :: u32) = length ks" using assms(3) by (simp add: unat_of_nat)
  ultimately show ?thesis using 1 2 by (simp add: read_set_def)
qed

text \<open>The end of the fields, one more field, and the whole struct.\<close>

lemma reads_stop: "0 \<le> x \<Longrightarrow> reads sent got (read_fields T field x ob) [KStop] ob"
  unfolding reads_def
proof (intro allI impI)
  fix p us
  assume "0 \<le> x" "got p = [KStop] @ us"
  then show "\<exists>r p'. read_fields T field x ob p = Some (Inr (r, ob, p')) \<and> 0 \<le> r \<and> got p' = us \<and> sent p' = sent p"
    using takesD [OF take_laws(6), of p us] by (subst read_fields.simps) auto
qed

lemma reads_field:
  assumes "reads sent got (field ty fid ob) ts ob1" "\<And>y. 0 \<le> y \<Longrightarrow> reads sent got (read_fields T field y ob1) us ob2"
    and "ty \<noteq> T_STOP" "0 \<le> x"
  shows "reads sent got (read_fields T field x ob) (KField ty fid # ts @ KFieldEnd # us) ob2"
  unfolding reads_def
proof (intro allI impI)
  fix p vs
  assume p: "got p = (KField ty fid # ts @ KFieldEnd # us) @ vs"
  obtain r p1 where 1: "r_field_begin T p = (r, (ty, fid), p1)" "0 \<le> r" "got p1 = ts @ KFieldEnd # us @ vs" "sent p1 = sent p"
    using takesD [OF take_laws(5), of p ty fid "ts @ KFieldEnd # us @ vs"] p by auto
  obtain r2 p2 where 2: "field ty fid ob p1 = Some (Inr (r2, ob1, p2))" "0 \<le> r2" "got p2 = KFieldEnd # us @ vs" "sent p2 = sent p1"
    using readsD [OF assms(1) 1(3)] by blast
  obtain r3 p3 where 3: "r_field_end T p2 = (r3, p3)" "0 \<le> r3" "got p3 = us @ vs" "sent p3 = sent p2"
    using takes0D [OF take_laws(7) 2(3)] by blast
  have "read_fields T field x ob p = read_fields T field (x + r + r2 + r3) ob1 p3"
    using 1 2 3 assms(3) by (subst read_fields.simps) simp
  then show "\<exists>r p'. read_fields T field x ob p = Some (Inr (r, ob2, p')) \<and> 0 \<le> r \<and> got p' = vs \<and> sent p' = sent p"
    using readsD [OF assms(2) 3(3), of "x + r + r2 + r3"] 1 2 3 assms(4) by simp
qed

lemma reads_struct:
  assumes "\<And>x. 0 \<le> x \<Longrightarrow> reads sent got (read_fields T field x ob) ts ob'"
  shows "reads sent got (read_struct T field ob) (KStruct # ts @ [KStructEnd]) ob'"
  unfolding reads_def
proof (intro allI impI)
  fix p vs
  assume p: "got p = (KStruct # ts @ [KStructEnd]) @ vs"
  obtain r p1 where 1: "r_struct_begin T p = (r, p1)" "0 \<le> r" "got p1 = ts @ KStructEnd # vs" "sent p1 = sent p"
    using takes0D [OF take_laws(3), of p "ts @ KStructEnd # vs"] p by auto
  obtain y p2 where 2: "read_fields T field r ob p1 = Some (Inr (y, ob', p2))" "0 \<le> y" "got p2 = KStructEnd # vs" "sent p2 = sent p1"
    using readsD [OF assms [OF 1(2)] 1(3)] by blast
  obtain r3 p3 where "r_struct_end T p2 = (r3, p3)" "0 \<le> r3" "got p3 = vs" "sent p3 = sent p2"
    using takes0D [OF take_laws(4) 2(3)] by blast
  then show "\<exists>r p'. read_struct T field ob p = Some (Inr (r, ob', p')) \<and> 0 \<le> r \<and> got p' = vs \<and> sent p' = sent p"
    using 1 2 by (simp add: read_struct_def)
qed

end

subsection \<open>A connection in memory\<close>

text \<open>What was sent, and what has arrived.\<close>

type_synonym conn = "token list \<times> token list"

definition put_tok :: "token \<Rightarrow> conn \<Rightarrow> int \<times> conn" where
  "put_tok t p = (1, fst p @ [t], snd p)"

definition take_tok :: "(token \<Rightarrow> 'v option) \<Rightarrow> 'v \<Rightarrow> conn \<Rightarrow> int \<times> 'v \<times> conn" where
  "take_tok f old p = (case snd p of [] \<Rightarrow> (-1, old, p) | t # ts \<Rightarrow> (case f t of None \<Rightarrow> (-1, old, p) | Some v \<Rightarrow> (1, v, fst p, ts)))"

definition take_tok0 :: "token \<Rightarrow> conn \<Rightarrow> int \<times> conn" where
  "take_tok0 t p = (case snd p of [] \<Rightarrow> (-1, p) | u # ts \<Rightarrow> if u = t then (1, fst p, ts) else (-1, p))"

definition mem_protocol :: "conn protocol_ops" where
  "mem_protocol =
     \<lparr>w_message_begin = (\<lambda>nm mt sq. put_tok (KMsg nm mt sq)), w_message_end = put_tok KMsgEnd, w_struct_begin = (\<lambda>_. put_tok KStruct),
      w_struct_end = put_tok KStructEnd, w_field_begin = (\<lambda>_ ty fid. put_tok (KField ty fid)), w_field_end = put_tok KFieldEnd,
      w_field_stop = put_tok KStop, w_set_begin = (\<lambda>ty n. put_tok (KSet ty n)), w_set_end = put_tok KSetEnd,
      w_string = (\<lambda>s p. case s of None \<Rightarrow> (-1, p) | Some s \<Rightarrow> put_tok (KStr s) p), w_i32 = (\<lambda>v. put_tok (KI32 v)),
      r_message_begin = take_tok (\<lambda>t. case t of KMsg nm mt sq \<Rightarrow> Some (nm, mt, sq) | _ \<Rightarrow> None) ([], T_CALL, 0),
      r_message_end = take_tok0 KMsgEnd, r_struct_begin = take_tok0 KStruct, r_struct_end = take_tok0 KStructEnd,
      r_field_begin = take_tok (\<lambda>t. case t of KField ty fid \<Rightarrow> Some (ty, fid) | KStop \<Rightarrow> Some (T_STOP, 0) | _ \<Rightarrow> None) (T_STOP, 0),
      r_field_end = take_tok0 KFieldEnd,
      r_set_begin = take_tok (\<lambda>t. case t of KSet ty n \<Rightarrow> Some (ty, n) | _ \<Rightarrow> None) (T_STOP, 0), r_set_end = take_tok0 KSetEnd,
      r_string = take_tok (\<lambda>t. case t of KStr s \<Rightarrow> Some (if s = [] then None else Some s) | _ \<Rightarrow> None),
      r_i32 = take_tok (\<lambda>t. case t of KI32 v \<Rightarrow> Some v | _ \<Rightarrow> None),
      r_skip = (\<lambda>_ p. (-1, p)), t_flush = Pair True, t_write_end = Pair True, t_read_end = Pair True,
      x_write = (\<lambda>_ p. (-1, p)), x_read = (\<lambda>p. (-1, p))\<rparr>"

interpretation mp: thrift_protocol mem_protocol fst snd
  by unfold_locales
    (auto simp: mem_protocol_def puts_def takes_def takes0_def neutral_def put_tok_def take_tok_def take_tok0_def)

end
