(* ===== verification/BcdTypes.thy ===== *)
theory BcdTypes
  imports Thrift
begin

text \<open>
  The structs of the controller's service (\<^verbatim>\<open>gen-c_glib/edu_rice_bold_service_broadcast_types.c\<close>): the objects with their initial
  values and properties, and how each is written to and read from a protocol.  Memory of a new object is zero.
\<close>

subsection \<open>The objects\<close>

record BcdInfo =
  bi_id :: "string option"
  bi_isset_id :: bool
  bi_size :: u32
  bi_isset_size :: bool

record PushReply =
  pr_xid :: u32
  pr_isset_xid :: bool
  pr_cmd :: u32
  pr_isset_cmd :: bool

record PushArgs =
  pa_master :: "string option"
  pa_isset_master :: bool
  pa_slaves :: "string set"
  pa_isset_slaves :: bool
  pa_data :: BcdInfo
  pa_isset_data :: bool

record PushResult =
  ps_success :: PushReply
  ps_isset_success :: bool

record UnpushArgs =
  ua_xid :: u32
  ua_isset_xid :: bool

definition PUSH_REPLY_CMD_PUSH :: u32 where "PUSH_REPLY_CMD_PUSH = 0"
definition PUSH_REPLY_CMD_POSTPONE :: u32 where "PUSH_REPLY_CMD_POSTPONE = 1"
definition PUSH_REPLY_CMD_DENY :: u32 where "PUSH_REPLY_CMD_DENY = 2"

text \<open>The buffer of 16 bytes is enough for any \<^verbatim>\<open>int\<close>.\<close>

definition toString_PushReplyCmd :: "u32 \<Rightarrow> string" where
  "toString_PushReplyCmd v =
     (if v = PUSH_REPLY_CMD_PUSH then ''EDU_RICE_BOLD_SERVICE_PUSH_REPLY_CMD_PUSH''
      else if v = PUSH_REPLY_CMD_POSTPONE then ''EDU_RICE_BOLD_SERVICE_PUSH_REPLY_CMD_POSTPONE''
      else if v = PUSH_REPLY_CMD_DENY then ''EDU_RICE_BOLD_SERVICE_PUSH_REPLY_CMD_DENY''
      else fmt_ld (to_s32 v))"

lemmas cmd_defs = PUSH_REPLY_CMD_PUSH_def PUSH_REPLY_CMD_POSTPONE_def PUSH_REPLY_CMD_DENY_def

definition bcd_info_instance_init :: BcdInfo where
  "bcd_info_instance_init = \<lparr>bi_id = None, bi_isset_id = False, bi_size = 0, bi_isset_size = False\<rparr>"

text \<open>\<^verbatim>\<open>cmd\<close> is the one field that is not set: it is the zero of the new object.\<close>

definition push_reply_instance_init :: PushReply where
  "push_reply_instance_init = \<lparr>pr_xid = 0, pr_isset_xid = False, pr_cmd = 0, pr_isset_cmd = False\<rparr>"

definition push_args_instance_init :: PushArgs where
  "push_args_instance_init = \<lparr>pa_master = None, pa_isset_master = False, pa_slaves = {}, pa_isset_slaves = False,
     pa_data = bcd_info_instance_init, pa_isset_data = False\<rparr>"

definition push_result_instance_init :: PushResult where
  "push_result_instance_init = \<lparr>ps_success = push_reply_instance_init, ps_isset_success = False\<rparr>"

definition unpush_args_instance_init :: UnpushArgs where
  "unpush_args_instance_init = \<lparr>ua_xid = 0, ua_isset_xid = False\<rparr>"

subsection \<open>Properties\<close>

text \<open>A property is known by its number, as \<^verbatim>\<open>class_init\<close> installs it; GObject has checked the type of the value.\<close>

datatype gvalue = GString "string option" | GInt u32 | GBoxed "string set" | GInfo BcdInfo | GReply PushReply

definition PROP_BCD_INFO_ID :: nat where "PROP_BCD_INFO_ID = 1"
definition PROP_BCD_INFO_SIZE :: nat where "PROP_BCD_INFO_SIZE = 2"
definition PROP_PUSH_REPLY_XID :: nat where "PROP_PUSH_REPLY_XID = 1"
definition PROP_PUSH_REPLY_CMD :: nat where "PROP_PUSH_REPLY_CMD = 2"
definition PROP_PUSH_ARGS_MASTER :: nat where "PROP_PUSH_ARGS_MASTER = 1"
definition PROP_PUSH_ARGS_SLAVES :: nat where "PROP_PUSH_ARGS_SLAVES = 2"
definition PROP_PUSH_ARGS_DATA :: nat where "PROP_PUSH_ARGS_DATA = 3"
definition PROP_PUSH_RESULT_SUCCESS :: nat where "PROP_PUSH_RESULT_SUCCESS = 1"
definition PROP_UNPUSH_ARGS_XID :: nat where "PROP_UNPUSH_ARGS_XID = 1"

lemmas prop_defs = PROP_BCD_INFO_ID_def PROP_BCD_INFO_SIZE_def PROP_PUSH_REPLY_XID_def PROP_PUSH_REPLY_CMD_def
  PROP_PUSH_ARGS_MASTER_def PROP_PUSH_ARGS_SLAVES_def PROP_PUSH_ARGS_DATA_def PROP_PUSH_RESULT_SUCCESS_def PROP_UNPUSH_ARGS_XID_def

definition bcd_info_set_property :: "nat \<Rightarrow> gvalue \<Rightarrow> BcdInfo \<Rightarrow> BcdInfo" where
  "bcd_info_set_property pid v b = (case v of
       GString s \<Rightarrow> if pid = PROP_BCD_INFO_ID then b\<lparr>bi_id := s, bi_isset_id := True\<rparr> else b
     | GInt n \<Rightarrow> if pid = PROP_BCD_INFO_SIZE then b\<lparr>bi_size := n, bi_isset_size := True\<rparr> else b
     | _ \<Rightarrow> b)"

definition bcd_info_get_property :: "nat \<Rightarrow> BcdInfo \<Rightarrow> gvalue option" where
  "bcd_info_get_property pid b =
     (if pid = PROP_BCD_INFO_ID then Some (GString (bi_id b))
      else if pid = PROP_BCD_INFO_SIZE then Some (GInt (bi_size b)) else None)"

definition push_reply_set_property :: "nat \<Rightarrow> gvalue \<Rightarrow> PushReply \<Rightarrow> PushReply" where
  "push_reply_set_property pid v r = (case v of
       GInt n \<Rightarrow> if pid = PROP_PUSH_REPLY_XID then r\<lparr>pr_xid := n, pr_isset_xid := True\<rparr>
         else if pid = PROP_PUSH_REPLY_CMD then r\<lparr>pr_cmd := n, pr_isset_cmd := True\<rparr> else r
     | _ \<Rightarrow> r)"

definition push_reply_get_property :: "nat \<Rightarrow> PushReply \<Rightarrow> gvalue option" where
  "push_reply_get_property pid r =
     (if pid = PROP_PUSH_REPLY_XID then Some (GInt (pr_xid r))
      else if pid = PROP_PUSH_REPLY_CMD then Some (GInt (pr_cmd r)) else None)"

definition push_args_set_property :: "nat \<Rightarrow> gvalue \<Rightarrow> PushArgs \<Rightarrow> PushArgs" where
  "push_args_set_property pid v a = (case v of
       GString s \<Rightarrow> if pid = PROP_PUSH_ARGS_MASTER then a\<lparr>pa_master := s, pa_isset_master := True\<rparr> else a
     | GBoxed ks \<Rightarrow> if pid = PROP_PUSH_ARGS_SLAVES then a\<lparr>pa_slaves := ks, pa_isset_slaves := True\<rparr> else a
     | GInfo b \<Rightarrow> if pid = PROP_PUSH_ARGS_DATA then a\<lparr>pa_data := b, pa_isset_data := True\<rparr> else a
     | _ \<Rightarrow> a)"

definition push_args_get_property :: "nat \<Rightarrow> PushArgs \<Rightarrow> gvalue option" where
  "push_args_get_property pid a =
     (if pid = PROP_PUSH_ARGS_MASTER then Some (GString (pa_master a))
      else if pid = PROP_PUSH_ARGS_SLAVES then Some (GBoxed (pa_slaves a))
      else if pid = PROP_PUSH_ARGS_DATA then Some (GInfo (pa_data a)) else None)"

definition push_result_set_property :: "nat \<Rightarrow> gvalue \<Rightarrow> PushResult \<Rightarrow> PushResult" where
  "push_result_set_property pid v s = (case v of
       GReply r \<Rightarrow> if pid = PROP_PUSH_RESULT_SUCCESS then s\<lparr>ps_success := r, ps_isset_success := True\<rparr> else s
     | _ \<Rightarrow> s)"

definition push_result_get_property :: "nat \<Rightarrow> PushResult \<Rightarrow> gvalue option" where
  "push_result_get_property pid s = (if pid = PROP_PUSH_RESULT_SUCCESS then Some (GReply (ps_success s)) else None)"

definition unpush_args_set_property :: "nat \<Rightarrow> gvalue \<Rightarrow> UnpushArgs \<Rightarrow> UnpushArgs" where
  "unpush_args_set_property pid v a = (case v of
       GInt n \<Rightarrow> if pid = PROP_UNPUSH_ARGS_XID then a\<lparr>ua_xid := n, ua_isset_xid := True\<rparr> else a
     | _ \<Rightarrow> a)"

definition unpush_args_get_property :: "nat \<Rightarrow> UnpushArgs \<Rightarrow> gvalue option" where
  "unpush_args_get_property pid a = (if pid = PROP_UNPUSH_ARGS_XID then Some (GInt (ua_xid a)) else None)"

subsection \<open>Writing\<close>

definition bcd_info_write :: "'p protocol_ops \<Rightarrow> BcdInfo \<Rightarrow> 'p \<Rightarrow> int \<times> 'p" where
  "bcd_info_write T b = wrun
     [counted (w_struct_begin T ''BcdInfo''),
      counted (w_field_begin T ''id'' T_STRING 1), uncounted (w_string T (bi_id b)), counted (w_field_end T),
      counted (w_field_begin T ''size'' T_I32 2), uncounted (w_i32 T (bi_size b)), counted (w_field_end T),
      counted (w_field_stop T), counted (w_struct_end T)] 0"

definition push_reply_write :: "'p protocol_ops \<Rightarrow> PushReply \<Rightarrow> 'p \<Rightarrow> int \<times> 'p" where
  "push_reply_write T r = wrun
     [counted (w_struct_begin T ''PushReply''),
      counted (w_field_begin T ''xid'' T_I32 1), uncounted (w_i32 T (pr_xid r)), counted (w_field_end T),
      counted (w_field_begin T ''cmd'' T_I32 2), uncounted (w_i32 T (pr_cmd r)), counted (w_field_end T),
      counted (w_field_stop T), counted (w_struct_end T)] 0"

definition push_args_write :: "'p protocol_ops \<Rightarrow> (string set \<Rightarrow> string list) \<Rightarrow> PushArgs \<Rightarrow> 'p \<Rightarrow> int \<times> 'p" where
  "push_args_write T keys a = wrun
     ([counted (w_struct_begin T ''BcdServicePushArgs''),
       counted (w_field_begin T ''master'' T_STRING 1), uncounted (w_string T (pa_master a)), counted (w_field_end T),
       counted (w_field_begin T ''slaves'' T_SET 2)] @ write_strings T keys (pa_slaves a)
      @ [counted (w_field_end T),
         counted (w_field_begin T ''data'' T_STRUCT 3), counted (bcd_info_write T (pa_data a)), counted (w_field_end T),
         counted (w_field_stop T), counted (w_struct_end T)]) 0"

definition push_result_write :: "'p protocol_ops \<Rightarrow> PushResult \<Rightarrow> 'p \<Rightarrow> int \<times> 'p" where
  "push_result_write T s = wrun
     ([counted (w_struct_begin T ''BcdServicePushResult'')]
      @ (if ps_isset_success s
         then [counted (w_field_begin T ''success'' T_STRUCT 0), counted (push_reply_write T (ps_success s)), counted (w_field_end T)]
         else [])
      @ [counted (w_field_stop T), counted (w_struct_end T)]) 0"

definition unpush_args_write :: "'p protocol_ops \<Rightarrow> UnpushArgs \<Rightarrow> 'p \<Rightarrow> int \<times> 'p" where
  "unpush_args_write T a = wrun
     [counted (w_struct_begin T ''BcdServiceUnpushArgs''),
      counted (w_field_begin T ''xid'' T_I32 1), uncounted (w_i32 T (ua_xid a)), counted (w_field_end T),
      counted (w_field_stop T), counted (w_struct_end T)] 0"

subsection \<open>Reading\<close>

definition bcd_info_field :: "'p protocol_ops \<Rightarrow> ttype \<Rightarrow> int \<Rightarrow> BcdInfo \<Rightarrow> 'p \<Rightarrow> (int \<times> BcdInfo \<times> 'p) res option" where
  "bcd_info_field T ty fid b p =
     (if fid = 1 \<and> ty = T_STRING then (case r_string T None p of (r, s, p) \<Rightarrow>
        Some (Inr (r, if r < 0 then b\<lparr>bi_id := s\<rparr> else b\<lparr>bi_id := s, bi_isset_id := True\<rparr>, p)))
      else if fid = 2 \<and> ty = T_I32 then (case r_i32 T (bi_size b) p of (r, n, p) \<Rightarrow>
        Some (Inr (r, if r < 0 then b\<lparr>bi_size := n\<rparr> else b\<lparr>bi_size := n, bi_isset_size := True\<rparr>, p)))
      else skip_field T ty b p)"

definition bcd_info_read :: "'p protocol_ops \<Rightarrow> BcdInfo \<Rightarrow> 'p \<Rightarrow> (int \<times> BcdInfo \<times> 'p) res option" where
  "bcd_info_read T = read_struct T (bcd_info_field T)"

text \<open>The command is read into a variable of its own: it is stored only when the read succeeded.\<close>

definition push_reply_field :: "'p protocol_ops \<Rightarrow> ttype \<Rightarrow> int \<Rightarrow> PushReply \<Rightarrow> 'p \<Rightarrow> (int \<times> PushReply \<times> 'p) res option" where
  "push_reply_field T ty fid rp p =
     (if fid = 1 \<and> ty = T_I32 then (case r_i32 T (pr_xid rp) p of (r, n, p) \<Rightarrow>
        Some (Inr (r, if r < 0 then rp\<lparr>pr_xid := n\<rparr> else rp\<lparr>pr_xid := n, pr_isset_xid := True\<rparr>, p)))
      else if fid = 2 \<and> ty = T_I32 then (case r_i32 T 0 p of (r, n, p) \<Rightarrow>
        Some (Inr (r, if r < 0 then rp else rp\<lparr>pr_cmd := n, pr_isset_cmd := True\<rparr>, p)))
      else skip_field T ty rp p)"

definition push_reply_read :: "'p protocol_ops \<Rightarrow> PushReply \<Rightarrow> 'p \<Rightarrow> (int \<times> PushReply \<times> 'p) res option" where
  "push_reply_read T = read_struct T (push_reply_field T)"

definition push_args_field :: "'p protocol_ops \<Rightarrow> ttype \<Rightarrow> int \<Rightarrow> PushArgs \<Rightarrow> 'p \<Rightarrow> (int \<times> PushArgs \<times> 'p) res option" where
  "push_args_field T ty fid a p =
     (if fid = 1 \<and> ty = T_STRING then (case r_string T None p of (r, s, p) \<Rightarrow>
        Some (Inr (r, if r < 0 then a\<lparr>pa_master := s\<rparr> else a\<lparr>pa_master := s, pa_isset_master := True\<rparr>, p)))
      else if fid = 2 \<and> ty = T_SET then ro_bind (Some (read_set T (pa_slaves a) p)) (\<lambda>(r, ks, p).
        Some (Inr (r, if r < 0 then a\<lparr>pa_slaves := ks\<rparr> else a\<lparr>pa_slaves := ks, pa_isset_slaves := True\<rparr>, p)))
      else if fid = 3 \<and> ty = T_STRUCT then ro_bind (bcd_info_read T (pa_data a) p) (\<lambda>(r, b, p).
        Some (Inr (r, if r < 0 then a\<lparr>pa_data := b\<rparr> else a\<lparr>pa_data := b, pa_isset_data := True\<rparr>, p)))
      else skip_field T ty a p)"

definition push_args_read :: "'p protocol_ops \<Rightarrow> PushArgs \<Rightarrow> 'p \<Rightarrow> (int \<times> PushArgs \<times> 'p) res option" where
  "push_args_read T = read_struct T (push_args_field T)"

definition push_result_field :: "'p protocol_ops \<Rightarrow> ttype \<Rightarrow> int \<Rightarrow> PushResult \<Rightarrow> 'p \<Rightarrow> (int \<times> PushResult \<times> 'p) res option" where
  "push_result_field T ty fid s p =
     (if fid = 0 \<and> ty = T_STRUCT then ro_bind (push_reply_read T (ps_success s) p) (\<lambda>(r, rp, p).
        Some (Inr (r, if r < 0 then s\<lparr>ps_success := rp\<rparr> else s\<lparr>ps_success := rp, ps_isset_success := True\<rparr>, p)))
      else skip_field T ty s p)"

definition push_result_read :: "'p protocol_ops \<Rightarrow> PushResult \<Rightarrow> 'p \<Rightarrow> (int \<times> PushResult \<times> 'p) res option" where
  "push_result_read T = read_struct T (push_result_field T)"

definition unpush_args_field :: "'p protocol_ops \<Rightarrow> ttype \<Rightarrow> int \<Rightarrow> UnpushArgs \<Rightarrow> 'p \<Rightarrow> (int \<times> UnpushArgs \<times> 'p) res option" where
  "unpush_args_field T ty fid a p =
     (if fid = 1 \<and> ty = T_I32 then (case r_i32 T (ua_xid a) p of (r, n, p) \<Rightarrow>
        Some (Inr (r, if r < 0 then a\<lparr>ua_xid := n\<rparr> else a\<lparr>ua_xid := n, ua_isset_xid := True\<rparr>, p)))
      else skip_field T ty a p)"

definition unpush_args_read :: "'p protocol_ops \<Rightarrow> UnpushArgs \<Rightarrow> 'p \<Rightarrow> (int \<times> UnpushArgs \<times> 'p) res option" where
  "unpush_args_read T = read_struct T (unpush_args_field T)"

subsection \<open>What is written can be read\<close>

text \<open>The tokens of a struct; those of arguments follow the order in which the library lists the set.\<close>

definition bcd_info_tokens :: "BcdInfo \<Rightarrow> token list" where
  "bcd_info_tokens b = [KStruct, KField T_STRING 1, KStr (the (bi_id b)), KFieldEnd, KField T_I32 2, KI32 (bi_size b), KFieldEnd,
     KStop, KStructEnd]"

definition push_reply_tokens :: "PushReply \<Rightarrow> token list" where
  "push_reply_tokens r = [KStruct, KField T_I32 1, KI32 (pr_xid r), KFieldEnd, KField T_I32 2, KI32 (pr_cmd r), KFieldEnd,
     KStop, KStructEnd]"

definition push_args_tokens :: "string \<Rightarrow> string list \<Rightarrow> BcdInfo \<Rightarrow> token list" where
  "push_args_tokens ma ks b = [KStruct, KField T_STRING 1, KStr ma, KFieldEnd, KField T_SET 2, KSet T_STRING (of_nat (length ks))]
     @ map KStr ks @ [KSetEnd, KFieldEnd, KField T_STRUCT 3] @ bcd_info_tokens b @ [KFieldEnd, KStop, KStructEnd]"

definition push_result_tokens :: "PushReply \<Rightarrow> token list" where
  "push_result_tokens r = [KStruct, KField T_STRUCT 0] @ push_reply_tokens r @ [KFieldEnd, KStop, KStructEnd]"

definition unpush_args_tokens :: "u32 \<Rightarrow> token list" where
  "unpush_args_tokens n = [KStruct, KField T_I32 1, KI32 n, KFieldEnd, KStop, KStructEnd]"

text \<open>What the marks say after a read.\<close>

definition bcd_info_set :: "BcdInfo \<Rightarrow> BcdInfo" where
  "bcd_info_set b = b\<lparr>bi_isset_id := True, bi_isset_size := True\<rparr>"

definition push_reply_set :: "PushReply \<Rightarrow> PushReply" where
  "push_reply_set r = r\<lparr>pr_isset_xid := True, pr_isset_cmd := True\<rparr>"

context thrift_protocol begin

lemma bcd_info_write_puts: "bi_id b = Some s \<Longrightarrow> puts sent got (bcd_info_write T b) (bcd_info_tokens b)"
  using wrun_puts [of sent got "[counted (w_struct_begin T ''BcdInfo''),
      counted (w_field_begin T ''id'' T_STRING 1), uncounted (w_string T (bi_id b)), counted (w_field_end T),
      counted (w_field_begin T ''size'' T_I32 2), uncounted (w_i32 T (bi_size b)), counted (w_field_end T),
      counted (w_field_stop T), counted (w_struct_end T)]" "map (\<lambda>t. [t]) (bcd_info_tokens b)" 0]
  by (simp add: bcd_info_write_def bcd_info_tokens_def put_laws)

lemma push_reply_write_puts: "puts sent got (push_reply_write T r) (push_reply_tokens r)"
  using wrun_puts [of sent got "[counted (w_struct_begin T ''PushReply''),
      counted (w_field_begin T ''xid'' T_I32 1), uncounted (w_i32 T (pr_xid r)), counted (w_field_end T),
      counted (w_field_begin T ''cmd'' T_I32 2), uncounted (w_i32 T (pr_cmd r)), counted (w_field_end T),
      counted (w_field_stop T), counted (w_struct_end T)]" "map (\<lambda>t. [t]) (push_reply_tokens r)" 0]
  by (simp add: push_reply_write_def push_reply_tokens_def put_laws)

lemma push_result_write_puts:
  assumes "ps_isset_success s"
  shows "puts sent got (push_result_write T s) (push_result_tokens (ps_success s))"
  using wrun_puts [of sent got "[counted (w_struct_begin T ''BcdServicePushResult''), counted (w_field_begin T ''success'' T_STRUCT 0),
      counted (push_reply_write T (ps_success s)), counted (w_field_end T), counted (w_field_stop T), counted (w_struct_end T)]"
      "[[KStruct], [KField T_STRUCT 0], push_reply_tokens (ps_success s), [KFieldEnd], [KStop], [KStructEnd]]" 0] assms
  by (simp add: push_result_write_def push_result_tokens_def put_laws push_reply_write_puts)

lemma unpush_args_write_puts: "puts sent got (unpush_args_write T a) (unpush_args_tokens (ua_xid a))"
  using wrun_puts [of sent got "[counted (w_struct_begin T ''BcdServiceUnpushArgs''),
      counted (w_field_begin T ''xid'' T_I32 1), uncounted (w_i32 T (ua_xid a)), counted (w_field_end T),
      counted (w_field_stop T), counted (w_struct_end T)]" "map (\<lambda>t. [t]) (unpush_args_tokens (ua_xid a))" 0]
  by (simp add: unpush_args_write_def unpush_args_tokens_def put_laws)

text \<open>The readers: each field, then the fields in the order in which they were written.\<close>

lemma bcd_info_read_reads:
  assumes "bi_id b = Some s" "s \<noteq> []"
  shows "reads sent got (bcd_info_read T b0) (bcd_info_tokens b) (bcd_info_set b)"
proof -
  define b1 where "b1 = b0\<lparr>bi_id := Some s, bi_isset_id := True\<rparr>"
  have 1: "reads sent got (bcd_info_field T T_STRING 1 b0) [KStr s] b1"
    unfolding reads_def by (auto simp: bcd_info_field_def b1_def dest!: takesD [OF take_laws(10) [OF assms(2), where old = None]])
  have 2: "reads sent got (bcd_info_field T T_I32 2 b1) [KI32 (bi_size b)] (bcd_info_set b)"
    unfolding reads_def using assms(1)
    by (cases b) (auto simp: bcd_info_field_def b1_def bcd_info_set_def dest!: takesD [OF take_laws(11) [where i = "bi_size b0"]])
  have "reads sent got (read_fields T (bcd_info_field T) x b0)
      (KField T_STRING 1 # [KStr s] @ KFieldEnd # KField T_I32 2 # [KI32 (bi_size b)] @ KFieldEnd # [KStop]) (bcd_info_set b)"
    if "0 \<le> x" for x using that by (intro reads_field [where field = "bcd_info_field T", OF 1] reads_field [where field = "bcd_info_field T", OF 2] reads_stop) simp_all
  from reads_struct [OF this] show ?thesis using assms(1) by (simp add: bcd_info_read_def bcd_info_tokens_def)
qed

lemma push_reply_read_reads: "reads sent got (push_reply_read T r0) (push_reply_tokens r) (push_reply_set r)"
proof -
  define r1 where "r1 = r0\<lparr>pr_xid := pr_xid r, pr_isset_xid := True\<rparr>"
  have 1: "reads sent got (push_reply_field T T_I32 1 r0) [KI32 (pr_xid r)] r1"
    unfolding reads_def by (auto simp: push_reply_field_def r1_def dest!: takesD [OF take_laws(11) [where i = "pr_xid r0"]])
  have 2: "reads sent got (push_reply_field T T_I32 2 r1) [KI32 (pr_cmd r)] (push_reply_set r)"
    unfolding reads_def
    by (cases r) (auto simp: push_reply_field_def r1_def push_reply_set_def dest!: takesD [OF take_laws(11) [where i = 0]])
  have "reads sent got (read_fields T (push_reply_field T) x r0)
      (KField T_I32 1 # [KI32 (pr_xid r)] @ KFieldEnd # KField T_I32 2 # [KI32 (pr_cmd r)] @ KFieldEnd # [KStop]) (push_reply_set r)"
    if "0 \<le> x" for x using that by (intro reads_field [where field = "push_reply_field T", OF 1] reads_field [where field = "push_reply_field T", OF 2] reads_stop) simp_all
  from reads_struct [OF this] show ?thesis by (simp add: push_reply_read_def push_reply_tokens_def)
qed

lemma unpush_args_read_reads:
  "reads sent got (unpush_args_read T a0) (unpush_args_tokens n) \<lparr>ua_xid = n, ua_isset_xid = True\<rparr>"
proof -
  have 1: "reads sent got (unpush_args_field T T_I32 1 a0) [KI32 n] \<lparr>ua_xid = n, ua_isset_xid = True\<rparr>"
    unfolding reads_def by (auto simp: unpush_args_field_def dest!: takesD [OF take_laws(11) [where i = "ua_xid a0"]])
  have "reads sent got (read_fields T (unpush_args_field T) x a0)
      (KField T_I32 1 # [KI32 n] @ KFieldEnd # [KStop]) \<lparr>ua_xid = n, ua_isset_xid = True\<rparr>"
    if "0 \<le> x" for x using that by (intro reads_field [where field = "unpush_args_field T", OF 1] reads_stop) simp_all
  from reads_struct [OF this] show ?thesis by (simp add: unpush_args_read_def unpush_args_tokens_def)
qed

lemma push_args_read_reads:
  assumes "ma \<noteq> []" "[] \<notin> set ks" "length ks < 2 ^ 32" "bi_id b = Some s" "s \<noteq> []"
  shows "reads sent got (push_args_read T push_args_instance_init) (push_args_tokens ma ks b)
    \<lparr>pa_master = Some ma, pa_isset_master = True, pa_slaves = set ks, pa_isset_slaves = True, pa_data = bcd_info_set b, pa_isset_data = True\<rparr>"
    (is "reads _ _ _ _ ?a")
proof -
  define a1 where "a1 = push_args_instance_init\<lparr>pa_master := Some ma, pa_isset_master := True\<rparr>"
  define a2 where "a2 = a1\<lparr>pa_slaves := set ks, pa_isset_slaves := True\<rparr>"
  have 1: "reads sent got (push_args_field T T_STRING 1 push_args_instance_init) [KStr ma] a1"
    unfolding reads_def by (auto simp: push_args_field_def a1_def dest!: takesD [OF take_laws(10) [OF assms(1), where old = None]])
  have 2: "reads sent got (push_args_field T T_SET 2 a1) (KSet T_STRING (of_nat (length ks)) # map KStr ks @ [KSetEnd]) a2"
    unfolding reads_def
    by (auto simp: push_args_field_def a1_def a2_def push_args_instance_init_def dest!: read_set_takes [OF _ assms(2,3), where A = "{}"])
  have 3: "reads sent got (push_args_field T T_STRUCT 3 a2) (bcd_info_tokens b) ?a"
    unfolding reads_def
    by (auto simp: push_args_field_def a1_def a2_def push_args_instance_init_def
        dest!: readsD [OF bcd_info_read_reads [OF assms(4,5), of bcd_info_instance_init]])
  have f3: "reads sent got (read_fields T (push_args_field T) y a2) (KField T_STRUCT 3 # bcd_info_tokens b @ KFieldEnd # [KStop]) ?a"
    if "0 \<le> y" for y using that by (intro reads_field [where field = "push_args_field T", OF 3] reads_stop) simp_all
  have f2: "reads sent got (read_fields T (push_args_field T) y a1) (KField T_SET 2 # (KSet T_STRING (of_nat (length ks)) # map KStr ks @ [KSetEnd])
      @ KFieldEnd # (KField T_STRUCT 3 # bcd_info_tokens b @ KFieldEnd # [KStop])) ?a"
    if "0 \<le> y" for y using that by (intro reads_field [where field = "push_args_field T", OF 2] f3) simp_all
  have "reads sent got (read_fields T (push_args_field T) x push_args_instance_init)
      (KField T_STRING 1 # [KStr ma] @ KFieldEnd # (KField T_SET 2 # (KSet T_STRING (of_nat (length ks)) # map KStr ks @ [KSetEnd])
       @ KFieldEnd # (KField T_STRUCT 3 # bcd_info_tokens b @ KFieldEnd # [KStop]))) ?a"
    if "0 \<le> x" for x using that by (intro reads_field [where field = "push_args_field T", OF 1] f2) simp_all
  from reads_struct [OF this] show ?thesis by (simp add: push_args_read_def push_args_tokens_def)
qed

end

end
