(* ===== verification/BcdService.thy ===== *)
theory BcdService
  imports BcdTypes
begin

text \<open>
  The service of the controller (\<^verbatim>\<open>gen-c_glib/edu_rice_bold_service_bcd_service.c\<close>): the client, with which the agent calls, and the
  processor, which reads a call, asks a handler and writes its answer.  Input and output protocol are the two ways of one connection.
\<close>

subsection \<open>The objects\<close>

text \<open>The client with its protocols, and the processor with its handler; objects are referred to, so that a value is a pointer.\<close>

record 'p BcdServiceClient =
  input_protocol :: "'p option"
  output_protocol :: "'p option"

definition PROP_CLIENT_INPUT_PROTOCOL :: nat where "PROP_CLIENT_INPUT_PROTOCOL = 1"
definition PROP_CLIENT_OUTPUT_PROTOCOL :: nat where "PROP_CLIENT_OUTPUT_PROTOCOL = 2"
definition PROP_PROCESSOR_HANDLER :: nat where "PROP_PROCESSOR_HANDLER = 1"

definition client_init :: "'p BcdServiceClient" where
  "client_init = \<lparr>input_protocol = None, output_protocol = None\<rparr>"

definition client_set_property :: "nat \<Rightarrow> 'p option \<Rightarrow> 'p BcdServiceClient \<Rightarrow> 'p BcdServiceClient" where
  "client_set_property pid v c =
     (if pid = PROP_CLIENT_INPUT_PROTOCOL then c\<lparr>input_protocol := v\<rparr>
      else if pid = PROP_CLIENT_OUTPUT_PROTOCOL then c\<lparr>output_protocol := v\<rparr> else c)"

definition client_get_property :: "nat \<Rightarrow> 'p BcdServiceClient \<Rightarrow> 'p option option" where
  "client_get_property pid c =
     (if pid = PROP_CLIENT_INPUT_PROTOCOL then Some (input_protocol c)
      else if pid = PROP_CLIENT_OUTPUT_PROTOCOL then Some (output_protocol c) else None)"

record 'h BcdServiceProcessor =
  proc_handler :: "'h option"

definition processor_init :: "'h BcdServiceProcessor" where
  "processor_init = \<lparr>proc_handler = None\<rparr>"

definition processor_set_property :: "nat \<Rightarrow> 'h option \<Rightarrow> 'h BcdServiceProcessor \<Rightarrow> 'h BcdServiceProcessor" where
  "processor_set_property pid v c = (if pid = PROP_PROCESSOR_HANDLER then c\<lparr>proc_handler := v\<rparr> else c)"

definition processor_get_property :: "nat \<Rightarrow> 'h BcdServiceProcessor \<Rightarrow> 'h option option" where
  "processor_get_property pid c = (if pid = PROP_PROCESSOR_HANDLER then Some (proc_handler c) else None)"

definition processor_dispose :: "'h BcdServiceProcessor \<Rightarrow> 'h BcdServiceProcessor" where
  "processor_dispose c = c\<lparr>proc_handler := None\<rparr>"

text \<open>The client that the agent makes has one protocol for both ways, and that is what the calls below are given.\<close>

lemma client_one_protocol:
  "client_get_property pid (client_set_property PROP_CLIENT_OUTPUT_PROTOCOL (Some p) (client_set_property PROP_CLIENT_INPUT_PROTOCOL (Some p) client_init))
     = (if pid = PROP_CLIENT_INPUT_PROTOCOL \<or> pid = PROP_CLIENT_OUTPUT_PROTOCOL then Some (Some p) else None)"
  by (simp add: client_get_property_def client_set_property_def client_init_def PROP_CLIENT_INPUT_PROTOCOL_def PROP_CLIENT_OUTPUT_PROTOCOL_def)

subsection \<open>The client\<close>

definition client_send_push :: "'p protocol_ops \<Rightarrow> (string set \<Rightarrow> string list) \<Rightarrow> string option \<Rightarrow> string set \<Rightarrow> BcdInfo \<Rightarrow> 'p \<Rightarrow> bool \<times> 'p" where
  "client_send_push T keys master sl b = chain
     [nonneg (w_message_begin T ''push'' T_CALL 0),
      nonneg (wrun
        ([counted (w_struct_begin T ''push_args''),
          counted (w_field_begin T ''master'' T_STRING 1), uncounted (w_string T master), counted (w_field_end T),
          counted (w_field_begin T ''slaves'' T_SET 2)] @ write_strings T keys sl
         @ [counted (w_field_end T),
            counted (w_field_begin T ''data'' T_STRUCT 3), counted (bcd_info_write T b), counted (w_field_end T),
            counted (w_field_stop T), counted (w_struct_end T)]) 0),
      nonneg (w_message_end T), t_flush T, t_write_end T]"

text \<open>The result of the call is field 0; a result without it is no error.\<close>

definition recv_push_field :: "'p protocol_ops \<Rightarrow> ttype \<Rightarrow> int \<Rightarrow> PushReply \<Rightarrow> 'p \<Rightarrow> (int \<times> PushReply \<times> 'p) res option" where
  "recv_push_field T ty fid rp p = (if fid = 0 \<and> ty = T_STRUCT then push_reply_read T rp p else skip_field T ty rp p)"

text \<open>The end of a message that is no reply; whether it can be read does not matter.\<close>

definition drop_message :: "'p protocol_ops \<Rightarrow> ('p \<Rightarrow> int \<times> 'p) \<Rightarrow> 'p \<Rightarrow> 'p" where
  "drop_message T body p = snd (t_read_end T (snd (r_message_end T (snd (body p)))))"

definition client_recv_push :: "'p protocol_ops \<Rightarrow> PushReply \<Rightarrow> 'p \<Rightarrow> (bool \<times> PushReply \<times> 'p) res option" where
  "client_recv_push T rp p = (case r_message_begin T p of (r, (fname, mt, _), p) \<Rightarrow>
     if r < 0 then Some (Inr (False, rp, p))
     else if mt = T_EXCEPTION then Some (Inr (False, rp, drop_message T (x_read T) p))
     else if mt \<noteq> T_REPLY then Some (Inr (False, rp, drop_message T (r_skip T T_STRUCT) p))
     else if take 4 fname \<noteq> ''push'' then Some (Inr (False, rp, drop_message T (r_skip T T_STRUCT) p))
     else ro_bind (read_struct T (recv_push_field T) rp p) (\<lambda>(x, rp, p).
       if x < 0 then Some (Inr (False, rp, p))
       else (case r_message_end T p of (r, p) \<Rightarrow>
         if r < 0 then Some (Inr (False, rp, p))
         else (case t_read_end T p of (ok, p) \<Rightarrow> Some (Inr (ok, rp, p))))))"

definition client_push :: "'p protocol_ops \<Rightarrow> (string set \<Rightarrow> string list) \<Rightarrow> PushReply \<Rightarrow> string option \<Rightarrow> string set \<Rightarrow> BcdInfo \<Rightarrow> 'p
    \<Rightarrow> (bool \<times> PushReply \<times> 'p) res option" where
  "client_push T keys rp master sl b p = (case client_send_push T keys master sl b p of (ok, p) \<Rightarrow>
     if ok then client_recv_push T rp p else Some (Inr (False, rp, p)))"

definition client_send_unpush :: "'p protocol_ops \<Rightarrow> u32 \<Rightarrow> 'p \<Rightarrow> bool \<times> 'p" where
  "client_send_unpush T xid = chain
     [nonneg (w_message_begin T ''unpush'' T_ONEWAY 0),
      nonneg (wrun
        [counted (w_struct_begin T ''unpush_args''),
         counted (w_field_begin T ''xid'' T_I32 1), uncounted (w_i32 T xid), counted (w_field_end T),
         counted (w_field_stop T), counted (w_struct_end T)] 0),
      nonneg (w_message_end T), t_flush T, t_write_end T]"

definition client_unpush :: "'p protocol_ops \<Rightarrow> u32 \<Rightarrow> 'p \<Rightarrow> bool \<times> 'p" where
  "client_unpush T xid p = (case client_send_unpush T xid p of (ok, p) \<Rightarrow> (if ok then True else False, p))"

subsection \<open>The processor\<close>

text \<open>What the implementation of the service answers: whether it succeeded, the reply, made of the object it is given, and
  the error, if there is one.\<close>

type_synonym push_handler = "string option \<Rightarrow> string set \<Rightarrow> BcdInfo \<Rightarrow> PushReply \<Rightarrow> bool \<times> PushReply \<times> (int \<times> string) option"
type_synonym unpush_handler = "u32 \<Rightarrow> bool \<times> (int \<times> string) option"

definition process_push :: "'p protocol_ops \<Rightarrow> push_handler \<Rightarrow> u32 \<Rightarrow> 'p \<Rightarrow> (bool \<times> 'p) res option" where
  "process_push T h sq p = ro_bind (push_args_read T push_args_instance_init p) (\<lambda>(x, a, p).
     if x = -1 then Some (Inr (False, p))
     else Some (Inr (case chain [not_m1 (r_message_end T), t_read_end T] p of (ok, p) \<Rightarrow>
       if \<not> ok then (False, p)
       else (case h (pa_master a) (pa_slaves a) (pa_data a) (ps_success push_result_instance_init) of (ok, rp, err) \<Rightarrow>
         chain ((if ok
             then [not_m1 (w_message_begin T ''push'' T_REPLY sq),
                   not_m1 (push_result_write T (push_result_set_property PROP_PUSH_RESULT_SUCCESS (GReply rp) push_result_instance_init))]
             else [not_m1 (w_message_begin T ''push'' T_EXCEPTION sq), not_m1 (x_write T err)])
           @ [not_m1 (w_message_end T), t_write_end T, t_flush T]) p))))"

text \<open>A oneway call has no reply, but an exception is written; nothing ends or flushes that message.\<close>

definition process_unpush :: "'p protocol_ops \<Rightarrow> unpush_handler \<Rightarrow> u32 \<Rightarrow> 'p \<Rightarrow> (bool \<times> 'p) res option" where
  "process_unpush T h sq p = ro_bind (unpush_args_read T unpush_args_instance_init p) (\<lambda>(x, a, p).
     if x = -1 then Some (Inr (False, p))
     else Some (Inr (case chain [not_m1 (r_message_end T), t_read_end T] p of (ok, p) \<Rightarrow>
       if \<not> ok then (False, p)
       else (case h (ua_xid a) of (ok, err) \<Rightarrow>
         if ok then (True, p)
         else chain [not_m1 (w_message_begin T ''unpush'' T_EXCEPTION sq), not_m1 (x_write T err)] p))))"

text \<open>The table of the processor, and the call of what it finds; \<open>parent\<close> is the dispatch of the class above.\<close>

definition process_map :: "'p protocol_ops \<Rightarrow> push_handler \<Rightarrow> unpush_handler \<Rightarrow> string \<rightharpoonup> (u32 \<Rightarrow> 'p \<Rightarrow> (bool \<times> 'p) res option)" where
  "process_map T h hu = [''push'' \<mapsto> process_push T h, ''unpush'' \<mapsto> process_unpush T hu]"

definition dispatch_call :: "'p protocol_ops \<Rightarrow> push_handler \<Rightarrow> unpush_handler \<Rightarrow> (string \<Rightarrow> u32 \<Rightarrow> 'p \<Rightarrow> (bool \<times> 'p) res option)
    \<Rightarrow> string \<Rightarrow> u32 \<Rightarrow> 'p \<Rightarrow> (bool \<times> 'p) res option" where
  "dispatch_call T h hu parent name sq p = (case process_map T h hu name of
       Some f \<Rightarrow> f sq p | None \<Rightarrow> parent name sq p)"

subsection \<open>A call from end to end\<close>

definition push_call_tokens :: "string \<Rightarrow> string list \<Rightarrow> BcdInfo \<Rightarrow> token list" where
  "push_call_tokens ma ks b = KMsg ''push'' T_CALL 0 # push_args_tokens ma ks b @ [KMsgEnd]"

definition push_answer_tokens :: "u32 \<Rightarrow> PushReply \<Rightarrow> token list" where
  "push_answer_tokens sq r = KMsg ''push'' T_REPLY sq # push_result_tokens r @ [KMsgEnd]"

lemma bputsD: "bputs sent got f ts \<Longrightarrow> f p = (True, p') \<Longrightarrow> sent p' = sent p @ ts \<and> got p' = got p"
  unfolding bputs_def by (metis fst_conv snd_conv)

context thrift_protocol begin

lemma client_send_push_sends:
  assumes "set (keys A) = A" "distinct (keys A)" "bi_id b = Some s"
  shows "bputs sent got (client_send_push T keys (Some ma) A b) (push_call_tokens ma (keys A) b)"
proof -
  have n: "card A = length (keys A)" using distinct_card [OF assms(2)] assms(1) by simp
  let ?ws = "[counted (w_struct_begin T ''push_args''),
      counted (w_field_begin T ''master'' T_STRING 1), uncounted (w_string T (Some ma)), counted (w_field_end T),
      counted (w_field_begin T ''slaves'' T_SET 2)] @ write_strings T keys A
     @ [counted (w_field_end T), counted (w_field_begin T ''data'' T_STRUCT 3), counted (bcd_info_write T b), counted (w_field_end T),
        counted (w_field_stop T), counted (w_struct_end T)]"
  let ?ts = "[[KStruct], [KField T_STRING 1], [KStr ma], [KFieldEnd], [KField T_SET 2]]
     @ ([KSet T_STRING (of_nat (card A))] # map (\<lambda>k. [KStr k]) (keys A) @ [[KSetEnd]])
     @ [[KFieldEnd], [KField T_STRUCT 3], bcd_info_tokens b, [KFieldEnd], [KStop], [KStructEnd]]"
  have "list_all2 (\<lambda>w ts. puts sent got (snd w) ts) ?ws ?ts"
    by (intro list_all2_appendI write_strings_puts) (simp_all add: put_laws bcd_info_write_puts [OF assms(3)])
  from wrun_puts [OF this, of 0] have a: "puts sent got (wrun ?ws 0) (push_args_tokens ma (keys A) b)"
    by (simp add: push_args_tokens_def n comp_def flip: map_concat)
  have "list_all2 (bputs sent got) [nonneg (w_message_begin T ''push'' T_CALL 0), nonneg (wrun ?ws 0), nonneg (w_message_end T), t_flush T, t_write_end T]
      [[KMsg ''push'' T_CALL 0], push_args_tokens ma (keys A) b, [KMsgEnd], [], []]"
    using a by (simp add: bputs_nonneg bputs_neutral put_laws end_laws)
  from chain_bputs [OF this] show ?thesis by (simp add: client_send_push_def push_call_tokens_def)
qed

lemma client_send_unpush_sends:
  "bputs sent got (client_send_unpush T xid) (KMsg ''unpush'' T_ONEWAY 0 # unpush_args_tokens xid @ [KMsgEnd])"
proof -
  let ?ws = "[counted (w_struct_begin T ''unpush_args''), counted (w_field_begin T ''xid'' T_I32 1), uncounted (w_i32 T xid),
      counted (w_field_end T), counted (w_field_stop T), counted (w_struct_end T)]"
  have a: "puts sent got (wrun ?ws 0) (unpush_args_tokens xid)"
    using wrun_puts [of sent got ?ws "map (\<lambda>t. [t]) (unpush_args_tokens xid)" 0] by (simp add: unpush_args_tokens_def put_laws)
  have "list_all2 (bputs sent got) [nonneg (w_message_begin T ''unpush'' T_ONEWAY 0), nonneg (wrun ?ws 0), nonneg (w_message_end T), t_flush T, t_write_end T]
      [[KMsg ''unpush'' T_ONEWAY 0], unpush_args_tokens xid, [KMsgEnd], [], []]"
    using a by (simp add: bputs_nonneg bputs_neutral put_laws end_laws)
  from chain_bputs [OF this] show ?thesis by (simp add: client_send_unpush_def)
qed

lemma read_message_end:
  assumes "got p = KMsgEnd # ts"
  shows "\<exists>p'. chain [not_m1 (r_message_end T), t_read_end T] p = (True, p') \<and> got p' = ts \<and> sent p' = sent p"
proof -
  obtain r p1 where 1: "r_message_end T p = (r, p1)" "0 \<le> r" "got p1 = ts" "sent p1 = sent p"
    using takes0D [OF take_laws(2) assms] by blast
  obtain p2 where "t_read_end T p1 = (True, p2)" "got p2 = got p1" "sent p2 = sent p1"
    using read_end_law [of p1] end_laws(3) by (cases "t_read_end T p1") (auto simp: neutral_def dest: spec [of _ p1])
  then show ?thesis using 1 by (simp add: not_m1_def)
qed

text \<open>The processor calls the handler with what the client sent, and writes what the handler replied.\<close>

lemma process_push_answers:
  assumes p: "got p = push_args_tokens ma ks b @ [KMsgEnd]" and args: "ma \<noteq> []" "[] \<notin> set ks" "length ks < 2 ^ 32" "bi_id b = Some s" "s \<noteq> []"
    and h: "h (Some ma) (set ks) (bcd_info_set b) push_reply_instance_init = (True, rp, err)"
    and run: "process_push T h sq p = Some (Inr (True, p'))"
  shows "sent p' = sent p @ push_answer_tokens sq rp"
proof -
  let ?a = "\<lparr>pa_master = Some ma, pa_isset_master = True, pa_slaves = set ks, pa_isset_slaves = True, pa_data = bcd_info_set b, pa_isset_data = True\<rparr>"
  obtain r p1 where 1: "push_args_read T push_args_instance_init p = Some (Inr (r, ?a, p1))" "0 \<le> r" "got p1 = [KMsgEnd]" "sent p1 = sent p"
    using readsD [OF push_args_read_reads [OF args] p] by blast
  obtain p2 where 2: "chain [not_m1 (r_message_end T), t_read_end T] p1 = (True, p2)" "sent p2 = sent p1"
    using read_message_end [OF 1(3)] by blast
  let ?s = "\<lparr>ps_success = rp, ps_isset_success = True\<rparr>"
  let ?fs = "[not_m1 (w_message_begin T ''push'' T_REPLY sq), not_m1 (push_result_write T ?s), not_m1 (w_message_end T), t_write_end T, t_flush T]"
  have "process_push T h sq p = Some (Inr (chain ?fs p2))"
    using 1(1,2) 2(1) h by (simp add: process_push_def push_result_set_property_def push_result_instance_init_def del: chain.simps)
  then have ok: "chain ?fs p2 = (True, p')" using run by simp
  have "list_all2 (bputs sent got) ?fs [[KMsg ''push'' T_REPLY sq], push_result_tokens rp, [KMsgEnd], [], []]"
    using push_result_write_puts [of ?s] by (simp add: bputs_not_m1 bputs_neutral put_laws end_laws)
  from bputsD [OF chain_bputs [OF this] ok] show ?thesis using 2(2) 1(4) by (simp add: push_answer_tokens_def)
qed

lemma client_recv_push_gets:
  assumes "got p = push_answer_tokens sq r @ us"
  shows "\<exists>p'. client_recv_push T rp p = Some (Inr (True, push_reply_set r, p')) \<and> got p' = us"
proof -
  obtain n p1 where 1: "r_message_begin T p = (n, (''push'', T_REPLY, sq), p1)" "0 \<le> n" "got p1 = push_result_tokens r @ KMsgEnd # us"
    using takesD [OF take_laws(1), of p "''push''" T_REPLY sq] assms by (auto simp: push_answer_tokens_def)
  have f: "reads sent got (recv_push_field T T_STRUCT 0 rp) (push_reply_tokens r) (push_reply_set r)"
    using push_reply_read_reads [of rp r] by (simp add: reads_def recv_push_field_def)
  have "reads sent got (read_fields T (recv_push_field T) x rp) (KField T_STRUCT 0 # push_reply_tokens r @ KFieldEnd # [KStop]) (push_reply_set r)"
    if "0 \<le> x" for x using that by (intro reads_field [where field = "recv_push_field T", OF f] reads_stop) simp_all
  from reads_struct [OF this] have "reads sent got (read_struct T (recv_push_field T) rp) (push_result_tokens r) (push_reply_set r)"
    by (simp add: push_result_tokens_def)
  from readsD [OF this 1(3)] obtain y p2 where 2: "read_struct T (recv_push_field T) rp p1 = Some (Inr (y, push_reply_set r, p2))" "0 \<le> y" "got p2 = KMsgEnd # us"
    by blast
  obtain m p3 where 3: "r_message_end T p2 = (m, p3)" "0 \<le> m" "got p3 = us" using takes0D [OF take_laws(2) 2(3)] by blast
  obtain p4 where 4: "t_read_end T p3 = (True, p4)" "got p4 = got p3"
    using read_end_law [of p3] end_laws(3) by (cases "t_read_end T p3") (auto simp: neutral_def dest: spec [of _ p3])
  then show ?thesis using 1 2 3 by (simp add: client_recv_push_def)
qed

text \<open>The oneway call: the handler gets the number that the client sent.\<close>

lemma process_unpush_calls:
  assumes "got p = unpush_args_tokens xid @ [KMsgEnd]"
  shows "\<exists>p'. process_unpush T h sq p = Some (Inr (case h xid of (ok, err) \<Rightarrow>
      if ok then (True, p') else chain [not_m1 (w_message_begin T ''unpush'' T_EXCEPTION sq), not_m1 (x_write T err)] p')) \<and> sent p' = sent p"
proof -
  obtain r p1 where 1: "unpush_args_read T unpush_args_instance_init p = Some (Inr (r, \<lparr>ua_xid = xid, ua_isset_xid = True\<rparr>, p1))"
    "0 \<le> r" "got p1 = [KMsgEnd]" "sent p1 = sent p"
    using readsD [OF unpush_args_read_reads assms] by blast
  obtain p2 where "chain [not_m1 (r_message_end T), t_read_end T] p1 = (True, p2)" "sent p2 = sent p1"
    using read_message_end [OF 1(3)] by blast
  then show ?thesis using 1 by (intro exI [of _ p2]) (simp add: process_unpush_def del: chain.simps)
qed

end

end
