(* ===== verification/Controller.thy ===== *)
theory Controller
  imports BcdService ServiceThread DataChan
begin

text \<open>
  The calls of the service thread to the controller (\<^verbatim>\<open>thread_service.c\<close>): the request for a path before a push, with the
  reply on which \<open>request_path\<close> acts, and the release afterwards.  Each call has a connection of its own; \<open>p\<close> is the connection after
  the attempt to open it, which the calls use whether or not it is open.
\<close>

subsection \<open>The request\<close>

text \<open>The addresses of the receivers, without the host itself.\<close>

definition push_slaves :: "in_addr \<Rightarrow> 's MulticastState \<Rightarrow> string set" where
  "push_slaves host m = inet_ntoa ` (set (take (nat (fan_out_effective (m_msgPshQ m))) (slaves (m_msgPshQ m))) - {host})"

text \<open>\<^verbatim>\<open>g_object_set\<close> takes an \<^verbatim>\<open>int\<close> for the size: the low 32 bits of \<^verbatim>\<open>data_size\<close>.\<close>

definition push_info :: "'s MulticastState \<Rightarrow> BcdInfo" where
  "push_info m = bcd_info_set_property PROP_BCD_INFO_SIZE (GInt (word_of_int (m_data_size m)))
     (bcd_info_set_property PROP_BCD_INFO_ID (GString (Some (m_bcd_filename m))) bcd_info_instance_init)"

definition push_cmd_of :: "u32 \<Rightarrow> push_cmd" where
  "push_cmd_of c = (if c = PUSH_REPLY_CMD_DENY then CMD_DENY else if c = PUSH_REPLY_CMD_POSTPONE then CMD_POSTPONE
     else if c = PUSH_REPLY_CMD_PUSH then CMD_PUSH else CMD_OTHER)"

text \<open>The reply is an object that the call fills; it is read whether or not the call succeeded.\<close>

definition controller_request :: "'p protocol_ops \<Rightarrow> (string set \<Rightarrow> string list) \<Rightarrow> in_addr \<Rightarrow> 's MulticastState \<Rightarrow> 'p
    \<Rightarrow> ((push_cmd \<times> int) \<times> 'p) res option" where
  "controller_request T keys host m p =
     ro_bind (client_push T keys push_reply_instance_init (Some (inet_ntoa (masterinaddr (m_msgIntQ m)))) (push_slaves host m) (push_info m) p)
       (\<lambda>(ok, rp, p). Some (Inr ((push_cmd_of (pr_cmd rp), to_s32 (pr_xid rp)), p)))"

text \<open>\<^verbatim>\<open>request_path\<close> together with the call: it is made for a push that is due, and only with a controller.\<close>

definition request_path_rpc :: "'p protocol_ops \<Rightarrow> (string set \<Rightarrow> string list) \<Rightarrow> ('u, BcdID) skiplist_ops \<Rightarrow> config \<Rightarrow> timeval \<Rightarrow> 'p
    \<Rightarrow> ('q, 's, 'u) agent \<Rightarrow> (('q, 's, 'u) agent \<times> 'p) res option" where
  "request_path_rpc T keys U cf now p g =
     (let run = (\<lambda>reply p. ro_bind (Some (request_path U cf now reply g)) (\<lambda>g. Some (Inr (g, p))))
      in if activeMulticast_p g \<noteq> None then Some (Inr (g, p))
         else (case sk_peek U (queuePush_p g) of None \<Rightarrow> Some (Inr (g, p))
           | Some b \<Rightarrow> ro_deref (hashMulticast g b) (\<lambda>m.
               if timercmp_lt (tv_push m) now \<and> connect_controller cf
               then ro_bind (controller_request T keys (hostinaddress_ctrl cf) m p) (\<lambda>(reply, p). run reply p)
               else run (CMD_PUSH, 0) p)))"

subsection \<open>The release\<close>

definition controller_release :: "'p protocol_ops \<Rightarrow> 's MulticastState \<Rightarrow> 'p \<Rightarrow> 'p" where
  "controller_release T m p = snd (client_unpush T (word_of_int (controller_xid m)) p)"

text \<open>\<^verbatim>\<open>release_path\<close> together with the call.\<close>

definition release_path_rpc :: "'p protocol_ops \<Rightarrow> config \<Rightarrow> timeval \<Rightarrow> 'p \<Rightarrow> ('q, 's, 'u) agent \<Rightarrow> (('q, 's, 'u) agent \<times> 'p) res" where
  "release_path_rpc T cf now p g = rbind (release_path cf now g) (\<lambda>g'.
     Inr (g', case activeMulticast_p g of None \<Rightarrow> p
       | Some b \<Rightarrow> (case hashMulticast g b of None \<Rightarrow> p
           | Some m \<Rightarrow> if bcd_state m = BCDSTATE_DEAD \<and> connect_controller cf then controller_release T m p else p)))"

subsection \<open>Facts\<close>

lemma push_info_eq:
  "push_info m = \<lparr>bi_id = Some (m_bcd_filename m), bi_isset_id = True, bi_size = word_of_int (m_data_size m), bi_isset_size = True\<rparr>"
  by (simp add: push_info_def bcd_info_set_property_def bcd_info_instance_init_def prop_defs)

lemma inet_ntoa_nonempty [simp]: "inet_ntoa a \<noteq> []"
  by (simp add: inet_ntoa_def Let_def)

lemma push_slaves_facts: "finite (push_slaves host m)" "[] \<notin> push_slaves host m"
  "card (push_slaves host m) \<le> nat (fan_out_effective (m_msgPshQ m))"
proof -
  let ?A = "set (take (nat (fan_out_effective (m_msgPshQ m))) (slaves (m_msgPshQ m)))"
  show "finite (push_slaves host m)" by (simp add: push_slaves_def)
  show "[] \<notin> push_slaves host m" by (auto simp: push_slaves_def dest: sym)
  have "card (push_slaves host m) \<le> card (?A - {host})" unfolding push_slaves_def by (rule card_image_le) simp
  also have "\<dots> \<le> card ?A" by (rule card_mono) auto
  also have "\<dots> \<le> nat (fan_out_effective (m_msgPshQ m))" using card_length [of "take (nat (fan_out_effective (m_msgPshQ m))) (slaves (m_msgPshQ m))"] by simp
  finally show "card (push_slaves host m) \<le> nat (fan_out_effective (m_msgPshQ m))" .
qed

text \<open>With the calls, the service thread does what \<open>request_path\<close> does for some reply and what \<open>release_path\<close> does: what is proved of
  these for every reply holds of the code with its calls.\<close>

lemma request_path_rpc_sim:
  assumes "request_path_rpc T keys U cf now p g = Some (Inr (g', p'))"
  shows "\<exists>reply. request_path U cf now reply g = Inr g'"
proof (cases "activeMulticast_p g = None \<and> sk_peek U (queuePush_p g) \<noteq> None")
  case True
  then show ?thesis using assms by (auto simp: request_path_rpc_def ro_iffs Let_def split: if_splits) blast+
next
  case False
  then show ?thesis using assms by (auto simp: request_path_rpc_def request_path_def Let_def split: if_splits)
qed

lemma release_path_rpc_sim: "release_path_rpc T cf now p g = Inr (g', p') \<Longrightarrow> release_path cf now g = Inr g'"
  by (auto simp: release_path_rpc_def rbind_Inr_iff)

text \<open>Whether a reply to \<^verbatim>\<open>push\<close> begins.\<close>

definition reply_begins :: "'p protocol_ops \<Rightarrow> 'p \<Rightarrow> bool" where
  "reply_begins T p \<longleftrightarrow> (case r_message_begin T p of (r, (fname, mt, _), _) \<Rightarrow> 0 \<le> r \<and> mt = T_REPLY \<and> take 4 fname = ''push'')"

lemma no_reply: "\<not> reply_begins T p \<Longrightarrow> \<exists>p'. client_recv_push T rp p = Some (Inr (False, rp, p'))"
  by (auto simp: reply_begins_def client_recv_push_def split: prod.splits)

lemma failed_request:
  assumes "client_send_push T keys (Some (inet_ntoa (masterinaddr (m_msgIntQ m)))) (push_slaves host m) (push_info m) p = (ok, p1)"
    and "\<not> (ok \<and> reply_begins T p1)"
  shows "\<exists>p'. controller_request T keys host m p = Some (Inr ((CMD_PUSH, 0), p'))"
proof -
  have "\<exists>p'. client_push T keys push_reply_instance_init (Some (inet_ntoa (masterinaddr (m_msgIntQ m)))) (push_slaves host m) (push_info m) p
      = Some (Inr (False, push_reply_instance_init, p'))"
    using assms no_reply [of T p1 push_reply_instance_init] by (simp add: client_push_def)
  then show ?thesis by (auto simp: controller_request_def push_reply_instance_init_def push_cmd_of_def cmd_defs to_s32_def)
qed

subsection \<open>Properties\<close>

text \<open>C6: A controller that does not answer grants the path.  The reply that \<^verbatim>\<open>request_path\<close> looks at is the object that was made before
  the call, and its command is zero, which is \<^verbatim>\<open>PUSH\<close>.  So when the request cannot be sent (the controller is down, say), when the
  connection ends before a reply, or when the answer is an exception, the push at the head of the queue that is due becomes the
  active multicast, in state initiated and with transaction 0, just as if the controller had granted it.\<close>

theorem unanswered_request_grants:
  assumes "activeMulticast_p g = None" "sk_peek U (queuePush_p g) = Some b" "hashMulticast g b = Some m"
    and "timercmp_lt (tv_push m) now" "connect_controller cf"
    and "client_send_push T keys (Some (inet_ntoa (masterinaddr (m_msgIntQ m)))) (push_slaves (hostinaddress_ctrl cf) m) (push_info m) p = (ok, p1)"
    and "\<not> (ok \<and> reply_begins T p1)"
  shows "\<exists>g' p' m'. request_path_rpc T keys U cf now p g = Some (Inr (g', p')) \<and> activeMulticast_p g' = Some b
    \<and> hashMulticast g' b = Some m' \<and> bcd_state m' = BCDSTATE_INITIATED \<and> controller_xid m' = 0"
proof -
  obtain p' where "controller_request T keys (hostinaddress_ctrl cf) m p = Some (Inr ((CMD_PUSH, 0), p'))"
    using failed_request [OF assms(6,7)] by blast
  then show ?thesis using assms(1-5) by (simp add: request_path_rpc_def request_path_def push_reply_def Let_def)
qed

theorem unanswered_request_grants_witness:
  "\<exists>g' p'. request_path_rpc mem_protocol (\<lambda>_. []) (cmp_skiplist (\<lambda>_ _. 1)) (example_config2\<lparr>connect_controller := True\<rparr>) (Timeval 5 0) ([], [])
      ((initSharedDataStructures (cmp_skiplist (\<lambda>_ _. 1)) :: (nat, nat list, BcdID list) agent)
        \<lparr>queuePush_p := [zero_id], hashMulticast := [zero_id \<mapsto> zero_multicast []]\<rparr>) = Some (Inr (g', p'))
    \<and> activeMulticast_p g' = Some zero_id"
proof -
  let ?g = "(initSharedDataStructures (cmp_skiplist (\<lambda>_ _. 1)) :: (nat, nat list, BcdID list) agent)
        \<lparr>queuePush_p := [zero_id], hashMulticast := [zero_id \<mapsto> zero_multicast []]\<rparr>"
  let ?m = "zero_multicast [] :: nat list MulticastState"
  obtain ok p1 where s: "client_send_push mem_protocol (\<lambda>_. []) (Some (inet_ntoa (masterinaddr (m_msgIntQ ?m))))
      (push_slaves (hostinaddress_ctrl (example_config2\<lparr>connect_controller := True\<rparr>)) ?m) (push_info ?m) ([], []) = (ok, p1)"
    by (metis surj_pair)
  have bi: "bi_id (push_info ?m) = Some []" by (simp add: push_info_eq zero_multicast_def)
  have "snd p1 = []" if ok
  proof -
    have "push_slaves (hostinaddress_ctrl (example_config2\<lparr>connect_controller := True\<rparr>)) ?m = {}"
      by (simp add: push_slaves_def zero_multicast_def)
    then show ?thesis
      using bputsD [OF mp.client_send_push_sends [where keys = "\<lambda>_. []" and A = "{}" and b = "push_info ?m", OF _ _ bi]] s that by simp
  qed
  then have "\<not> (ok \<and> reply_begins mem_protocol p1)" by (auto simp: reply_begins_def mem_protocol_def take_tok_def)
  from unanswered_request_grants [OF _ _ _ _ _ s this, of ?g "cmp_skiplist (\<lambda>_ _. 1)" zero_id "Timeval 5 0"]
  show ?thesis
    by (auto simp: initSharedDataStructures_def cmp_skiplist_def zero_multicast_def TV0_def timercmp_lt_def)
qed

text \<open>C5: The call is what it should be when the connection works.  Whatever protocol keeps the contract, the processor at the other end
  finds a call of \<^verbatim>\<open>push\<close> and gives its handler the address of the master, the addresses of the receivers other than the host, the name of
  the file and its size modulo \<open>2 ^ 32\<close>; and when the answer of the handler has come back, \<^verbatim>\<open>request_path\<close> gets the command and the
  transaction of that answer.\<close>

theorem request_calls_handler:
  assumes T: "thrift_protocol T sent got" and keys: "set (keys (push_slaves host m)) = push_slaves host m" "distinct (keys (push_slaves host m))"
    and m: "m_bcd_filename m \<noteq> []" "fan_out_effective (m_msgPshQ m) < 2 ^ 31"
    and send: "client_send_push T keys (Some (inet_ntoa (masterinaddr (m_msgIntQ m)))) (push_slaves host m) (push_info m) p = (True, p1)" "sent p = []"
    and arrive: "got q = sent p1" "sent q = []" "r_message_begin T q = (r, (name, mt, sq), q1)"
    and h: "h (Some (inet_ntoa (masterinaddr (m_msgIntQ m)))) (push_slaves host m)
        \<lparr>bi_id = Some (m_bcd_filename m), bi_isset_id = True, bi_size = word_of_int (m_data_size m), bi_isset_size = True\<rparr>
        push_reply_instance_init = (True, rp, err)"
    and serve: "dispatch_call T h hu parent name sq q1 = Some (Inr (True, q2))" and reply: "got p = sent q2"
  shows "name = ''push'' \<and> mt = T_CALL
    \<and> (\<exists>p'. controller_request T keys host m p = Some (Inr ((push_cmd_of (pr_cmd rp), to_s32 (pr_xid rp)), p')))"
proof -
  let ?ks = "keys (push_slaves host m)" and ?ma = "inet_ntoa (masterinaddr (m_msgIntQ m))"
  have b: "bi_id (push_info m) = Some (m_bcd_filename m)" "bcd_info_set (push_info m) = push_info m"
    by (simp_all add: push_info_eq bcd_info_set_def)
  have n: "[] \<notin> set ?ks" "length ?ks < 2 ^ 32"
    using keys push_slaves_facts [of host m] m(2) distinct_card [OF keys(2)] by auto
  have s: "sent p1 = push_call_tokens ?ma ?ks (push_info m)" "got p1 = got p"
    using bputsD [OF thrift_protocol.client_send_push_sends [where keys = keys, OF T keys b(1)] send(1)] send(2) by simp_all
  have "name = ''push''" "mt = T_CALL" "sq = 0" and q1: "got q1 = push_args_tokens ?ma ?ks (push_info m) @ [KMsgEnd]" "sent q1 = []"
    using takesD [OF thrift_protocol.take_laws(1) [OF T], of q "''push''" T_CALL 0 "push_args_tokens ?ma ?ks (push_info m) @ [KMsgEnd]"]
      arrive s(1) by (auto simp: push_call_tokens_def)
  moreover have "process_push T h 0 q1 = Some (Inr (True, q2))"
    using serve \<open>name = ''push''\<close> \<open>sq = 0\<close> by (simp add: dispatch_call_def process_map_def)
  then have "sent q2 = push_answer_tokens 0 rp"
    using thrift_protocol.process_push_answers [OF T q1(1) inet_ntoa_nonempty n b(1) m(1), of h rp err 0 q2] h q1(2) keys(1) b(2)
    by (simp add: push_info_eq)
  then have "got p1 = push_answer_tokens 0 rp @ []" using reply s(2) by simp
  then obtain p' where "client_recv_push T push_reply_instance_init p1 = Some (Inr (True, push_reply_set rp, p'))"
    using thrift_protocol.client_recv_push_gets [OF T] by blast
  then have "controller_request T keys host m p = Some (Inr ((push_cmd_of (pr_cmd rp), to_s32 (pr_xid rp)), p'))"
    using send(1) by (simp add: controller_request_def client_push_def push_reply_set_def)
  ultimately show ?thesis by blast
qed

text \<open>A call with one receiver that is denied.\<close>

definition example_push :: "nat list MulticastState" where
  "example_push = (zero_multicast [])\<lparr>m_bcd_filename := ''f'', m_data_size := 5, m_msgPshQ := \<lparr>fan_out = 1, fan_out_effective = 1, slaves = [1]\<rparr>\<rparr>"

definition example_handler :: push_handler where
  "example_handler _ _ _ rp = (True, rp\<lparr>pr_xid := 7, pr_cmd := 2\<rparr>, None)"

lemma example_push_sel:
  "push_slaves 0 example_push = {''1.0.0.0''}" "push_info example_push = \<lparr>bi_id = Some ''f'', bi_isset_id = True, bi_size = 5, bi_isset_size = True\<rparr>"
  "inet_ntoa (masterinaddr (m_msgIntQ example_push)) = ''0.0.0.0''"
proof -
  have i: "inet_ntoa 1 = ''1.0.0.0''" "inet_ntoa 0 = ''0.0.0.0''" by code_simp+
  show "push_slaves 0 example_push = {''1.0.0.0''}" using i by (simp add: push_slaves_def example_push_def)
  show "inet_ntoa (masterinaddr (m_msgIntQ example_push)) = ''0.0.0.0''" using i by (simp add: example_push_def zero_multicast_def)
qed (simp add: push_info_eq example_push_def)

lemma example_send:
  "client_send_push mem_protocol (\<lambda>_. [''1.0.0.0'']) (Some ''0.0.0.0'') {''1.0.0.0''}
     \<lparr>bi_id = Some ''f'', bi_isset_id = True, bi_size = 5, bi_isset_size = True\<rparr> ([], ts)
   = (True, push_call_tokens ''0.0.0.0'' [''1.0.0.0''] \<lparr>bi_id = Some ''f'', bi_isset_id = True, bi_size = 5, bi_isset_size = True\<rparr>, ts)"
  by (simp add: client_send_push_def write_strings_def bcd_info_write_def mem_protocol_def put_tok_def nonneg_def push_call_tokens_def
      push_args_tokens_def bcd_info_tokens_def)

lemma example_serve:
  "process_push mem_protocol example_handler 0 ([], push_args_tokens ''0.0.0.0'' [''1.0.0.0'']
     \<lparr>bi_id = Some ''f'', bi_isset_id = True, bi_size = 5, bi_isset_size = True\<rparr> @ [KMsgEnd])
   = Some (Inr (True, (push_answer_tokens 0 \<lparr>pr_xid = 7, pr_isset_xid = False, pr_cmd = 2, pr_isset_cmd = False\<rparr>, [])))"
  by code_simp

theorem request_calls_handler_witness:
  "\<exists>p'. controller_request mem_protocol (\<lambda>_. [''1.0.0.0'']) 0 example_push
      ([], push_answer_tokens 0 \<lparr>pr_xid = 7, pr_isset_xid = False, pr_cmd = 2, pr_isset_cmd = False\<rparr>) = Some (Inr ((CMD_DENY, 7), p'))"
proof -
  let ?b = "\<lparr>bi_id = Some ''f'', bi_isset_id = True, bi_size = 5, bi_isset_size = True\<rparr>"
  let ?rp = "\<lparr>pr_xid = 7, pr_isset_xid = False, pr_cmd = 2, pr_isset_cmd = False\<rparr>"
  let ?p = "([], push_answer_tokens 0 ?rp) :: conn" and ?call = "push_call_tokens ''0.0.0.0'' [''1.0.0.0''] ?b"
  have serve: "dispatch_call mem_protocol example_handler (\<lambda>_. (True, None)) (\<lambda>_ _ _. None) ''push'' 0
      ([], push_args_tokens ''0.0.0.0'' [''1.0.0.0''] ?b @ [KMsgEnd]) = Some (Inr (True, (push_answer_tokens 0 ?rp, [])))"
    using example_serve by (simp add: dispatch_call_def process_map_def)
  have mb: "r_message_begin mem_protocol ([], ?call) = (1, (''push'', T_CALL, 0), ([], push_args_tokens ''0.0.0.0'' [''1.0.0.0''] ?b @ [KMsgEnd]))"
    by (simp add: mem_protocol_def take_tok_def push_call_tokens_def)
  have "\<exists>p'. controller_request mem_protocol (\<lambda>_. [''1.0.0.0'']) 0 example_push ?p
      = Some (Inr ((push_cmd_of (pr_cmd ?rp), to_s32 (pr_xid ?rp)), p'))"
    using request_calls_handler [OF mp.thrift_protocol_axioms _ _ _ _ _ _ _ _ mb _ serve, of "\<lambda>_. [''1.0.0.0'']" 0 example_push ?p "(?call, snd ?p)"]
      example_send
    by (simp add: example_push_sel example_handler_def push_reply_instance_init_def) (simp add: example_push_def)
  then show ?thesis by (simp add: push_cmd_of_def cmd_defs to_s32_def)
qed

end
