(* ===== verification/Spec2Isabelle.thy ===== *)
theory Spec2Isabelle
  imports Dll Checksum Wire SendThread ServiceThread DataChan Repair Startup System Controller
begin

text \<open>
  A verification library for the agent of Republic, a reliable multicast system for the racks of a data centre
  (\<^verbatim>\<open>src/protocol/src\<close>, in C).  On every host one agent runs.  The applications of a host talk to it over a Unix socket.  The agent
  of the master cuts a file into numbered packets and broadcasts them, round after round, over the optical data channel, which
  netmap gives it; each receiver begins with the packet it sees first and is served until that packet comes round
  again.  Over TCP, the control channel, receivers report their first packet, ask for what they lost, and get it as patches.

  \<^bold>\<open>The parts of the program and their theories.\<close>  Each theory follows its source file; a definition has the name of the C
  function, type or constant it models, and the parts into which a long function is cut are named after it.

    \<^item> \<open>Prelude\<close>: words and signed readings, faults of the process (\<open>'a res\<close>, a sum with the fault on the left), byte images, C
      strings, \<^verbatim>\<open>struct timeval\<close>.  \<open>Printf\<close> and \<open>Libc\<close>: the functions of the C library for numbers, addresses, tokens and options.
    \<^item> \<open>Dll\<close> (\<^verbatim>\<open>dll.c\<close>, \<^verbatim>\<open>dll.h\<close>): the doubly linked list on an explicit heap, with its two iteration macros.
    \<^item> \<open>Checksum\<close> (\<^verbatim>\<open>checksum.c\<close>): IP, TCP and UDP checksums.
    \<^item> \<open>Wire\<close> (\<^verbatim>\<open>msg.c\<close>, \<^verbatim>\<open>msg.h\<close>, constants of \<^verbatim>\<open>global.h\<close>): headers and payloads, packet headers, file names.
    \<^item> \<open>MsgQueue\<close> (\<^verbatim>\<open>hero.c\<close>): message tokens, the priority rule, \<^verbatim>\<open>sendMsg\<close> with partial sends, deletion.
    \<^item> \<open>Frame\<close>: the receive loop that \<^verbatim>\<open>thread_recv.c\<close>, \<^verbatim>\<open>thread_send.c\<close> and \<^verbatim>\<open>thread_service.c\<close> have in common.
    \<^item> \<open>Recver\<close> (\<^verbatim>\<open>hero.c\<close>, with the branches of \<^verbatim>\<open>thread_data.c\<close> and \<^verbatim>\<open>thread_recv.c\<close> that store a packet or a patch): the receiver of
      one broadcast.  \<open>Repair\<close>: the same receiver under losses and patches.
    \<^item> \<open>Multicast\<close> (\<^verbatim>\<open>hero.c\<close>): the sender of one broadcast, its rate, its end, its packets and its patches.
    \<^item> \<open>Agent\<close> (\<^verbatim>\<open>global.c\<close>, \<^verbatim>\<open>hero.c\<close>, \<^verbatim>\<open>main.c\<close>): the state that the threads share, the record \<open>agent\<close>, and the creation and deletion of
      sockets, connections and applications.
    \<^item> \<open>DataChan\<close> (\<^verbatim>\<open>thread_data.c\<close>): the packet mover with its dispatch to receivers, the rate-limited sender, the release of the path.
    \<^item> \<open>SendThread\<close> (\<^verbatim>\<open>thread_send.c\<close>), \<open>RecvThread\<close> (\<^verbatim>\<open>thread_recv.c\<close>), \<open>ServiceThread\<close> (\<^verbatim>\<open>thread_service.c\<close>): one pass of the
      loop of each control thread with every message handler, as a function from the shared state and what the pass meets
      (time, \<^verbatim>\<open>select\<close>, \<^verbatim>\<open>read\<close>, \<^verbatim>\<open>send\<close>, \<^verbatim>\<open>accept\<close>) to the next shared state.
    \<^item> \<open>NetSetup\<close> (\<^verbatim>\<open>netmap_util.c\<close>, the table of NICs of \<^verbatim>\<open>hero.c\<close>): the channels and the netmap descriptors.
    \<^item> \<open>Startup\<close> (\<^verbatim>\<open>main.c\<close>, \<^verbatim>\<open>sys_util.c\<close>): the options, \<^verbatim>\<open>main\<close> up to its threads, and what each thread does before its loop.
    \<^item> \<open>Thrift\<close>: the operations of Thrift's library that the generated code uses, with their contract, and the shapes of a generated writer
      and reader.  \<open>BcdTypes\<close>, \<open>BcdService\<close> (\<^verbatim>\<open>gen-c_glib\<close>): the structs of the controller's service, its client and its processor.
      \<open>Controller\<close> (\<^verbatim>\<open>thread_service.c\<close>): the calls of the service thread, as the source of the reply on which \<open>request_path\<close> acts.
    \<^item> \<open>Safety\<close>: which pointers of the sending thread are valid, and that its pass keeps them so.  \<open>System\<close>: the other three threads keep
      them too; the agent as a step relation, one step a pass of one of the four threads.
    \<^item> This theory: properties that need the sender, the data channel and the receiver together.

  \<^bold>\<open>How they interact.\<close>  The threads share the fields of \<open>agent\<close>.  The data thread tells the receiving control thread about a receiver
  through the pipe \<open>pipe_n2c\<close>; the two control threads tell the service thread through \<open>pipe_c2i\<close> and \<open>pipe_c_send2i\<close>, and the service
  thread answers through \<open>pipe_i2c\<close>; \<open>ringCmd\<close>, \<open>queuePush_p\<close> and \<open>activeMulticast_p\<close> carry commands, waiting pushes and the multicast that
  has the path.  The state of a receiver or a multicast is found by its \<open>BcdID\<close>.

  \<^bold>\<open>What the groups of lemmas show.\<close>  Over all parts: a receiver that gets a round of the master's frames has the master's file
  (this theory), and one that loses any of them has it as soon as all parts were patched (\<open>Repair\<close>); and in no state that the
  four threads reach together from the start does the sending thread follow a dangling pointer to a connection or a sender (\<open>System\<close>: an
  invariant of the shared state, by induction on the step relation; null pointers and array bounds are not part of it).  For the parts: the list operations refine
  operations on sequences without a fault; computed checksums verify; created headers are parsed back;
  the message queue admits by its rule and sends every byte once; the receive loop, one function for the three control threads, hands over the
  messages whatever pieces the socket delivers; the ends of receivers, patches,
  FAST_DONE scan, command ring and counters of the sender; conservation of buffers and packets in the data channel, its credit, and exactly when the end is marked;
  the notices between the threads; the queue of pushes with what each answer of the controller does to it; the reading of options and configurations, and that an agent that starts can send.
  A request to the controller calls its handler with the data of the push and returns its reply, and one that is not answered counts as granted.
  The locales \<open>apr_queue\<close>, \<open>skiplist\<close>, \<open>netmap\<close>, \<open>thrift_protocol\<close>, \<open>fifo\<close> and \<open>frame_client\<close> are the contracts between parts, each with an interpretation.

  \<^bold>\<open>Assumptions.\<close>
    \<^item> The machine is little-endian with 64-bit \<^verbatim>\<open>long\<close>.  Integers have their width; a \<^verbatim>\<open>double\<close> is a real number (\<open>Libc\<close> also reads
      infinities and NaN).
    \<^item> Allocations succeed, but for the nodes of \<open>Dll\<close> where a failure is modelled; memory from \<^verbatim>\<open>malloc\<close> that is not initialised is zero.
    \<^item> Library code outside the repository is an argument with a contract of what its documentation says: the queues and skip
      lists of APR, the ring functions of netmap, the protocol of Thrift.  APR hash tables are maps, APR rings and the agent's own lists are lists there.
      Of a skip list only a bag with a first element is assumed, since the agent's comparison functions look at the wrong memory.
    \<^item> What the operating system, the resolver and the controller answer is an argument.  The clock stands still during one pass of
      a thread.  Writes to the agent's pipes are complete.  A file that was removed while it is open loses what is written to it.
    \<^item> A pass of a thread is one step.  The locks between the data thread and the receiving thread are free at
      its beginning, so that their waiting loops end at once.  \<open>Repair\<close> interleaves the steps of the two threads on one receiver freely.
    \<^item> There is one pair of netmap rings, as the code asserts.  A negative burst from the command line is read as 0.

  \<^bold>\<open>Loops.\<close>  A loop that walks data is a recursion that terminates.  The iteration macros of \<open>Dll\<close> have fuel, and the length of
  the list is enough (\<open>List_destroy_frees_all\<close>, \<open>List_sweep_filters\<close>).  The receive loop, \<^verbatim>\<open>sendMsg\<close>, \<^verbatim>\<open>deleteSendQueue\<close>, the work on
  patch requests and the FAST_DONE scan are partial functions where \<open>None\<close> is a loop that does not end; that they return is proved where they do
  (\<open>frames_survive_chunking\<close>, \<open>sendMsg_conserves\<close>, \<open>deleteSendQueue_frees_all\<close>, \<open>processPatchTuple_serves\<close>,
  \<open>scan_pop_moves\<close>), and that the receive loop does not, for a length
  of 0 (\<open>zero_length_never_returns\<close>).  The loop over the fields of a struct of Thrift ends with the field that says so;
  on what a writer wrote it does (\<open>reads_field\<close>, \<open>reads_stop\<close> in \<open>Thrift\<close>).

  \<^bold>\<open>Not modelled.\<close>  In the generated code under \<^verbatim>\<open>gen-c_glib\<close>, the registration of classes with GObject, reference counts and the freeing of
  objects; the handler of the processor is an argument.  The number of CPUs, log messages with their time stamps, and the text of the statistics files, which
  nothing reads; the counters and times that are written there are fields of the states.  The usage text.  In \<^verbatim>\<open>main\<close>, the set-up of the log, the
  signal handler, which is empty, and the waiting for threads.  \<^verbatim>\<open>deleteSenderState\<close>, which only frees and is not called.
\<close>

subsection \<open>From the file of the master to the file of a receiver\<close>

text \<open>The data thread of the master over time: bursts into transmit rings that the NIC has emptied in between.  A burst is
  given by the time, the ring with its buffers, and the number of packets that may be sent.\<close>

type_synonym burst = "timeval \<times> ring \<times> (nat \<Rightarrow> byte list) \<times> pktnum"

fun bursts :: "nm_ops \<Rightarrow> byte list \<Rightarrow> burst list \<Rightarrow> 's MulticastState \<times> byte list list
    \<Rightarrow> ('s MulticastState \<times> byte list list) res" where
  "bursts N xs [] st = Inr st"
| "bursts N xs ((now, tx, bufs, limit) # bs) (m, out) =
     rbind (am_process_rings N now xs limit (m, tx, bufs)) (\<lambda>(m, _, bufs', n, _).
       bursts N xs bs (m, out @ map (\<lambda>i. bufs' (buf_at tx i)) [0..<nat n]))"

definition burst_ok :: "nat \<Rightarrow> burst \<Rightarrow> bool" where
  "burst_ok P b \<longleftrightarrow> (case b of (now, tx, bufs, limit) \<Rightarrow> tx_ok P tx bufs \<and> rg_tail tx < num_slots tx \<and> 0 \<le> limit)"

definition burst_slots :: "burst \<Rightarrow> nat" where
  "burst_slots b = (case b of (now, tx, bufs, limit) \<Rightarrow> num_slots tx)"

definition burst_len :: "nm_ops \<Rightarrow> burst \<Rightarrow> nat" where
  "burst_len N b = (case b of (now, tx, bufs, limit) \<Rightarrow> nat (min limit (int (nm_ring_space N tx))))"

lemma bursts_stream:
  assumes N: "netmap N" and "sends m xs P" "headers_ok m" and "m_fd m = Some pos"
    and "at_part xs P (nth_part xs P (unat (seq_cur m))) pos"
    and "\<forall>b \<in> set bs. burst_ok P b" and "unat (seq_cur m) + (\<Sum>b\<leftarrow>bs. burst_slots b) < 2 ^ 32"
  shows "\<exists>m' ps. bursts N xs bs (m, out) = Inr (m', out @ ps) \<and> length ps = (\<Sum>b\<leftarrow>bs. burst_len N b)
    \<and> (\<forall>k < length ps. \<exists>old. ps ! k = am_frame m xs (nth_part xs P (unat (seq_cur m) + k)) old)"
  using assms(2-)
proof (induction bs arbitrary: m pos out)
  case Nil
  then show ?case by simp
next
  case (Cons b bs)
  obtain now tx bufs limit where b: "b = (now, tx, bufs, limit)" by (cases b)
  have ok: "tx_ok P tx bufs" "rg_tail tx < num_slots tx" "0 \<le> limit" "unat (seq_cur m) + num_slots tx < 2 ^ 32"
    using Cons.prems(5,6) b by (auto simp: burst_ok_def burst_slots_def)
  obtain m1 tx1 bufs1 n mark fin pos1 where r: "am_process_rings N now xs limit (m, tx, bufs) = Inr (m1, tx1, bufs1, int n, mark, fin)"
    "int n = min limit (int (nm_ring_space N tx))" "burst_done m xs P tx bufs n tx1 bufs1"
    "unat (seq_cur m1) = unat (seq_cur m) + n" "m_fd m1 = Some pos1" "at_part xs P (nth_part xs P (unat (seq_cur m1))) pos1"
    "sends m1 xs P" "headers_ok m1" "am_frame m1 = am_frame m"
    using am_process_rings_spec [OF N Cons.prems(1-4) ok(1,2,4,3), of now] by blast
  have len: "burst_len N b = n" "n \<le> num_slots tx"
  proof -
    have cur: "rg_cur tx < num_slots tx" using ok(1) by (simp add: tx_ok_def)
    show "burst_len N b = n" using r(2) by (simp add: burst_len_def b flip: r(2))
    show "n \<le> num_slots tx" using space_lt [OF N cur ok(2)] r(2) by linarith
  qed
  have lt: "unat (seq_cur m1) + (\<Sum>b\<leftarrow>bs. burst_slots b) < 2 ^ 32"
    using Cons.prems(6) r(4) len(2) by (simp add: b burst_slots_def)
  let ?out = "out @ map (\<lambda>i. bufs1 (buf_at tx i)) [0..<n]"
  obtain m' ps where ih: "bursts N xs bs (m1, ?out) = Inr (m', ?out @ ps)" "length ps = (\<Sum>b\<leftarrow>bs. burst_len N b)"
    "\<forall>k < length ps. \<exists>old. ps ! k = am_frame m1 xs (nth_part xs P (unat (seq_cur m1) + k)) old"
    using Cons.IH [OF r(7,8,5,6) _ lt, of ?out] Cons.prems(5) by force
  let ?ps = "map (\<lambda>i. bufs1 (buf_at tx i)) [0..<n] @ ps"
  have "\<exists>old. ?ps ! k = am_frame m xs (nth_part xs P (unat (seq_cur m) + k)) old" if "k < length ?ps" for k
  proof (cases "k < n")
    case True
    then have "?ps ! k = am_frame m xs (nth_part xs P (unat (seq_cur m) + k)) (bufs (buf_at tx k))"
      using r(3) by (simp add: nth_append burst_done_def Let_def)
    then show ?thesis by blast
  next
    case False
    then have e: "unat (seq_cur m1) + (k - n) = unat (seq_cur m) + k" "k - n < length ps" using r(4) that by auto
    obtain old where "ps ! (k - n) = am_frame m xs (nth_part xs P (unat (seq_cur m) + k)) old"
      using ih(3) [rule_format, OF e(2)] unfolding e(1) r(9) by blast
    then show ?thesis using False by (simp add: nth_append) blast
  qed
  then show ?case
    using r(1) ih(1,2) len(1) by (intro exI [of _ m'] exI [of _ ?ps]) (simp add: b)
qed

text \<open>What a frame is for the receiver.\<close>

lemma frame_source:
  assumes "headers_ok m"
  shows "peek 26 4 (am_front m len) = peek 12 4 (ip_hdr m)"
proof -
  let ?ip = "poke 2 (le_enc 2 (htons (of_nat (IP4_HDRLEN + UDP_HDRLEN) + ucast len))) (ip_hdr m)"
  have l: "length ?ip = 20" "length (eth_hdr m) = 14" "length (ip_hdr m) = 20" using assms by (simp_all add: headers_ok_def)
  have "peek 12 4 (compute_ip_checksum ?ip) = peek 12 4 ?ip"
    using l by (simp add: compute_ip_checksum_def Let_def peek_poke_after)
  also have "\<dots> = peek 12 4 (ip_hdr m)" using l by (intro peek_poke_after) simp_all
  finally show ?thesis
    using l by (simp add: am_front_def peek_skip peek_append_left length_compute_ip_checksum)
qed

lemma frame_for_receiver:
  assumes m: "sends m xs P" and h: "headers_ok m" and app: "length (takeWhile (\<lambda>b. b \<noteq> 0) (iq_app_id (m_msgIntQ m))) < APPID_LEN"
    and len: "length xs < 2 ^ 63"
  shows "carries xs P (am_frame m xs s old) s" "dh_bcd_id (parseDataHdr (am_frame m xs s old) DATA_HDR_OFFSET) = m_bcd_id m"
    "src_of (am_frame m xs s old) = inet_ntoa (le_dec (peek 12 4 (ip_hdr m)))"
proof -
  let ?w = "of_nat (length (part_packet m xs s)) :: u32"
  let ?rest = "drop (42 + length (part_packet m xs s)) old"
  have P: "unat (m_byte_payload m) = P" "P < 65536" using sends_payload [OF m] m by (simp_all add: sends_def)
  have f: "am_frame m xs s old = am_front m ?w @ packet_of (m_bcd_id m) (iq_app_id (m_msgIntQ m)) xs P s @ ?rest"
    using P(1) by (simp add: am_frame_def part_packet_def)
  have l: "length (am_front m ?w) = DATA_HDR_OFFSET" "length (am_front m ?w) = 42"
    using am_frame_props(2) [OF m h] by (simp_all add: const_defs)
  show "carries xs P (am_frame m xs s old) s" unfolding f by (rule carries_packet_of [OF l(1) len P(2) app])
  have "parseDataHdr (am_frame m xs s old) 42
      = \<lparr>dh_bcd_id = m_bcd_id m, seq_num = of_nat s, dh_len = of_nat (length (chunk P xs s))\<rparr>"
    unfolding f by (rule parseDataHdr_enc) (simp add: packet_of_def peek_skip l(2) peek_hd)
  then show "dh_bcd_id (parseDataHdr (am_frame m xs s old) DATA_HDR_OFFSET) = m_bcd_id m" by (simp add: const_defs)
  have "peek 26 4 (am_frame m xs s old) = peek 26 4 (am_front m ?w)" unfolding f by (simp add: peek_append_left l(2))
  then show "src_of (am_frame m xs s old) = inet_ntoa (le_dec (peek 12 4 (ip_hdr m)))"
    by (simp add: src_of_def frame_source [OF h] ETH_HLEN_def)
qed

lemma fits_length:
  assumes "fits xs P first"
  shows "length xs < 2 ^ 63"
proof -
  have b: "xs \<noteq> []" "0 < P" "P \<le> 65536" "n_packets (length xs) P \<le> 2147483547" using assms by (simp_all add: fits_def)
  have "0 < length xs" using b(1) by simp
  note c = packets_cover [OF this b(2)]
  have "length xs \<le> (n_packets (length xs) P - 1) * P + P" using c(2,4) by linarith
  also have "\<dots> = n_packets (length xs) P * P" using c(1) by (cases "n_packets (length xs) P") simp_all
  also have "\<dots> \<le> 2147483547 * 65536" by (rule mult_le_mono [OF b(4,3)])
  finally show ?thesis by simp
qed

text \<open>A window of the frames is again a run of consecutive parts.\<close>

lemma window_frames:
  assumes "\<forall>k < length ps. \<exists>old. ps ! k = am_frame m xs (nth_part xs P (cur + k)) old"
    and "k < n_packets (length xs) P" "i + n_packets (length xs) P \<le> length ps"
  shows "\<exists>old. take (n_packets (length xs) P) (drop i ps) ! k
    = am_frame m xs ((nth_part xs P (cur + i) + k) mod n_packets (length xs) P) old"
proof -
  have "take (n_packets (length xs) P) (drop i ps) ! k = ps ! (i + k)" "i + k < length ps" using assms(2,3) by simp_all
  moreover have "nth_part xs P (cur + (i + k)) = (nth_part xs P (cur + i) + k) mod n_packets (length xs) P"
    by (simp add: nth_part_def mod_add_left_eq add.assoc)
  ultimately show ?thesis using assms(1) by metis
qed

text \<open>C1: A broadcast arrives, from the file of the master to the file of a receiver.  Whatever bursts the master's data thread sends
  the file in, every \<open>n\<close> consecutive frames of the stream, one round, are data packets of the broadcast, and a receiver
  that knows the application and the master and gets just these frames, starting with any of them, makes its state, stores
  the data and is finished at the last frame: the file, read in the order that it gives to the applications, is the
  file of the master.  No other receiver is touched.\<close>

theorem broadcast_delivered:
  assumes N: "netmap N" and m: "sends m xs P" "headers_ok m" and pos: "m_fd m = Some pos"
    "at_part xs P (nth_part xs P (unat (seq_cur m))) pos"
    and app: "length (takeWhile (\<lambda>b. b \<noteq> 0) (iq_app_id (m_msgIntQ m))) < APPID_LEN"
    and bs: "\<forall>b \<in> set bs. burst_ok P b" "unat (seq_cur m) + (\<Sum>b\<leftarrow>bs. burst_slots b) < 2 ^ 32"
    and win: "i + n_packets (length xs) P \<le> (\<Sum>b\<leftarrow>bs. burst_len N b)" "fits xs P (nth_part xs P (unat (seq_cur m) + i))"
    and g: "hashRecver g (m_bcd_id m) = None" "hashApp g (app_id (m_bcd_id m)) \<noteq> None" "existAppDir (dirs g) (app_id (m_bcd_id m))"
      "find_rsock (fds_heap g) (inet_ntoa (le_dec (peek 12 4 (ip_hdr m)))) (rsockList g) = Inr (Some a)"
      "data_payload_len cf = of_nat P"
  shows "\<exists>m' ps g' rv file. bursts N xs bs (m, []) = Inr (m', ps) \<and> (\<forall>p \<in> set ps. is_fast_packet NM_N2H p)
    \<and> deliver cf now (True, True) (take (n_packets (length xs) P) (drop i ps)) g = Inr g'
    \<and> hashRecver g' (m_bcd_id m) = Some rv \<and> is_finished rv \<and> files g' (BcdIdtoFilename (m_bcd_id m)) = Some file
    \<and> read_order file (fm_start (fileMetadata rv)) (fm_jump (fileMetadata rv)) = xs
    \<and> (\<forall>b. b \<noteq> m_bcd_id m \<longrightarrow> hashRecver g' b = hashRecver g b)"
proof -
  let ?n = "n_packets (length xs) P" and ?first = "nth_part xs P (unat (seq_cur m) + i)"
  obtain m' ps where s: "bursts N xs bs (m, []) = Inr (m', ps)" "length ps = (\<Sum>b\<leftarrow>bs. burst_len N b)"
    "\<forall>k < length ps. \<exists>old. ps ! k = am_frame m xs (nth_part xs P (unat (seq_cur m) + k)) old"
    using bursts_stream [OF N m pos bs, of "[]"] by auto
  have n: "0 < ?n" using m(1) packets_cover [of "length xs" P] by (simp add: sends_def)
  note fr = frame_for_receiver [OF m app fits_length [OF win(2)]]
  have fast: "is_fast_packet NM_N2H p" if "p \<in> set ps" for p
    using that s(3) am_frame_props(1) [OF m] by (metis in_set_conv_nth)
  let ?ws = "take ?n (drop i ps)"
  have lw: "length ?ws = ?n" using win(1) s(2) by simp
  have wk: "\<exists>old. ?ws ! k = am_frame m xs ((?first + k) mod ?n) old" if "k < ?n" for k
    by (rule window_frames [OF s(3) that]) (use win(1) s(2) in simp)
  have c: "\<forall>k < length ?ws. carries xs P (?ws ! k) ((?first + k) mod length ?ws)"
    unfolding lw using wk fr(1) by metis
  have d: "\<forall>p \<in> set ?ws. dh_bcd_id (parseDataHdr p DATA_HDR_OFFSET) = m_bcd_id m
      \<and> find_rsock (fds_heap g) (src_of p) (rsockList g) = Inr (Some a)"
    using wk fr(2,3) lw g(4) by (metis in_set_conv_nth)
  obtain rv where rv: "createRecverState (data_payload_len cf) True True True (m_bcd_id m) = Some rv"
    by (simp add: createRecverState_def)
  obtain r' fl where run: "fast_run now ?ws (startFathPath now (rv\<lparr>r_fds_p := Some a\<rparr>), []) = Inr (r', fl)"
    "is_finished r'" "read_order fl (fm_start (fileMetadata r')) (fm_jump (fileMetadata r')) = xs"
    using lossless_round [OF win(2) rv [unfolded g(5)] lw c] by blast
  have ne: "?ws \<noteq> []" using lw n by auto
  obtain out where "deliver cf now (True, True) ?ws g = Inr (g\<lparr>hashRecver := (hashRecver g)(m_bcd_id m \<mapsto> r'),
    pipe_n2c := pipe_n2c g @ out, files := (files g)(BcdIdtoFilename (m_bcd_id m) \<mapsto> fl)\<rparr>)"
    using deliver_new [OF g(1-3) ne d rv run(1)] by blast
  then show ?thesis using s(1) fast run(2,3) by simp
qed

text \<open>Five bytes in packets of two: two bursts, and a receiver that misses the first frame.\<close>

definition example_burst :: burst where
  "example_burst = (TV0, example_ring, \<lambda>_. replicate 200 0, 7)"

definition example_receiver :: "(nat, nat, BcdID list) agent" where
  "example_receiver = (initSharedDataStructures (cmp_skiplist (\<lambda>_ _. 1)))
     \<lparr>hashApp := [app_id zero_id \<mapsto> 1], dirs := {AppIdtoDir (app_id zero_id)}, rsockList := [4],
      fds_heap := [4 \<mapsto> \<lparr>fd = 9, fd_type = CTRL_RECV_TCP, state_p = RecvSock \<lparr>server_addr = 0, rs_nic_name = [],
        rs_ip_address = ''0.0.0.0''\<rparr>, is_trashed = False, tv_trashed = TV0, fd_rbuf = rbuf_init,
        fd_sendQueue_p = None, fd_remainMsgToken_p = None\<rparr>]\<rparr>"

theorem broadcast_delivered_witness:
  "\<exists>m' ps g' rv file. bursts list_netmap [1, 2, 3, 4, 5] [example_burst, example_burst] (example_multicast, []) = Inr (m', ps)
    \<and> deliver example_config TV0 (True, True) (take 3 (drop 1 ps)) example_receiver = Inr g'
    \<and> hashRecver g' zero_id = Some rv \<and> files g' (BcdIdtoFilename zero_id) = Some file
    \<and> read_order file (fm_start (fileMetadata rv)) (fm_jump (fileMetadata rv)) = [1, 2, 3, 4, 5]"
proof -
  let ?xs = "[1, 2, 3, 4, 5] :: byte list"
  have n: "n_packets (length ?xs) 2 = 3" by (simp add: n_packets_def)
  have m: "m_bcd_id example_multicast = zero_id" "seq_cur example_multicast = 0" "m_fd example_multicast = Some 0"
    "iq_app_id (m_msgIntQ example_multicast) = []" "peek 12 4 (ip_hdr example_multicast) = [0, 0, 0, 0]"
    by (simp_all add: example_multicast_def zero_multicast_def peek_def numeral_eq_Suc)
  have sp: "nm_ring_space list_netmap example_ring = 3" by (simp add: list_netmap_def example_ring_def)
  have b: "burst_ok 2 example_burst" "burst_slots example_burst = 4" "burst_len list_netmap example_burst = 3"
    using example_sends(3) by (simp_all add: burst_ok_def burst_slots_def burst_len_def example_burst_def sp)
      (simp_all add: example_ring_def)
  have f: "fits ?xs 2 (nth_part ?xs 2 (unat (seq_cur example_multicast) + 1))" "at_part ?xs 2 (nth_part ?xs 2 (unat (seq_cur example_multicast))) 0"
    by (simp_all add: m fits_def nth_part_def n n_packets_def at_part_def)
  have addr: "inet_ntoa (le_dec [0, 0, 0, 0]) = ''0.0.0.0''" by code_simp
  have g: "hashRecver example_receiver zero_id = None" "hashApp example_receiver (app_id zero_id) \<noteq> None"
    "existAppDir (dirs example_receiver) (app_id zero_id)"
    "find_rsock (fds_heap example_receiver) (inet_ntoa (le_dec (peek 12 4 (ip_hdr example_multicast)))) (rsockList example_receiver) = Inr (Some 4)"
    "data_payload_len example_config = of_nat 2"
    unfolding m addr by (simp_all add: example_receiver_def initSharedDataStructures_def existAppDir_def example_config_def)
  have app: "length (takeWhile (\<lambda>b. b \<noteq> 0) (iq_app_id (m_msgIntQ example_multicast))) < APPID_LEN" by (simp add: m const_defs)
  note t = broadcast_delivered [OF ln.netmap_axioms example_sends(1,2) m(3) f(2) app, where bs = "[example_burst, example_burst]" and i = 1 and a = 4
      and g = example_receiver and cf = example_config and now = TV0, unfolded m(1) n]
  show ?thesis using t f(1) g b m(2) by auto
qed

end
